(* ===== verification/Prelude.thy ===== *)
theory Prelude
  imports Complex_Main "HOL-Library.Word" "HOL-Library.AList" "HOL-Library.Multiset"
begin

section \<open>Shared types, collections and lemmas\<close>

text \<open>
  The prelude of the development: the fixed-width integers of the C++ sources as words, bytes
  and byte buffers, association lists as the model of \<open>std::unordered_map\<close> (every container of
  the sources is only looked up, updated, erased and counted; where one is iterated the model
  says so), and the generic list lemmas the component theories share.

  The collection \<open>lrd_defs\<close> holds the defining equations of small non-recursive operations, so
  that a component proof unfolds them with \<open>simp add: lrd_defs\<close>; \<open>inv_intros\<close> holds the
  preservation lemmas of component invariants.
\<close>

unbundle bit_operations_syntax

named_theorems lrd_defs \<open>defining equations of small operations\<close>
named_theorems inv_intros \<open>preservation of component invariants\<close>
named_theorems wire_simps \<open>reads of freshly written bytes\<close>

type_synonym u8 = "8 word"
type_synonym u16 = "16 word"
type_synonym u32 = "32 word"
type_synonym u64 = "64 word"
type_synonym byte = u8
type_synonym bytes = "byte list"

subsection \<open>Association lists as unordered maps\<close>

type_synonym ('k, 'v) umap = "('k \<times> 'v) list"

abbreviation umap_wf :: "('k, 'v) umap \<Rightarrow> bool" where
  "umap_wf m \<equiv> distinct (map fst m)"

text \<open>\<open>emplace\<close> inserts only when the key is absent.\<close>

definition umap_emplace :: "'k \<Rightarrow> 'v \<Rightarrow> ('k, 'v) umap \<Rightarrow> ('k, 'v) umap" where
  "umap_emplace k v m = (if map_of m k = None then (k, v) # m else m)"

lemma umap_delete_filter: "AList.delete k m = filter (\<lambda>p. fst p \<noteq> k) m"
  unfolding AList.delete_eq by (rule filter_cong) auto

lemma umap_delete_fresh:
  "k \<notin> fst ` set m \<Longrightarrow> AList.delete k m = m"
  by (force simp: AList.delete_eq filter_id_conv)

lemma umap_size_delete:
  assumes "umap_wf m" and "map_of m k \<noteq> None"
  shows "Suc (length (AList.delete k m)) = length m"
  using assms
proof (induction m)
  case Nil
  then show ?case by simp
next
  case (Cons p m)
  show ?case
  proof (cases "fst p = k")
    case True
    with Cons.prems have "k \<notin> fst ` set m" by auto
    with True show ?thesis by (cases p) (simp add: umap_delete_fresh)
  next
    case False
    with Cons show ?thesis by (cases p) auto
  qed
qed

lemma umap_delete_None:
  "map_of m k = None \<Longrightarrow> AList.delete k m = m"
  by (simp add: map_of_eq_None_iff umap_delete_fresh)

lemma umap_mem_iff: "umap_wf m \<Longrightarrow> (k, v) \<in> set m \<longleftrightarrow> map_of m k = Some v"
  by (metis map_of_eq_Some_iff)

subsection \<open>Lists\<close>

lemma sum_list_update_nat:
  fixes f :: "'a \<Rightarrow> nat"
  assumes "i < length xs"
  shows "(\<Sum>x\<leftarrow>xs[i := y]. f x) + f (xs ! i) = (\<Sum>x\<leftarrow>xs. f x) + f y"
  using assms
proof (induction xs arbitrary: i)
  case Nil
  then show ?case by simp
next
  case (Cons x xs)
  then show ?case by (cases i) auto
qed

lemma set_butlast_distinct: "distinct xs \<Longrightarrow> xs \<noteq> [] \<Longrightarrow> set (butlast xs) = set xs - {last xs}"
  by (induction xs rule: rev_induct) auto

lemma filter_fst_neq_length:
  assumes "distinct (map fst xs)" and "i \<in> fst ` set xs"
  shows "Suc (length (filter (\<lambda>p. fst p \<noteq> i) xs)) = length xs"
  using assms
proof (induction xs)
  case Nil
  then show ?case by simp
next
  case (Cons p xs)
  show ?case
  proof (cases "fst p = i")
    case True
    with Cons.prems have "\<forall>q\<in>set xs. fst q \<noteq> i" by (metis distinct.simps(2) image_eqI list.simps(9) set_map)
    then have "filter (\<lambda>p. fst p \<noteq> i) xs = xs" by simp
    with True show ?thesis by simp
  next
    case False
    with Cons show ?thesis by auto
  qed
qed

subsection \<open>Sequences of operations\<close>

text \<open>Runs the operations in order, threading the state and collecting the results.\<close>

fun run_ops :: "('op \<Rightarrow> 's \<Rightarrow> 'r \<times> 's) \<Rightarrow> 'op list \<Rightarrow> 's \<Rightarrow> 'r list \<times> 's" where
  "run_ops step [] s = ([], s)"
| "run_ops step (x # xs) s =
     (let (r, s') = step x s; (rs, s'') = run_ops step xs s' in (r # rs, s''))"

lemma run_ops_snoc:
  "snd (run_ops step (xs @ [x]) s) = snd (step x (snd (run_ops step xs s)))"
  by (induction xs arbitrary: s) (auto simp: split_beta Let_def)

lemma run_ops_append:
  "run_ops step (xs @ ys) s =
     (let (rs, s') = run_ops step xs s; (rs', s'') = run_ops step ys s' in (rs @ rs', s''))"
  by (induction xs arbitrary: s) (auto simp: split_beta Let_def)

lemma run_ops_length: "length (fst (run_ops step xs s)) = length xs"
  by (induction xs arbitrary: s) (auto simp: split_beta Let_def)

text \<open>An invariant of the steps is an invariant of every run.\<close>

lemma run_ops_invariant:
  assumes "\<And>x s. x \<in> set xs \<Longrightarrow> P s \<Longrightarrow> P (snd (step x s))" and "P s"
  shows "P (snd (run_ops step xs s))"
  using assms by (induction xs arbitrary: s) (auto simp: split_beta Let_def)

end
