(* ===== verification/Ieee_Double.thy ===== *)
theory Ieee_Double
  imports Prelude "HOL-Library.Log_Nat"
begin

section \<open>IEEE-754 binary64, the C++ type double\<close>

text \<open>
  The sources compute scores, penalties, window estimates and noise in \<open>double\<close>, so the model
  has the binary64 format itself rather than the reals: a double is its 64 bits, a finite double
  has an exact rational value, and an arithmetic operation rounds the exact result to the
  nearest double, ties to even, with overflow to infinity, gradual underflow, signed zeros and
  NaN. The bits of a NaN result (sign and payload), which the standard leaves open, are those of
  the positive quiet NaN. Comparison is the IEEE one: every ordered comparison with a NaN is
  false.

  The lemmas are the two facts the components use: rounding is monotone, and it is exact on
  representable values. They are stated over \<open>dkey\<close>, an integer that orders the doubles.
\<close>

datatype double = Dbl (dbits: u64)

subsection \<open>Format\<close>

definition inf_mag :: nat where
  "inf_mag = 2047 * 2 ^ 52"

definition dsign :: "double \<Rightarrow> bool" where
  "dsign d \<longleftrightarrow> 2 ^ 63 \<le> unat (dbits d)"

definition dmag :: "double \<Rightarrow> nat" where
  "dmag d = unat (dbits d) mod 2 ^ 63"

definition mk_double :: "bool \<Rightarrow> nat \<Rightarrow> double" where
  "mk_double s m = Dbl (word_of_nat ((if s then 2 ^ 63 else 0) + m mod 2 ^ 63))"

definition is_nan :: "double \<Rightarrow> bool" where
  "is_nan d \<longleftrightarrow> inf_mag < dmag d"

definition is_inf :: "double \<Rightarrow> bool" where
  "is_inf d \<longleftrightarrow> dmag d = inf_mag"

definition is_finite :: "double \<Rightarrow> bool" where
  "is_finite d \<longleftrightarrow> dmag d < inf_mag"

definition quiet_nan :: double where
  "quiet_nan = mk_double False (inf_mag + 2 ^ 51)"

definition mag_val :: "nat \<Rightarrow> rat" where
  "mag_val b =
     (if b div 2 ^ 52 = 0 then of_nat b * 2 powi (-1074)
      else of_nat (b mod 2 ^ 52 + 2 ^ 52) * 2 powi (int (b div 2 ^ 52) - 1075))"

definition dval :: "double \<Rightarrow> rat" where
  "dval d = (if dsign d then - mag_val (dmag d) else mag_val (dmag d))"

definition dkey :: "double \<Rightarrow> int" where
  "dkey d = (if dsign d then - int (dmag d) else int (dmag d))"

subsection \<open>Rounding to nearest, ties to even\<close>

definition ilog2 :: "rat \<Rightarrow> int" where
  "ilog2 q =
     (let (n, d) = quotient_of q; e = bitlen n - bitlen d
      in if 2 powi e \<le> q then e else e - 1)"

definition ulp_exp :: "rat \<Rightarrow> int" where
  "ulp_exp q = max (ilog2 q - 52) (-1074)"

definition rne :: "rat \<Rightarrow> int" where
  "rne q =
     (let f = \<lfloor>q\<rfloor>; r = q - of_int f
      in if r < 1 / 2 then f else if r > 1 / 2 then f + 1 else if even f then f else f + 1)"

definition enc_mag :: "int \<Rightarrow> int \<Rightarrow> int" where
  "enc_mag e m = (e + 1074) * 2 ^ 52 + m"

definition round_mag :: "rat \<Rightarrow> nat" where
  "round_mag q =
     (if q \<le> 0 then 0
      else nat (min (int inf_mag) (enc_mag (ulp_exp q) (rne (q / 2 powi ulp_exp q)))))"

text \<open>\<open>rnd s q\<close> rounds \<open>q\<close>; the sign \<open>s\<close> is that of an exact zero.\<close>

definition rnd :: "bool \<Rightarrow> rat \<Rightarrow> double" where
  "rnd s q = (if q = 0 then mk_double s 0 else mk_double (q < 0) (round_mag \<bar>q\<bar>))"

definition rkey :: "rat \<Rightarrow> int" where
  "rkey q = (if q < 0 then - int (round_mag (- q)) else int (round_mag q))"

subsection \<open>Arithmetic and comparison\<close>

instantiation double :: "{zero, one, plus, minus, uminus, times, inverse, ord}"
begin

definition zero_double :: double where
  "zero_double = mk_double False 0"

definition one_double :: double where
  "one_double = mk_double False (1023 * 2 ^ 52)"

definition uminus_double :: "double \<Rightarrow> double" where
  "uminus_double a = mk_double (\<not> dsign a) (dmag a)"

definition plus_double :: "double \<Rightarrow> double \<Rightarrow> double" where
  "plus_double a b =
     (if is_nan a \<or> is_nan b then quiet_nan
      else if is_inf a then (if is_inf b \<and> dsign a \<noteq> dsign b then quiet_nan else a)
      else if is_inf b then b
      else rnd (dsign a \<and> dsign b) (dval a + dval b))"

definition minus_double :: "double \<Rightarrow> double \<Rightarrow> double" where
  "minus_double a b = a + (- b)"

definition times_double :: "double \<Rightarrow> double \<Rightarrow> double" where
  "times_double a b =
     (let s = (dsign a \<noteq> dsign b)
      in if is_nan a \<or> is_nan b then quiet_nan
         else if is_inf a \<or> is_inf b
         then (if dmag a = 0 \<or> dmag b = 0 then quiet_nan else mk_double s inf_mag)
         else rnd s (dval a * dval b))"

definition divide_double :: "double \<Rightarrow> double \<Rightarrow> double" where
  "divide_double a b =
     (let s = (dsign a \<noteq> dsign b)
      in if is_nan a \<or> is_nan b then quiet_nan
         else if is_inf a then (if is_inf b then quiet_nan else mk_double s inf_mag)
         else if is_inf b then mk_double s 0
         else if dmag b = 0 then (if dmag a = 0 then quiet_nan else mk_double s inf_mag)
         else rnd s (dval a / dval b))"

definition inverse_double :: "double \<Rightarrow> double" where
  "inverse_double a = divide_class.divide 1 a"

definition less_double :: "double \<Rightarrow> double \<Rightarrow> bool" where
  "less_double a b \<longleftrightarrow> \<not> is_nan a \<and> \<not> is_nan b \<and> dkey a < dkey b"

definition less_eq_double :: "double \<Rightarrow> double \<Rightarrow> bool" where
  "less_eq_double a b \<longleftrightarrow> \<not> is_nan a \<and> \<not> is_nan b \<and> dkey a \<le> dkey b"

instance ..

end

text \<open>\<open>==\<close> on doubles: the two zeros are equal and a NaN is not equal to itself.\<close>

definition deq :: "double \<Rightarrow> double \<Rightarrow> bool" where
  "deq a b \<longleftrightarrow> \<not> is_nan a \<and> \<not> is_nan b \<and> dkey a = dkey b"

text \<open>Conversions: from an unsigned and a signed integer, and a decimal literal of the source.\<close>

definition double_of_nat :: "nat \<Rightarrow> double" where
  "double_of_nat n = rnd False (of_nat n)"

definition double_of_int :: "int \<Rightarrow> double" where
  "double_of_int i = rnd False (of_int i)"

definition dlit :: "rat \<Rightarrow> double" where
  "dlit q = rnd False q"

text \<open>\<open>std::max\<close>, \<open>std::clamp\<close> and \<open>std::abs\<close> on doubles, as the library defines them.\<close>

definition dmax :: "double \<Rightarrow> double \<Rightarrow> double" where
  "dmax a b = (if a < b then b else a)"

definition dclamp :: "double \<Rightarrow> double \<Rightarrow> double \<Rightarrow> double" where
  "dclamp v lo hi = (if v < lo then lo else if hi < v then hi else v)"

definition dabs :: "double \<Rightarrow> double" where
  "dabs a = mk_double False (dmag a)"

subsection \<open>Format lemmas\<close>

lemma dmag_less [simp]: "dmag d < 2 ^ 63"
  by (simp add: dmag_def)

lemma dmag_mod [simp]: "dmag d mod 9223372036854775808 = dmag d"
  by (simp add: dmag_def)

lemma unat_bits_lt: "unat (dbits d) < 2 ^ 64"
  using unsigned_less [of "dbits d", where ?'a = nat] by simp

lemma unat_mk_double:
  "unat (dbits (mk_double s m)) = (if s then 2 ^ 63 else 0) + m mod 2 ^ 63"
proof -
  have "(if s then 2 ^ 63 else 0) + m mod 2 ^ 63 < (2 ^ 64 :: nat)"
    using mod_less_divisor [of "2 ^ 63" m] by auto
  then show ?thesis
    unfolding mk_double_def double.sel by (subst unat_of_nat) simp
qed

lemma dsign_mk [simp]: "dsign (mk_double s m) = s"
  using mod_less_divisor [of "2 ^ 63" m] by (auto simp: dsign_def unat_mk_double)

lemma dmag_mk [simp]: "dmag (mk_double s m) = m mod 2 ^ 63"
  by (simp add: dmag_def unat_mk_double mod_add_eq)

lemma double_eqI: "dsign a = dsign b \<Longrightarrow> dmag a = dmag b \<Longrightarrow> a = b"
proof -
  assume s: "dsign a = dsign b" and m: "dmag a = dmag b"
  have u: "unat (dbits d) = (if dsign d then 2 ^ 63 else 0) + dmag d" for d
    using unat_bits_lt [of d] by (auto simp: dsign_def dmag_def le_mod_geq)
  from s m u [of a] u [of b] have "unat (dbits a) = unat (dbits b)" by simp
  then have "dbits a = dbits b" by (simp add: word_unat_eq_iff)
  then show "a = b" by (simp add: double.expand)
qed

lemma mk_double_id [simp]: "mk_double (dsign d) (dmag d) = d"
  by (rule double_eqI) simp_all

lemma inf_mag_lt: "inf_mag < 2 ^ 63"
  by (simp add: inf_mag_def)

subsection \<open>The logarithm and rounding to an integer\<close>

lemma ilog2_bounds:
  assumes "0 < q"
  shows "2 powi ilog2 q \<le> q" and "q < 2 powi (ilog2 q + 1)"
proof -
  obtain n d where nd: "quotient_of q = (n, d)" by (cases "quotient_of q")
  then have d: "0 < d" and q: "q = of_int n / of_int d"
    by (auto simp: quotient_of_denom_pos quotient_of_div)
  with assms have n: "0 < n" by (simp add: zero_less_divide_iff)
  let ?e = "bitlen n - bitlen d"
  have bn: "2 ^ nat (bitlen n - 1) \<le> n" "n < 2 ^ nat (bitlen n)" "0 < bitlen n"
    using bitlen_bounds [of n] n bitlen_nonneg [of n] bitlen_eq_zero_iff [of n] by auto
  have bd: "2 ^ nat (bitlen d - 1) \<le> d" "d < 2 ^ nat (bitlen d)" "0 < bitlen d"
    using bitlen_bounds [of d] d bitlen_nonneg [of d] bitlen_eq_zero_iff [of d] by auto
  have pw: "rat_of_int (2 ^ nat k) = 2 powi k" if "0 \<le> k" for k
    using that by (simp add: power_int_def)
  have n1: "2 powi (bitlen n - 1) \<le> rat_of_int n" and n2: "rat_of_int n < 2 powi bitlen n"
    using bn pw [of "bitlen n - 1"] pw [of "bitlen n"]
    by (metis int_one_le_iff_zero_less of_int_le_iff diff_ge_0_iff_ge,
        metis of_int_less_iff order_less_imp_le)
  have d1: "2 powi (bitlen d - 1) \<le> rat_of_int d" and d2: "rat_of_int d < 2 powi bitlen d"
    using bd pw [of "bitlen d - 1"] pw [of "bitlen d"]
    by (metis int_one_le_iff_zero_less of_int_le_iff diff_ge_0_iff_ge,
        metis of_int_less_iff order_less_imp_le)
  have lo: "2 powi (?e - 1) < q"
  proof -
    have "2 powi (?e - 1) * rat_of_int d < 2 powi (?e - 1) * 2 powi bitlen d"
      using d2 by simp
    also have "\<dots> = 2 powi (bitlen n - 1)" by (simp flip: power_int_add)
    finally show ?thesis using n1 d by (simp add: q pos_less_divide_eq)
  qed
  have hi: "q < 2 powi (?e + 1)"
  proof -
    have "2 powi bitlen n = (2 powi (?e + 1) * 2 powi (bitlen d - 1) :: rat)"
      by (simp flip: power_int_add)
    also have "\<dots> \<le> 2 powi (?e + 1) * rat_of_int d" using d1 by simp
    finally show ?thesis using n2 d by (simp add: q pos_divide_less_eq)
  qed
  show "2 powi ilog2 q \<le> q" using lo by (auto simp: ilog2_def nd Let_def)
  show "q < 2 powi (ilog2 q + 1)" using hi by (auto simp: ilog2_def nd Let_def)
qed

lemma powi2_less_iff [simp]: "(2 :: rat) powi a < 2 powi b \<longleftrightarrow> a < b"
  by (metis linorder_neqE not_less_iff_gr_or_eq one_less_numeral_iff power_int_strict_increasing
      semiring_norm(76))

lemma powi2_le_iff [simp]: "(2 :: rat) powi a \<le> 2 powi b \<longleftrightarrow> a \<le> b"
  by (metis linorder_not_le powi2_less_iff)

lemma ilog2_unique:
  assumes "2 powi k \<le> q" and "q < 2 powi (k + 1)"
  shows "ilog2 q = k"
proof -
  have "0 < q" using assms(1) by (rule less_le_trans [rotated]) simp
  note b = ilog2_bounds [OF this]
  have "2 powi k < (2 :: rat) powi (ilog2 q + 1)" using assms(1) b(2) by (rule le_less_trans)
  moreover have "2 powi ilog2 q < (2 :: rat) powi (k + 1)"
    using b(1) assms(2) by (rule le_less_trans)
  ultimately show ?thesis by simp
qed

lemma ilog2_mono:
  assumes "0 < q" and "q \<le> r"
  shows "ilog2 q \<le> ilog2 r"
proof -
  have "2 powi ilog2 q \<le> q" using ilog2_bounds(1) [OF assms(1)] .
  also have "q \<le> r" by fact
  also have "r < 2 powi (ilog2 r + 1)" using assms by (intro ilog2_bounds(2)) simp
  finally show ?thesis by simp
qed

lemma rne_of_int [simp]: "rne (of_int k) = k"
  by (simp add: rne_def)

lemma rne_near: "rne q = \<lfloor>q\<rfloor> \<or> rne q = \<lfloor>q\<rfloor> + 1"
  by (simp add: rne_def Let_def)

lemma rne_mono:
  assumes "q \<le> r"
  shows "rne q \<le> rne r"
proof (cases "\<lfloor>q\<rfloor> = \<lfloor>r\<rfloor>")
  case True
  with assms show ?thesis by (auto simp: rne_def Let_def)
next
  case False
  with floor_mono [OF assms] have "\<lfloor>q\<rfloor> + 1 \<le> \<lfloor>r\<rfloor>" by simp
  with rne_near [of q] rne_near [of r] show ?thesis by linarith
qed

lemma rne_ge: "of_int k \<le> q \<Longrightarrow> k \<le> rne q"
  using rne_mono [of "of_int k" q] by simp

lemma rne_le: "q \<le> of_int k \<Longrightarrow> rne q \<le> k"
  using rne_mono [of q "of_int k"] by simp

subsection \<open>Rounding is monotone and exact on representable values\<close>

lemma ulp_scaled_less:
  assumes "0 < q"
  shows "q / 2 powi ulp_exp q < 2 ^ 53"
proof -
  have "q < 2 powi (ilog2 q + 1)" by (rule ilog2_bounds(2) [OF assms])
  also have "\<dots> \<le> 2 powi (ulp_exp q + 53)" by (simp add: ulp_exp_def)
  also have "\<dots> = 2 powi ulp_exp q * 2 ^ 53" by (simp add: power_int_add)
  finally show ?thesis by (simp add: pos_divide_less_eq mult.commute)
qed

lemma ulp_scaled_ge:
  assumes "0 < q" and "- 1074 < ulp_exp q"
  shows "2 ^ 52 \<le> q / 2 powi ulp_exp q"
proof -
  have "ilog2 q = ulp_exp q + 52" using assms(2) by (simp add: ulp_exp_def max_def split: if_splits)
  with ilog2_bounds(1) [OF assms(1)] have "2 powi (ulp_exp q + 52) \<le> q" by simp
  then have "2 powi ulp_exp q * 2 ^ 52 \<le> q" by (simp add: power_int_add)
  then show ?thesis by (simp add: pos_le_divide_eq mult.commute)
qed

lemma rne_ulp_le: "0 < q \<Longrightarrow> rne (q / 2 powi ulp_exp q) \<le> 2 ^ 53"
  using ulp_scaled_less [of q] by (intro rne_le) simp

lemma rne_ulp_ge: "0 < q \<Longrightarrow> - 1074 < ulp_exp q \<Longrightarrow> 2 ^ 52 \<le> rne (q / 2 powi ulp_exp q)"
  using ulp_scaled_ge [of q] by (intro rne_ge) simp

lemma ulp_exp_ge: "- 1074 \<le> ulp_exp q"
  by (simp add: ulp_exp_def)

lemma rne_ulp_nonneg: "0 < q \<Longrightarrow> 0 \<le> rne (q / 2 powi ulp_exp q)"
  by (rule rne_ge) simp

lemma enc_mag_mono:
  assumes "0 < q" and "q \<le> r"
  shows "enc_mag (ulp_exp q) (rne (q / 2 powi ulp_exp q))
       \<le> enc_mag (ulp_exp r) (rne (r / 2 powi ulp_exp r))"
proof -
  have r: "0 < r" using assms by simp
  have le: "ulp_exp q \<le> ulp_exp r" using ilog2_mono [OF assms] by (simp add: ulp_exp_def)
  show ?thesis
  proof (cases "ulp_exp q = ulp_exp r")
    case True
    have "rne (q / 2 powi ulp_exp r) \<le> rne (r / 2 powi ulp_exp r)"
      using assms(2) by (intro rne_mono divide_right_mono) simp_all
    with True show ?thesis by (simp add: enc_mag_def)
  next
    case False
    with le have less: "ulp_exp q + 1 \<le> ulp_exp r" by simp
    have a: "rne (q / 2 powi ulp_exp q) \<le> 2 ^ 53" by (rule rne_ulp_le [OF assms(1)])
    have b: "2 ^ 52 \<le> rne (r / 2 powi ulp_exp r)"
      using less ulp_exp_ge [of q] by (intro rne_ulp_ge [OF r]) simp
    have "(ulp_exp q + 1 + 1074) * 2 ^ 52 \<le> (ulp_exp r + 1074) * 2 ^ 52"
      using less by (intro mult_right_mono) simp_all
    with a b show ?thesis by (simp add: enc_mag_def algebra_simps)
  qed
qed

lemma enc_mag_nonneg: "0 < q \<Longrightarrow> 0 \<le> enc_mag (ulp_exp q) (rne (q / 2 powi ulp_exp q))"
  using ulp_exp_ge [of q] rne_ulp_nonneg [of q] by (simp add: enc_mag_def)

lemma round_mag_le_inf: "round_mag q \<le> inf_mag"
  by (auto simp: round_mag_def nat_le_iff)

lemma round_mag_lt [simp]: "round_mag q < 9223372036854775808"
  using round_mag_le_inf [of q] inf_mag_lt by simp

lemma round_mag_mono: "q \<le> r \<Longrightarrow> round_mag q \<le> round_mag r"
  using enc_mag_mono [of q r] by (auto simp: round_mag_def intro!: nat_mono)

lemma round_mag_0 [simp]: "round_mag 0 = 0"
  by (simp add: round_mag_def)

lemma rkey_mono: "q \<le> r \<Longrightarrow> rkey q \<le> rkey r"
  using round_mag_mono [of q r] round_mag_mono [of "- r" "- q"] by (auto simp: rkey_def)

lemma rkey_nonneg: "0 \<le> q \<Longrightarrow> 0 \<le> rkey q"
  by (simp add: rkey_def)

lemma rkey_0 [simp]: "rkey 0 = 0"
  by (simp add: rkey_def)

lemma dkey_rnd: "dkey (rnd s q) = rkey q"
  by (auto simp: dkey_def rnd_def rkey_def)

lemma not_nan_rnd [simp]: "\<not> is_nan (rnd s q)"
  using round_mag_le_inf by (auto simp: is_nan_def rnd_def not_less)

lemma mag_val_enc:
  assumes "- 1074 \<le> e" and "0 \<le> m" and "m < 2 ^ 53" and "e = - 1074 \<or> 2 ^ 52 \<le> m"
  shows "mag_val (nat (enc_mag e m)) = of_int m * 2 powi e"
proof (cases "m < 2 ^ 52")
  case True
  with assms(4) have e: "e = - 1074" by auto
  with True assms(2) have "nat (enc_mag e m) div 2 ^ 52 = 0"
    by (simp add: enc_mag_def)
  then have "mag_val (nat (enc_mag e m)) = of_nat (nat (enc_mag e m)) * 2 powi (- 1074)"
    unfolding mag_val_def by (rule if_P)
  with e assms(2) show ?thesis by (simp add: enc_mag_def)
next
  case False
  define k where "k = nat (e + 1074)"
  define f where "f = nat (m - 2 ^ 52)"
  from False assms have f: "f < 2 ^ 52" by (simp add: f_def nat_less_iff)
  have k: "e = int k - 1074" using assms(1) by (simp add: k_def)
  have m: "m = int f + 2 ^ 52" using False by (simp add: f_def)
  have enc: "nat (enc_mag e m) = (k + 1) * 2 ^ 52 + f"
    by (simp add: enc_mag_def k m nat_add_distrib nat_mult_distrib)
  have d: "nat (enc_mag e m) div 2 ^ 52 = k + 1" and r: "nat (enc_mag e m) mod 2 ^ 52 = f"
    unfolding enc using f by (simp_all only: mod_mult_self3 mod_less div_mult_self3) simp
  show ?thesis
    unfolding mag_val_def d r by (simp add: k m)
qed

lemma pow2_powi: "(2 :: rat) ^ n * 2 powi e = 2 powi (int n + e)"
  by (simp add: power_int_add)

lemma mag_val_nonneg [simp]: "0 \<le> mag_val b"
  by (simp add: mag_val_def)

lemma mag_val_not_neg [simp]: "\<not> mag_val b < 0"
  by (simp add: not_less)

lemma mag_val_pos_iff [simp]: "0 < mag_val b \<longleftrightarrow> mag_val b \<noteq> 0"
  using mag_val_nonneg [of b] by linarith

lemma mag_val_0 [simp]: "mag_val 0 = 0"
  by (simp add: mag_val_def)

lemma mag_val_round:
  assumes "0 < q" and "q = of_int m * 2 powi ulp_exp q" and "round_mag q < inf_mag"
  shows "mag_val (round_mag q) = q"
proof -
  have sc: "q / 2 powi ulp_exp q = of_int m" by (subst assms(2)) simp
  have m: "0 \<le> m" "m < 2 ^ 53"
    using rne_ulp_nonneg [OF assms(1)] ulp_scaled_less [OF assms(1)] unfolding sc by simp_all
  have g: "ulp_exp q = - 1074 \<or> 2 ^ 52 \<le> m"
    using ulp_scaled_ge [OF assms(1)] ulp_exp_ge [of q] unfolding sc by fastforce
  have "round_mag q = nat (enc_mag (ulp_exp q) m)"
    using assms(1,3) by (auto simp: round_mag_def sc min_def split: if_splits)
  with mag_val_enc [OF ulp_exp_ge m g] assms(2) show ?thesis by simp
qed

lemma ulp_exp_sub:
  assumes "0 < q" and "q < 2 powi (- 1022)"
  shows "ulp_exp q = - 1074"
proof -
  have "2 powi ilog2 q < (2 :: rat) powi (- 1022)"
    using ilog2_bounds(1) [OF assms(1)] assms(2) by (rule le_less_trans)
  then have "ilog2 q < - 1022" by (simp only: powi2_less_iff)
  then show ?thesis unfolding ulp_exp_def by linarith
qed

lemma round_mag_sub:
  assumes "0 < b" and "b < 2 ^ 52"
  shows "round_mag (of_nat b * 2 powi (- 1074)) = b"
proof -
  define u :: rat where "u = 2 powi (- 1074)"
  have u: "0 < u" unfolding u_def by (rule zero_less_power_int) simp
  let ?q = "rat_of_nat b * u"
  have pos: "0 < ?q" using assms(1) u by simp
  have i: "int 52 + (- 1074) = - 1022" by simp
  have "rat_of_nat b < 2 ^ 52" using assms(2) by (metis of_nat_less_iff of_nat_numeral of_nat_power)
  then have "?q < 2 ^ 52 * u" using u by (rule mult_strict_right_mono)
  also have "\<dots> = 2 powi (- 1022)"
    using pow2_powi [of 52 "- 1074"] unfolding i u_def .
  finally have e: "ulp_exp ?q = - 1074" by (rule ulp_exp_sub [OF pos])
  have "?q / 2 powi ulp_exp ?q = of_int (int b)" unfolding e u_def [symmetric] using u by simp
  then have r: "rne (?q / 2 powi ulp_exp ?q) = int b" by (simp only: rne_of_int)
  have "round_mag ?q = nat (min (int inf_mag) (enc_mag (- 1074) (int b)))"
    unfolding round_mag_def r using pos e by (metis not_le)
  with assms(2) show ?thesis unfolding u_def by (simp only: enc_mag_def inf_mag_def) simp
qed

lemma round_mag_norm:
  assumes "1 \<le> k" and "k < 2047" and "f < 2 ^ 52"
  shows "round_mag (of_nat (f + 2 ^ 52) * 2 powi (int k - 1075)) = k * 2 ^ 52 + f"
proof -
  let ?q = "rat_of_nat (f + 2 ^ 52) * 2 powi (int k - 1075)"
  have pos: "0 < ?q" by (simp add: add_nonneg_pos)
  have lo: "2 ^ 52 \<le> rat_of_nat (f + 2 ^ 52)" by simp
  have hi: "rat_of_nat (f + 2 ^ 52) < 2 ^ 53"
  proof -
    have "f + 2 ^ 52 < 2 ^ 53" using assms(3) by simp
    then show ?thesis by (metis of_nat_less_iff of_nat_numeral of_nat_power)
  qed
  have "ilog2 ?q = int k - 1023"
  proof (rule ilog2_unique)
    have "2 powi (int k - 1023) = 2 ^ 52 * (2 :: rat) powi (int k - 1075)"
      using pow2_powi [of 52 "int k - 1075"] by (simp only:) simp
    also have "\<dots> \<le> ?q" using lo by (rule mult_right_mono) simp
    finally show "2 powi (int k - 1023) \<le> ?q" .
    have "?q < 2 ^ 53 * (2 :: rat) powi (int k - 1075)"
      using hi by (rule mult_strict_right_mono) simp
    also have "\<dots> = 2 powi (int k - 1023 + 1)"
      using pow2_powi [of 53 "int k - 1075"] by (simp only:) simp
    finally show "?q < 2 powi (int k - 1023 + 1)" .
  qed
  then have e: "ulp_exp ?q = int k - 1075" using assms(1) by (simp add: ulp_exp_def)
  have "rne (?q / 2 powi ulp_exp ?q) = int (f + 2 ^ 52)"
    unfolding e using rne_of_int [of "int (f + 2 ^ 52)"] by simp
  then have enc: "enc_mag (ulp_exp ?q) (rne (?q / 2 powi ulp_exp ?q)) = int (k * 2 ^ 52 + f)"
    unfolding e by (simp add: enc_mag_def algebra_simps)
  have "k * 2 ^ 52 + f < inf_mag"
  proof -
    have "k * 2 ^ 52 \<le> 2046 * (2 :: nat) ^ 52" using assms(2) by (intro mult_le_mono1) simp
    with assms(3) show ?thesis by (simp add: inf_mag_def)
  qed
  then have "nat (min (int inf_mag) (int (k * 2 ^ 52 + f))) = k * 2 ^ 52 + f" by simp
  with pos show ?thesis unfolding round_mag_def enc by (simp only: not_le if_not_P if_False)
qed

lemma round_mag_mag_val:
  assumes "b < inf_mag"
  shows "round_mag (mag_val b) = b"
proof (cases "b div 2 ^ 52 = 0")
  case True
  then have v: "mag_val b = of_nat b * 2 powi (- 1074)" unfolding mag_val_def by (rule if_P)
  from True have "b < 2 ^ 52" by (simp add: div_eq_0_iff)
  then show ?thesis using round_mag_sub [of b] by (cases "b = 0") (simp, simp add: v)
next
  case False
  then have v: "mag_val b = of_nat (b mod 2 ^ 52 + 2 ^ 52) * 2 powi (int (b div 2 ^ 52) - 1075)"
    unfolding mag_val_def by (rule if_not_P)
  have "b div 2 ^ 52 < 2047"
    using assms by (simp add: inf_mag_def less_mult_imp_div_less)
  then have "round_mag (mag_val b) = b div 2 ^ 52 * 2 ^ 52 + b mod 2 ^ 52"
    unfolding v using False by (intro round_mag_norm) simp_all
  then show ?thesis by simp
qed

lemma mag_val_mono:
  assumes "b \<le> c" and "c < inf_mag"
  shows "mag_val b \<le> mag_val c"
proof (rule ccontr)
  assume "\<not> mag_val b \<le> mag_val c"
  then have less: "mag_val c < mag_val b" by simp
  then have "round_mag (mag_val c) \<le> round_mag (mag_val b)" by (intro round_mag_mono) simp
  with assms have "b = c" by (simp add: round_mag_mag_val)
  with less show False by simp
qed

lemma mag_val_eq_0_iff: "b < inf_mag \<Longrightarrow> mag_val b = 0 \<longleftrightarrow> b = 0"
  using round_mag_mag_val [of b] by auto

lemma rkey_dval:
  assumes "is_finite a"
  shows "rkey (dval a) = dkey a"
  using assms mag_val_eq_0_iff [of "dmag a"]
  unfolding rkey_def dval_def dkey_def is_finite_def
  by (cases "dmag a = 0") (auto simp: round_mag_mag_val)

lemma dval_mono:
  assumes "is_finite a" and "is_finite b" and "dkey a \<le> dkey b"
  shows "dval a \<le> dval b"
proof (rule ccontr)
  assume n: "\<not> dval a \<le> dval b"
  then have "rkey (dval b) \<le> rkey (dval a)" by (intro rkey_mono) simp
  with assms have k: "dkey a = dkey b" by (simp add: rkey_dval)
  from k have "dval a = dval b"
    by (cases "dmag a = 0"; cases "dmag b = 0") (auto simp: dkey_def dval_def split: if_splits)
  with n show False by simp
qed

lemma dkey_le_iff:
  assumes "is_finite a" and "is_finite b"
  shows "dkey a \<le> dkey b \<longleftrightarrow> dval a \<le> dval b"
  using assms dval_mono rkey_mono [of "dval a" "dval b"] by (auto simp: rkey_dval)

subsection \<open>Arithmetic within representable bounds\<close>

text \<open>
  A rounded result lies between any two finite doubles that the exact result lies between: the
  one fact the bounds on estimates and scores rest on.
\<close>

lemma finite_dkey: "is_finite d \<longleftrightarrow> - int inf_mag < dkey d \<and> dkey d < int inf_mag"
  by (auto simp: is_finite_def dkey_def inf_mag_def)

lemma finite_not_nan: "is_finite d \<Longrightarrow> \<not> is_nan d"
  by (simp add: is_finite_def is_nan_def)

lemma finite_not_inf: "is_finite d \<Longrightarrow> \<not> is_inf d"
  by (simp add: is_finite_def is_inf_def)

lemma rnd_between:
  assumes "is_finite x" and "is_finite y" and "dval x \<le> q" and "q \<le> dval y"
  shows "is_finite (rnd s q)" and "dval x \<le> dval (rnd s q)" and "dval (rnd s q) \<le> dval y"
proof -
  have k: "dkey x \<le> dkey (rnd s q)" "dkey (rnd s q) \<le> dkey y"
    using assms rkey_mono [OF assms(3)] rkey_mono [OF assms(4)] by (simp_all add: dkey_rnd rkey_dval)
  then show f: "is_finite (rnd s q)" using assms(1,2) by (auto simp: finite_dkey)
  from k f assms show "dval x \<le> dval (rnd s q)" "dval (rnd s q) \<le> dval y"
    by (auto intro: dval_mono)
qed

lemma rnd_dval: "is_finite d \<Longrightarrow> dval (rnd s (dval d)) = dval d"
  using rnd_between(2,3) [of d d "dval d" s] by simp

lemma plus_finite:
  "is_finite a \<Longrightarrow> is_finite b \<Longrightarrow> a + b = rnd (dsign a \<and> dsign b) (dval a + dval b)"
  by (simp add: plus_double_def finite_not_nan finite_not_inf)

lemma uminus_facts [simp]:
  "is_finite (- d) \<longleftrightarrow> is_finite d" "is_nan (- d) \<longleftrightarrow> is_nan d" "dval (- d) = - dval d"
  by (simp_all add: uminus_double_def is_finite_def is_nan_def dval_def)

lemma minus_finite:
  "is_finite a \<Longrightarrow> is_finite b \<Longrightarrow> a - b = rnd (dsign a \<and> dsign (- b)) (dval a - dval b)"
  by (simp add: minus_double_def plus_finite)

lemma times_finite:
  "is_finite a \<Longrightarrow> is_finite b \<Longrightarrow> a * b = rnd (dsign a \<noteq> dsign b) (dval a * dval b)"
  by (simp add: times_double_def finite_not_nan finite_not_inf)

lemma dval_eq_0_iff: "is_finite d \<Longrightarrow> dval d = 0 \<longleftrightarrow> dmag d = 0"
  by (simp add: dval_def is_finite_def mag_val_eq_0_iff)

lemma divide_finite:
  "is_finite a \<Longrightarrow> is_finite b \<Longrightarrow> dval b \<noteq> 0 \<Longrightarrow>
     a / b = rnd (dsign a \<noteq> dsign b) (dval a / dval b)"
  by (simp add: divide_double_def finite_not_nan finite_not_inf dval_eq_0_iff Let_def)

lemma less_double_finite: "is_finite a \<Longrightarrow> is_finite b \<Longrightarrow> a < b \<longleftrightarrow> dval a < dval b"
  by (metis dkey_le_iff finite_not_nan less_double_def not_le)

lemma less_eq_double_finite: "is_finite a \<Longrightarrow> is_finite b \<Longrightarrow> a \<le> b \<longleftrightarrow> dval a \<le> dval b"
  by (simp add: less_eq_double_def finite_not_nan dkey_le_iff)

lemma nan_compare [simp]:
  assumes "is_nan a"
  shows "\<not> a < b" "\<not> b < a" "\<not> a \<le> b" "\<not> b \<le> a" "\<not> deq a b" "\<not> deq b a"
  using assms by (simp_all add: less_double_def less_eq_double_def deq_def)

subsection \<open>Integers as doubles\<close>

lemma pow2_mag_val:
  assumes "1 \<le> k"
  shows "mag_val (k * 2 ^ 52) = 2 powi (int k - 1023)"
proof -
  have "mag_val (k * 2 ^ 52) = of_nat (0 + 2 ^ 52) * 2 powi (int k - 1075)"
    using assms unfolding mag_val_def by simp
  also have "\<dots> = 2 powi (int k - 1023)" using pow2_powi [of 52 "int k - 1075"] by simp
  finally show ?thesis .
qed

lemma round_mag_less_inf:
  assumes "q \<le> 2 ^ 64"
  shows "round_mag q < inf_mag"
proof -
  have "mag_val (1087 * 2 ^ 52) = 2 powi (int 1087 - 1023)" by (rule pow2_mag_val) simp
  also have "\<dots> = 2 ^ 64" by simp
  finally have v: "mag_val (1087 * 2 ^ 52) = 2 ^ 64" .
  have "round_mag q \<le> round_mag (mag_val (1087 * 2 ^ 52))"
    using assms unfolding v by (rule round_mag_mono)
  also have "\<dots> = 1087 * 2 ^ 52" by (rule round_mag_mag_val) (simp add: inf_mag_def)
  finally show ?thesis by (simp add: inf_mag_def)
qed

lemma rnd_int_exact:
  assumes "n < 2 ^ 53"
  shows "mag_val (round_mag (of_nat n)) = of_nat n"
proof (cases "n = 0")
  case False
  let ?q = "rat_of_nat n"
  have pos: "0 < ?q" using False by simp
  have lt: "?q < 2 ^ 53" using assms by (metis of_nat_less_iff of_nat_numeral of_nat_power)
  have "2 powi ilog2 ?q < (2 :: rat) powi 53"
    using ilog2_bounds(1) [OF pos] lt by simp
  then have "ilog2 ?q < 53" by (simp only: powi2_less_iff)
  then have u: "ulp_exp ?q \<le> 0" unfolding ulp_exp_def by simp
  define k where "k = nat (- ulp_exp ?q)"
  have k: "ulp_exp ?q = - int k" using u by (simp add: k_def)
  have "?q = of_int (int n * 2 ^ k) * 2 powi ulp_exp ?q"
    unfolding k by (simp add: power_int_minus)
  moreover have "round_mag ?q < inf_mag" using lt by (intro round_mag_less_inf) simp
  ultimately show ?thesis by (rule mag_val_round [OF pos])
qed simp

lemma double_of_nat_sign [simp]: "\<not> dsign (double_of_nat n)"
  by (simp add: double_of_nat_def rnd_def)

lemma dmag_double_of_nat: "dmag (double_of_nat n) = round_mag (of_nat n)"
  by (simp add: double_of_nat_def rnd_def)

lemma double_of_nat_finite:
  assumes "n < 2 ^ 64"
  shows "is_finite (double_of_nat n)"
proof -
  have "rat_of_nat n \<le> 2 ^ 64" using assms
    by (metis less_imp_le of_nat_less_iff of_nat_numeral of_nat_power)
  then show ?thesis by (simp add: is_finite_def dmag_double_of_nat round_mag_less_inf)
qed

lemma dval_double_of_nat: "n < 2 ^ 53 \<Longrightarrow> dval (double_of_nat n) = of_nat n"
  by (simp add: dval_def dmag_double_of_nat rnd_int_exact)

lemma double_of_nat_mono:
  "m \<le> n \<Longrightarrow> n < 2 ^ 64 \<Longrightarrow> dval (double_of_nat m) \<le> dval (double_of_nat n)"
  by (rule dval_mono) (simp_all add: double_of_nat_finite dkey_def dmag_double_of_nat round_mag_mono)

lemma double_of_nat_0: "double_of_nat 0 = 0"
  by (simp add: double_of_nat_def rnd_def zero_double_def)

lemma zero_double_facts [simp]: "is_finite 0" "dval 0 = 0" "\<not> dsign (0 :: double)"
  by (simp_all add: zero_double_def is_finite_def dval_def inf_mag_def)

lemma double_of_nat_1: "double_of_nat 1 = 1"
proof -
  have "round_mag (mag_val (1023 * 2 ^ 52)) = 1023 * 2 ^ 52"
    by (rule round_mag_mag_val) (simp add: inf_mag_def)
  moreover have "mag_val (1023 * 2 ^ 52) = 2 powi (int 1023 - 1023)" by (rule pow2_mag_val) simp
  ultimately have "round_mag 1 = 1023 * 2 ^ 52" by simp
  then show ?thesis by (simp add: double_of_nat_def rnd_def one_double_def)
qed

lemma one_double_facts [simp]: "is_finite 1" "dval 1 = 1" "\<not> dsign (1 :: double)"
  using double_of_nat_finite [of 1] dval_double_of_nat [of 1] double_of_nat_sign [of 1]
  unfolding double_of_nat_1 by simp_all

end
