(* ===== verification/Rank_Types.thy ===== *)
theory Rank_Types
  imports Ieee_Double
begin

section \<open>Items and user signals (include/lrd/rank/item.hpp, signal.hpp)\<close>

text \<open>
  The data the daemon ranks. A \<open>std::string\<close> is its bytes. A \<open>Timestamp\<close> is the signed 64-bit
  count of milliseconds since the epoch, kept as a word and read with \<^const>\<open>sint\<close>.
\<close>

type_synonym cstring = bytes
type_synonym ItemId = u64
type_synonym Timestamp = "64 word"

text \<open>A string literal of the sources.\<close>

definition lit :: "string \<Rightarrow> cstring" where
  "lit s = map of_char s"

text \<open>\<open>std::format("\{\}")\<close> of an unsigned number.\<close>

fun decimal :: "nat \<Rightarrow> cstring" where
  "decimal n = (if n < 10 then [48 + of_nat n] else decimal (n div 10) @ [48 + of_nat (n mod 10)])"

declare decimal.simps [simp del]

definition to_epoch_millis :: "Timestamp \<Rightarrow> 64 word" where
  "to_epoch_millis t = t"

definition from_epoch_millis :: "64 word \<Rightarrow> Timestamp" where
  "from_epoch_millis millis = millis"

record Item =
  item_id :: ItemId
  category :: cstring
  advertiser :: cstring
  base_score :: double
  created_at :: Timestamp
  expires_at :: Timestamp

definition never_expires :: "Item \<Rightarrow> bool" where
  "never_expires item \<longleftrightarrow> expires_at item = 0"

record RankedItem =
  ri_id :: ItemId
  ri_score :: double
  ri_category :: cstring
  ri_advertiser :: cstring

record CategoryAffinity =
  ca_category :: cstring
  ca_weight :: double

record UserSignal =
  affinities :: "CategoryAffinity list"
  excluded_categories :: "cstring list"

fun affinity_in :: "CategoryAffinity list \<Rightarrow> cstring \<Rightarrow> double \<Rightarrow> double" where
  "affinity_in [] cat fallback = fallback"
| "affinity_in (entry # rest) cat fallback =
     (if ca_category entry = cat then ca_weight entry else affinity_in rest cat fallback)"

definition affinity_for :: "UserSignal \<Rightarrow> cstring \<Rightarrow> double \<Rightarrow> double" where
  "affinity_for signal cat fallback = affinity_in (affinities signal) cat fallback"

definition excludes :: "UserSignal \<Rightarrow> cstring \<Rightarrow> bool" where
  "excludes signal cat \<longleftrightarrow> List.member (excluded_categories signal) cat"

end
