(* ===== verification/Message.thy ===== *)
theory Message
  imports Rank_Types
begin

section \<open>Protocol messages (include/lrd/proto/message.hpp, src/proto/message.cpp)\<close>

text \<open>
  The request and response unions with their type bytes and limits. \<open>StatusCode\<close> is an enum with
  underlying type \<open>uint8_t\<close> that the decoder casts from an arbitrary byte, so a status is any byte,
  with the four listed values named.
\<close>

definition kMagic :: u32 where "kMagic = 0x4C524431"
definition kVersion :: u8 where "kVersion = 3"
definition kHeaderSize :: nat where "kHeaderSize = 16"
definition kLengthPrefixSize :: nat where "kLengthPrefixSize = 4"
definition kMaxFrameSize :: u32 where "kMaxFrameSize = 1024 * 1024"
definition kMinFrameSize :: u32 where "kMinFrameSize = 1"
definition kMaxCategoryLength :: u32 where "kMaxCategoryLength = 64"
definition kMaxAdvertiserLength :: u32 where "kMaxAdvertiserLength = 64"
definition kMaxAffinities :: u32 where "kMaxAffinities = 64"
definition kMaxExcluded :: u32 where "kMaxExcluded = 64"
definition kMaxRecommendCount :: u32 where "kMaxRecommendCount = 100"
definition kMaxMessageLength :: u32 where "kMaxMessageLength = 1024"
definition kResponseBit :: u8 where "kResponseBit = 0x80"

lemmas limit_defs = kMagic_def kVersion_def kHeaderSize_def kLengthPrefixSize_def kMaxFrameSize_def
  kMinFrameSize_def kMaxCategoryLength_def kMaxAdvertiserLength_def kMaxAffinities_def
  kMaxExcluded_def kMaxRecommendCount_def kMaxMessageLength_def kResponseBit_def

datatype MessageType =
    GetItemRequest | PutItemRequest | DeleteItemRequest | StatsRequest | RecommendRequest
  | GetItemResponse | PutItemResponse | DeleteItemResponse | StatsResponse | RecommendResponse
  | ErrorResponse

fun type_byte :: "MessageType \<Rightarrow> u8" where
  "type_byte GetItemRequest = 0x01"
| "type_byte PutItemRequest = 0x02"
| "type_byte DeleteItemRequest = 0x03"
| "type_byte StatsRequest = 0x04"
| "type_byte RecommendRequest = 0x05"
| "type_byte GetItemResponse = 0x81"
| "type_byte PutItemResponse = 0x82"
| "type_byte DeleteItemResponse = 0x83"
| "type_byte StatsResponse = 0x84"
| "type_byte RecommendResponse = 0x85"
| "type_byte ErrorResponse = 0xFF"

definition all_types :: "MessageType list" where
  "all_types = [GetItemRequest, PutItemRequest, DeleteItemRequest, StatsRequest, RecommendRequest,
     GetItemResponse, PutItemResponse, DeleteItemResponse, StatsResponse, RecommendResponse,
     ErrorResponse]"

text \<open>\<open>static_cast<MessageType>\<close> of a byte that one of the enumerators has.\<close>

definition type_of_byte :: "u8 \<Rightarrow> MessageType option" where
  "type_of_byte raw = List.find (\<lambda>t. type_byte t = raw) all_types"

definition is_known_type :: "u8 \<Rightarrow> bool" where
  "is_known_type raw \<longleftrightarrow> type_of_byte raw \<noteq> None"

definition is_response :: "MessageType \<Rightarrow> bool" where
  "is_response t \<longleftrightarrow> type_byte t AND kResponseBit \<noteq> 0"

datatype StatusCode = StatusCode (status_raw: u8)

definition Ok :: StatusCode where "Ok = StatusCode 0"
definition NotFound :: StatusCode where "NotFound = StatusCode 1"
definition InvalidRequest :: StatusCode where "InvalidRequest = StatusCode 2"
definition Internal :: StatusCode where "Internal = StatusCode 3"

lemmas status_defs = Ok_def NotFound_def InvalidRequest_def Internal_def

datatype DecodeError =
    NoError | Truncated | BadMagic | UnsupportedVersion | ReservedFlags | UnknownType
  | WrongDirection | TrailingBytes | FieldTooLarge

fun decode_error_to_string :: "DecodeError \<Rightarrow> cstring" where
  "decode_error_to_string NoError = lit ''None''"
| "decode_error_to_string Truncated = lit ''Truncated''"
| "decode_error_to_string BadMagic = lit ''BadMagic''"
| "decode_error_to_string UnsupportedVersion = lit ''UnsupportedVersion''"
| "decode_error_to_string ReservedFlags = lit ''ReservedFlags''"
| "decode_error_to_string UnknownType = lit ''UnknownType''"
| "decode_error_to_string WrongDirection = lit ''WrongDirection''"
| "decode_error_to_string TrailingBytes = lit ''TrailingBytes''"
| "decode_error_to_string FieldTooLarge = lit ''FieldTooLarge''"

definition status_to_string :: "StatusCode \<Rightarrow> cstring" where
  "status_to_string s =
     (if s = Ok then lit ''Ok'' else if s = NotFound then lit ''NotFound''
      else if s = InvalidRequest then lit ''InvalidRequest''
      else if s = Internal then lit ''Internal'' else lit ''Unknown'')"

record Header =
  h_version :: u8
  h_type :: MessageType
  h_flags :: u16
  h_request_id :: u64

definition default_header :: Header where
  "default_header = \<lparr>h_version = kVersion, h_type = GetItemRequest, h_flags = 0, h_request_id = 0\<rparr>"

record Stats =
  st_requests :: u64
  st_gets :: u64
  st_puts :: u64
  st_deletes :: u64
  st_recommends :: u64
  st_hits :: u64
  st_misses :: u64
  st_evictions :: u64
  st_entries :: u64
  st_capacity :: u64
  st_policy_allowed :: u64
  st_policy_exposure_blocked :: u64
  st_policy_frequency_blocked :: u64
  st_policy_store_full :: u64
  st_policy_tracked :: u64

record Recommend =
  rec_signal :: UserSignal
  rec_count :: u32
  rec_dry_run :: bool

datatype RequestBody =
  GetItem ItemId | PutItem Item | DeleteItem ItemId | GetStats | RecommendBody Recommend

record Request =
  request_id :: u64
  req_body :: RequestBody

definition default_request :: Request where
  "default_request = \<lparr>request_id = 0, req_body = GetItem 0\<rparr>"

definition default_item :: Item where
  "default_item = \<lparr>item_id = 0, category = [], advertiser = [], base_score = 0,
                   created_at = 0, expires_at = 0\<rparr>"

datatype ResponseBody =
    GetItemResult StatusCode Item
  | PutItemResult StatusCode
  | DeleteItemResult StatusCode
  | StatsResult StatusCode Stats
  | RecommendResult StatusCode "RankedItem list"
  | Failure StatusCode cstring

record Response =
  response_id :: u64
  resp_body :: ResponseBody

definition default_response :: Response where
  "default_response = \<lparr>response_id = 0, resp_body = GetItemResult Ok default_item\<rparr>"

fun type_of_request :: "RequestBody \<Rightarrow> MessageType" where
  "type_of_request (GetItem i) = GetItemRequest"
| "type_of_request (PutItem it) = PutItemRequest"
| "type_of_request (DeleteItem i) = DeleteItemRequest"
| "type_of_request GetStats = StatsRequest"
| "type_of_request (RecommendBody r) = RecommendRequest"

fun type_of_response :: "ResponseBody \<Rightarrow> MessageType" where
  "type_of_response (GetItemResult s it) = GetItemResponse"
| "type_of_response (PutItemResult s) = PutItemResponse"
| "type_of_response (DeleteItemResult s) = DeleteItemResponse"
| "type_of_response (StatsResult s st) = StatsResponse"
| "type_of_response (RecommendResult s rs) = RecommendResponse"
| "type_of_response (Failure s m) = ErrorResponse"

fun status_of :: "ResponseBody \<Rightarrow> StatusCode" where
  "status_of (GetItemResult s it) = s"
| "status_of (PutItemResult s) = s"
| "status_of (DeleteItemResult s) = s"
| "status_of (StatsResult s st) = s"
| "status_of (RecommendResult s rs) = s"
| "status_of (Failure s m) = s"

definition make_error :: "u64 \<Rightarrow> StatusCode \<Rightarrow> cstring \<Rightarrow> Response" where
  "make_error rid s msg = \<lparr>response_id = rid, resp_body = Failure s msg\<rparr>"

lemma type_of_byte_byte [simp]: "type_of_byte (type_byte t) = Some t"
  by (cases t) (simp_all add: type_of_byte_def all_types_def)

lemma known_type_byte [simp]: "is_known_type (type_byte t)"
  by (simp add: is_known_type_def)

lemma type_of_byte_Some: "type_of_byte b = Some t \<Longrightarrow> b = type_byte t"
  by (auto simp: type_of_byte_def find_Some_iff)

lemma request_direction [simp]: "\<not> is_response (type_of_request b)"
  by (cases b) (simp_all add: is_response_def kResponseBit_def)

lemma response_direction [simp]: "is_response (type_of_response b)"
  by (cases b) (simp_all add: is_response_def kResponseBit_def)

end
