(* ===== verification/Wire.thy ===== *)
theory Wire
  imports Prelude "HOL-Library.State_Monad"
begin

section \<open>Byte reader and writer (include/lrd/proto/wire.hpp, src/proto/wire.cpp)\<close>

text \<open>
  \<open>ByteWriter\<close> appends big-endian integers and length-prefixed strings to a buffer. \<open>ByteReader\<close>
  reads them back with a sticky failure flag; its operations are programs of the state monad over
  the reader, so that the decoders read like the source.

  A reader program is \<open>local_reader\<close> when it stays within the buffer, never clears the failure
  flag and, when it does not fail, reads the same from a longer buffer. The rules of the
  collection \<open>reader_intros\<close> build this up from the operations, and the rules of \<open>wire_simps\<close> read
  back what the writer wrote.
\<close>

named_theorems reader_intros \<open>locality of reader programs\<close>

subsection \<open>ByteWriter\<close>

definition append_be :: "nat \<Rightarrow> 'a::len word \<Rightarrow> bytes \<Rightarrow> bytes" where
  "append_be width v out = out @ map (\<lambda>i. ucast (drop_bit ((width - 1 - i) * 8) v AND 0xFF)) [0..<width]"

definition wr_u8 :: "u8 \<Rightarrow> bytes \<Rightarrow> bytes" where
  "wr_u8 v out = out @ [v]"

definition wr_u16 :: "u16 \<Rightarrow> bytes \<Rightarrow> bytes" where
  "wr_u16 v out = append_be 2 v out"

definition wr_u32 :: "u32 \<Rightarrow> bytes \<Rightarrow> bytes" where
  "wr_u32 v out = append_be 4 v out"

definition wr_u64 :: "u64 \<Rightarrow> bytes \<Rightarrow> bytes" where
  "wr_u64 v out = append_be 8 v out"

definition wr_bytes :: "bytes \<Rightarrow> bytes \<Rightarrow> bytes" where
  "wr_bytes v out = out @ v"

definition wr_string :: "bytes \<Rightarrow> bytes \<Rightarrow> bytes" where
  "wr_string v out = wr_u32 (word_of_nat (length v)) out @ v"

subsection \<open>ByteReader\<close>

record ByteReader =
  rd_data :: bytes
  rd_pos :: nat
  rd_failed :: bool

definition reader_make :: "bytes \<Rightarrow> ByteReader" where
  "reader_make d = \<lparr>rd_data = d, rd_pos = 0, rd_failed = False\<rparr>"

definition remaining :: "ByteReader \<Rightarrow> nat" where
  "remaining r = length (rd_data r) - rd_pos r"

definition exhausted :: "ByteReader \<Rightarrow> bool" where
  "exhausted r \<longleftrightarrow> remaining r = 0"

definition load_be :: "nat \<Rightarrow> bytes \<Rightarrow> nat \<Rightarrow> 'a::len word" where
  "load_be width d pos = foldl (\<lambda>v i. push_bit 8 v OR ucast (d ! (pos + i))) 0 [0..<width]"

definition need :: "nat \<Rightarrow> (ByteReader, bool) state" where
  "need n = State (\<lambda>r.
     if rd_failed r then (False, r)
     else if remaining r < n then (False, r\<lparr>rd_failed := True\<rparr>)
     else (True, r))"

text \<open>Reads a value at the current position and advances by \<open>n\<close> bytes.\<close>

definition take_at :: "nat \<Rightarrow> (bytes \<Rightarrow> nat \<Rightarrow> 'a) \<Rightarrow> (ByteReader, 'a) state" where
  "take_at n f = State (\<lambda>r. (f (rd_data r) (rd_pos r), r\<lparr>rd_pos := rd_pos r + n\<rparr>))"

definition failed :: "(ByteReader, bool) state" where
  "failed = State (\<lambda>r. (rd_failed r, r))"

definition rd_u8 :: "(ByteReader, u8) state" where
  "rd_u8 = do { ok \<leftarrow> need 1; if ok then take_at 1 (\<lambda>d p. d ! p) else State_Monad.return 0 }"

definition rd_u16 :: "(ByteReader, u16) state" where
  "rd_u16 = do { ok \<leftarrow> need 2; if ok then take_at 2 (load_be 2) else State_Monad.return 0 }"

definition rd_u32 :: "(ByteReader, u32) state" where
  "rd_u32 = do { ok \<leftarrow> need 4; if ok then take_at 4 (load_be 4) else State_Monad.return 0 }"

definition rd_u64 :: "(ByteReader, u64) state" where
  "rd_u64 = do { ok \<leftarrow> need 8; if ok then take_at 8 (load_be 8) else State_Monad.return 0 }"

definition rd_bytes :: "nat \<Rightarrow> (ByteReader, bytes) state" where
  "rd_bytes n = do {
     ok \<leftarrow> need n;
     if ok then take_at n (\<lambda>d p. take n (drop p d)) else State_Monad.return [] }"

definition rd_string :: "(ByteReader, bytes) state" where
  "rd_string = do {
     len \<leftarrow> rd_u32;
     bad \<leftarrow> failed;
     if bad then State_Monad.return []
     else do {
       ok \<leftarrow> need (unat len);
       if ok then take_at (unat len) (\<lambda>d p. take (unat len) (drop p d)) else State_Monad.return [] } }"

subsection \<open>Locality\<close>

definition rd_ok :: "ByteReader \<Rightarrow> bool" where
  "rd_ok r \<longleftrightarrow> rd_pos r \<le> length (rd_data r)"

definition local_reader :: "(ByteReader, 'a) state \<Rightarrow> bool" where
  "local_reader m \<longleftrightarrow> (\<forall>r x r'. rd_ok r \<longrightarrow> run_state m r = (x, r') \<longrightarrow>
     rd_data r' = rd_data r \<and> rd_pos r \<le> rd_pos r' \<and> rd_ok r' \<and> (rd_failed r \<longrightarrow> rd_failed r') \<and>
     (\<not> rd_failed r' \<longrightarrow>
        (\<forall>t. run_state m (r\<lparr>rd_data := rd_data r @ t\<rparr>) = (x, r'\<lparr>rd_data := rd_data r @ t\<rparr>))))"

text \<open>The reader after \<open>pre\<close>, with \<open>bs\<close> still to read.\<close>

definition rd_at :: "bytes \<Rightarrow> bytes \<Rightarrow> ByteReader" where
  "rd_at pre bs = \<lparr>rd_data = pre @ bs, rd_pos = length pre, rd_failed = False\<rparr>"

text \<open>The bytes of an integer and of a length-prefixed string.\<close>

definition be :: "nat \<Rightarrow> 'a::len word \<Rightarrow> bytes" where
  "be width v = append_be width v []"

definition be_string :: "bytes \<Rightarrow> bytes" where
  "be_string s = be 4 (word_of_nat (length s) :: u32) @ s"

lemma local_readerD:
  assumes "local_reader m" and "rd_ok r" and "run_state m r = (x, r')"
  shows "rd_data r' = rd_data r" and "rd_pos r \<le> rd_pos r'" and "rd_ok r'"
    and "rd_failed r \<Longrightarrow> rd_failed r'"
    and "\<not> rd_failed r' \<Longrightarrow> run_state m (r\<lparr>rd_data := rd_data r @ t\<rparr>) = (x, r'\<lparr>rd_data := rd_data r @ t\<rparr>)"
  using assms unfolding local_reader_def by blast+

lemma local_return [reader_intros]: "local_reader (State_Monad.return x)"
  by (simp add: local_reader_def)

lemma local_bind [reader_intros]:
  assumes "local_reader m" and "\<And>x. local_reader (f x)"
  shows "local_reader (State_Monad.bind m f)"
  unfolding local_reader_def
proof (intro allI impI)
  fix r x r'
  assume r: "rd_ok r" and run: "run_state (State_Monad.bind m f) r = (x, r')"
  obtain y r1 where 1: "run_state m r = (y, r1)" by fastforce
  with run have 2: "run_state (f y) r1 = (x, r')" by simp
  note d1 = local_readerD [OF assms(1) r 1]
  note d2 = local_readerD [OF assms(2) d1(3) 2]
  have "run_state (State_Monad.bind m f) (r\<lparr>rd_data := rd_data r @ t\<rparr>)
      = (x, r'\<lparr>rd_data := rd_data r @ t\<rparr>)" if nf: "\<not> rd_failed r'" for t
  proof -
    have "\<not> rd_failed r1" using nf d2(4) by blast
    from d1(5) [OF this, of t] d2(5) [OF nf, of t] d1(1) show ?thesis by simp
  qed
  then show "rd_data r' = rd_data r \<and> rd_pos r \<le> rd_pos r' \<and> rd_ok r' \<and>
     (rd_failed r \<longrightarrow> rd_failed r') \<and>
     (\<not> rd_failed r' \<longrightarrow> (\<forall>t. run_state (State_Monad.bind m f) (r\<lparr>rd_data := rd_data r @ t\<rparr>)
        = (x, r'\<lparr>rd_data := rd_data r @ t\<rparr>)))"
    using d1(1-4) d2(1-4) by auto
qed

lemma local_failed [reader_intros]: "local_reader failed"
  by (auto simp: local_reader_def failed_def)

text \<open>A guarded read: the shape of every primitive.\<close>

lemma local_guarded:
  assumes "\<And>d p t. p + n \<le> length d \<Longrightarrow> f (d @ t) p = f d p"
  shows "local_reader (State_Monad.bind (need n) (\<lambda>ok. if ok then take_at n f else State_Monad.return z))"
  using assms by (auto simp: local_reader_def need_def take_at_def remaining_def rd_ok_def split: if_splits)

lemma load_be_append: "p + n \<le> length d \<Longrightarrow> load_be n (d @ t) p = load_be n d p"
  unfolding load_be_def by (rule foldl_cong) (auto simp: nth_append)

lemma local_rd_u8 [reader_intros]: "local_reader rd_u8"
  unfolding rd_u8_def by (rule local_guarded) (simp add: nth_append)

lemma local_rd_u16 [reader_intros]: "local_reader rd_u16"
  unfolding rd_u16_def by (rule local_guarded) (rule load_be_append)

lemma local_rd_u32 [reader_intros]: "local_reader rd_u32"
  unfolding rd_u32_def by (rule local_guarded) (rule load_be_append)

lemma local_rd_u64 [reader_intros]: "local_reader rd_u64"
  unfolding rd_u64_def by (rule local_guarded) (rule load_be_append)

lemma local_rd_bytes [reader_intros]: "local_reader (rd_bytes n)"
  unfolding rd_bytes_def by (rule local_guarded) simp

lemma local_if [reader_intros]: "local_reader m \<Longrightarrow> local_reader m' \<Longrightarrow> local_reader (if b then m else m')"
  by simp

lemma local_rd_string [reader_intros]: "local_reader rd_string"
  unfolding rd_string_def
  by (intro reader_intros local_guarded) simp

subsection \<open>Reading back what was written\<close>

lemma byte_step:
  fixes y :: "'a::len word"
  shows "push_bit 8 (drop_bit 8 y) OR ucast (ucast (y AND 0xFF) :: 8 word) = y"
proof (rule bit_word_eqI)
  fix i
  assume i: "i < LENGTH('a)"
  have "bit (0xFF :: 'a word) i \<longleftrightarrow> i < 8 \<and> i < LENGTH('a)"
  proof -
    have "(0xFF :: 'a word) = mask 8" by (simp add: mask_eq_exp_minus_1)
    then show ?thesis by (simp only: bit_mask_iff) auto
  qed
  with i show "bit (push_bit 8 (drop_bit 8 y) OR ucast (ucast (y AND 0xFF) :: 8 word)) i = bit y i"
    by (auto simp: bit_or_iff bit_and_iff bit_push_bit_iff bit_drop_bit_eq bit_ucast_iff)
qed

lemma be_fold:
  fixes x :: "'a::len word"
  shows "foldl (\<lambda>v b. push_bit 8 v OR ucast b) (drop_bit (8 * n) x)
     (map (\<lambda>i. ucast (drop_bit ((n - 1 - i) * 8) x AND 0xFF) :: 8 word) [0..<n]) = x"
proof (induction n)
  case (Suc n)
  have "push_bit 8 (drop_bit (8 * Suc n) x) OR ucast (ucast (drop_bit (n * 8) x AND 0xFF) :: 8 word)
      = drop_bit (8 * n) x"
    using byte_step [of "drop_bit (8 * n) x"] by (simp add: mult.commute)
  then show ?case
    using Suc by (simp add: upt_conv_Cons map_Suc_upt [symmetric] comp_def del: upt_Suc)
qed simp

lemma be_length [simp]: "length (be n v) = n"
  by (simp add: be_def append_be_def)

lemma foldl_nth: "foldl (\<lambda>v i. f v (xs ! i)) z [0..<length xs] = foldl f z xs"
proof -
  have "foldl f z (map ((!) xs) [0..<length xs]) = foldl (\<lambda>v i. f v (xs ! i)) z [0..<length xs]"
    by (simp add: foldl_map)
  then show ?thesis by (simp add: map_nth)
qed

lemma drop_bit_all:
  fixes x :: "'a::len word"
  assumes "LENGTH('a) \<le> n"
  shows "drop_bit n x = 0"
  using assms bit_imp_le_length [of x] by (intro bit_eqI) (fastforce simp: bit_drop_bit_eq)

lemma load_be_be:
  fixes x :: "'a::len word"
  assumes "LENGTH('a) \<le> 8 * n"
  shows "load_be n (pre @ be n x @ rest) (length pre) = x"
proof -
  have "load_be n (pre @ be n x @ rest) (length pre)
      = foldl (\<lambda>v i. push_bit 8 v OR ucast (be n x ! i)) 0 [0..<length (be n x)]"
    unfolding load_be_def be_length by (rule foldl_cong) (auto simp: nth_append)
  also have "\<dots> = foldl (\<lambda>v b. push_bit 8 v OR ucast b) (drop_bit (8 * n) x) (be n x)"
    unfolding foldl_nth [where f = "\<lambda>v b. push_bit 8 v OR ucast b"] drop_bit_all [OF assms] ..
  also have "\<dots> = x" using be_fold [of n x] by (simp add: be_def append_be_def)
  finally show ?thesis .
qed

lemma guarded_at:
  assumes "length w = n" and "\<And>pre rest. f (pre @ w @ rest) (length pre) = x"
  shows "run_state (State_Monad.bind (need n) (\<lambda>ok. if ok then take_at n f else State_Monad.return z))
     (rd_at pre (w @ rest)) = (x, rd_at (pre @ w) rest)"
  using assms by (simp add: need_def take_at_def remaining_def rd_at_def)

lemma rd_u8_at [wire_simps]: "run_state rd_u8 (rd_at pre (v # rest)) = (v, rd_at (pre @ [v]) rest)"
  using guarded_at [of "[v]" 1 "\<lambda>d p. d ! p" v 0 pre rest] by (simp add: rd_u8_def nth_append)

lemma rd_u16_at [wire_simps]: "run_state rd_u16 (rd_at pre (be 2 v @ rest)) = (v, rd_at (pre @ be 2 v) rest)"
  unfolding rd_u16_def by (rule guarded_at) (simp_all add: load_be_be)

lemma rd_u32_at [wire_simps]: "run_state rd_u32 (rd_at pre (be 4 v @ rest)) = (v, rd_at (pre @ be 4 v) rest)"
  unfolding rd_u32_def by (rule guarded_at) (simp_all add: load_be_be)

lemma rd_u64_at [wire_simps]: "run_state rd_u64 (rd_at pre (be 8 v @ rest)) = (v, rd_at (pre @ be 8 v) rest)"
  unfolding rd_u64_def by (rule guarded_at) (simp_all add: load_be_be)

lemma rd_string_at [wire_simps]:
  assumes "length s < 2 ^ 32"
  shows "run_state rd_string (rd_at pre (be_string s @ rest)) = (s, rd_at (pre @ be_string s) rest)"
proof -
  let ?n = "word_of_nat (length s) :: u32"
  have n: "unat ?n = length s" using assms by (subst unat_of_nat) simp
  have "run_state rd_u32 (rd_at pre (be_string s @ rest)) = (?n, rd_at (pre @ be 4 ?n) (s @ rest))"
    using rd_u32_at [of pre ?n "s @ rest"] by (simp add: be_string_def)
  moreover have "run_state (State_Monad.bind (need (unat ?n)) (\<lambda>ok. if ok
       then take_at (unat ?n) (\<lambda>d p. take (unat ?n) (drop p d)) else State_Monad.return []))
     (rd_at (pre @ be 4 ?n) (s @ rest)) = (s, rd_at ((pre @ be 4 ?n) @ s) rest)"
    unfolding n by (rule guarded_at) simp_all
  ultimately show ?thesis
    by (simp add: rd_string_def failed_def rd_at_def be_string_def)
qed

lemma rd_failed_at [wire_simps]: "run_state failed (rd_at pre bs) = (False, rd_at pre bs)"
  by (simp add: failed_def rd_at_def)

lemma rd_at_not_failed [wire_simps]: "\<not> rd_failed (rd_at pre bs)"
  by (simp add: rd_at_def)

lemma reader_make_at: "reader_make bs = rd_at [] bs"
  by (simp add: reader_make_def rd_at_def)

lemma wr_be [wire_simps]:
  "wr_u8 b out = out @ [b]" "wr_u16 v16 out = out @ be 2 v16" "wr_u32 v32 out = out @ be 4 v32"
  "wr_u64 v64 out = out @ be 8 v64" "wr_string s out = out @ be_string s" "wr_bytes s out = out @ s"
  by (simp_all add: wr_u8_def wr_u16_def wr_u32_def wr_u64_def wr_string_def wr_bytes_def be_def
      append_be_def be_string_def)

end
