(* ===== verification/Codec.thy ===== *)
theory Codec
  imports Message Wire
begin

section \<open>The binary codec (include/lrd/proto/codec.hpp, src/proto/codec.cpp)\<close>

text \<open>
  The header and payload layouts of \<open>BinaryCodec\<close>. A decoder takes the previous value of its
  output parameter and returns the error with the parameter's new value, because the source
  assigns the parameter before it has validated the whole payload.

  The interface \<open>message_codec\<close> states what the rest of the daemon relies on from \<open>Codec\<close>: a valid
  message decodes to itself and a body is never extended or cut short unnoticed. It is interpreted
  by the binary codec for requests and for responses.
\<close>

definition double_to_bits :: "double \<Rightarrow> u64" where
  "double_to_bits d = dbits d"

definition bits_to_double :: "u64 \<Rightarrow> double" where
  "bits_to_double b = Dbl b"

subsection \<open>Fields\<close>

definition write_item :: "Item \<Rightarrow> bytes \<Rightarrow> bytes" where
  "write_item item w =
     (let w = wr_u64 (item_id item) w;
          w = wr_string (category item) w;
          w = wr_string (advertiser item) w;
          w = wr_u64 (double_to_bits (base_score item)) w;
          w = wr_u64 (to_epoch_millis (created_at item)) w
      in wr_u64 (to_epoch_millis (expires_at item)) w)"

definition read_item :: "(ByteReader, Item) state" where
  "read_item = do {
     i \<leftarrow> rd_u64;
     c \<leftarrow> rd_string;
     a \<leftarrow> rd_string;
     b \<leftarrow> rd_u64;
     cr \<leftarrow> rd_u64;
     ex \<leftarrow> rd_u64;
     State_Monad.return \<lparr>item_id = i, category = c, advertiser = a, base_score = bits_to_double b,
       created_at = from_epoch_millis cr, expires_at = from_epoch_millis ex\<rparr> }"

definition item_within_limits :: "Item \<Rightarrow> bool" where
  "item_within_limits item \<longleftrightarrow>
     length (category item) \<le> unat kMaxCategoryLength \<and>
     length (advertiser item) \<le> unat kMaxAdvertiserLength"

definition write_affinity :: "CategoryAffinity \<Rightarrow> bytes \<Rightarrow> bytes" where
  "write_affinity a w = wr_u64 (double_to_bits (ca_weight a)) (wr_string (ca_category a) w)"

definition write_signal :: "UserSignal \<Rightarrow> bytes \<Rightarrow> bytes" where
  "write_signal signal w =
     (let w = wr_u32 (word_of_nat (length (affinities signal))) w;
          w = fold write_affinity (affinities signal) w;
          w = wr_u32 (word_of_nat (length (excluded_categories signal))) w
      in fold wr_string (excluded_categories signal) w)"

text \<open>The two loops of \<open>read_signal\<close>; \<open>None\<close> is the early \<open>return false\<close>.\<close>

fun read_affinities :: "nat \<Rightarrow> (ByteReader, CategoryAffinity list option) state" where
  "read_affinities 0 = State_Monad.return (Some [])"
| "read_affinities (Suc n) = do {
     c \<leftarrow> rd_string;
     w \<leftarrow> rd_u64;
     if unat kMaxCategoryLength < length c then State_Monad.return None
     else do {
       rest \<leftarrow> read_affinities n;
       State_Monad.return (map_option ((#) \<lparr>ca_category = c, ca_weight = bits_to_double w\<rparr>) rest) } }"

fun read_excluded :: "nat \<Rightarrow> (ByteReader, cstring list option) state" where
  "read_excluded 0 = State_Monad.return (Some [])"
| "read_excluded (Suc n) = do {
     c \<leftarrow> rd_string;
     if unat kMaxCategoryLength < length c then State_Monad.return None
     else do {
       rest \<leftarrow> read_excluded n;
       State_Monad.return (map_option ((#) c) rest) } }"

definition read_signal :: "(ByteReader, UserSignal option) state" where
  "read_signal = do {
     affinity_count \<leftarrow> rd_u32;
     bad \<leftarrow> failed;
     if bad \<or> kMaxAffinities < affinity_count then State_Monad.return None
     else do {
       affs \<leftarrow> read_affinities (unat affinity_count);
       case affs of None \<Rightarrow> State_Monad.return None
       | Some affs \<Rightarrow> do {
           excluded_count \<leftarrow> rd_u32;
           bad \<leftarrow> failed;
           if bad \<or> kMaxExcluded < excluded_count then State_Monad.return None
           else do {
             excl \<leftarrow> read_excluded (unat excluded_count);
             State_Monad.return (map_option
               (\<lambda>excl. \<lparr>affinities = affs, excluded_categories = excl\<rparr>) excl) } } } }"

definition write_ranked :: "RankedItem \<Rightarrow> bytes \<Rightarrow> bytes" where
  "write_ranked ranked w =
     (let w = wr_u64 (ri_id ranked) w;
          w = wr_u64 (double_to_bits (ri_score ranked)) w;
          w = wr_string (ri_category ranked) w
      in wr_string (ri_advertiser ranked) w)"

fun read_ranked :: "nat \<Rightarrow> (ByteReader, RankedItem list) state" where
  "read_ranked 0 = State_Monad.return []"
| "read_ranked (Suc n) = do {
     i \<leftarrow> rd_u64;
     s \<leftarrow> rd_u64;
     c \<leftarrow> rd_string;
     a \<leftarrow> rd_string;
     rest \<leftarrow> read_ranked n;
     State_Monad.return (\<lparr>ri_id = i, ri_score = bits_to_double s, ri_category = c, ri_advertiser = a\<rparr> # rest) }"

definition write_stats :: "Stats \<Rightarrow> bytes \<Rightarrow> bytes" where
  "write_stats s w = fold wr_u64
     [st_requests s, st_gets s, st_puts s, st_deletes s, st_recommends s, st_hits s, st_misses s,
      st_evictions s, st_entries s, st_capacity s, st_policy_allowed s, st_policy_exposure_blocked s,
      st_policy_frequency_blocked s, st_policy_store_full s, st_policy_tracked s] w"

definition read_stats :: "(ByteReader, Stats) state" where
  "read_stats = do {
     a \<leftarrow> rd_u64; b \<leftarrow> rd_u64; c \<leftarrow> rd_u64; d \<leftarrow> rd_u64; e \<leftarrow> rd_u64;
     f \<leftarrow> rd_u64; g \<leftarrow> rd_u64; h \<leftarrow> rd_u64; i \<leftarrow> rd_u64; j \<leftarrow> rd_u64;
     k \<leftarrow> rd_u64; l \<leftarrow> rd_u64; m \<leftarrow> rd_u64; n \<leftarrow> rd_u64; p \<leftarrow> rd_u64;
     State_Monad.return \<lparr>st_requests = a, st_gets = b, st_puts = c, st_deletes = d, st_recommends = e,
       st_hits = f, st_misses = g, st_evictions = h, st_entries = i, st_capacity = j,
       st_policy_allowed = k, st_policy_exposure_blocked = l, st_policy_frequency_blocked = m,
       st_policy_store_full = n, st_policy_tracked = p\<rparr> }"

definition finish :: "ByteReader \<Rightarrow> DecodeError" where
  "finish r = (if rd_failed r then Truncated else if \<not> exhausted r then TrailingBytes else NoError)"

subsection \<open>Header\<close>

definition encode_header :: "Header \<Rightarrow> bytes \<Rightarrow> bytes" where
  "encode_header h w =
     (let w = wr_u32 kMagic w;
          w = wr_u8 (h_version h) w;
          w = wr_u8 (type_byte (h_type h)) w;
          w = wr_u16 (h_flags h) w
      in wr_u64 (h_request_id h) w)"

definition decode_header :: "(ByteReader, DecodeError \<times> Header) state" where
  "decode_header = do {
     magic \<leftarrow> rd_u32;
     bad \<leftarrow> failed;
     if bad then State_Monad.return (Truncated, default_header)
     else if magic \<noteq> kMagic then State_Monad.return (BadMagic, default_header)
     else do {
       v \<leftarrow> rd_u8;
       raw_type \<leftarrow> rd_u8;
       flags \<leftarrow> rd_u16;
       rid \<leftarrow> rd_u64;
       bad \<leftarrow> failed;
       let out = default_header\<lparr>h_version := v, h_flags := flags, h_request_id := rid\<rparr>;
       if bad then State_Monad.return (Truncated, out)
       else if v \<noteq> kVersion then State_Monad.return (UnsupportedVersion, out)
       else if flags \<noteq> 0 then State_Monad.return (ReservedFlags, out)
       else if \<not> is_known_type raw_type then State_Monad.return (UnknownType, out)
       else State_Monad.return (NoError, out\<lparr>h_type := the (type_of_byte raw_type)\<rparr>) } }"

subsection \<open>BinaryCodec\<close>

fun write_request_body :: "RequestBody \<Rightarrow> bytes \<Rightarrow> bytes" where
  "write_request_body (GetItem i) w = wr_u64 i w"
| "write_request_body (PutItem it) w = write_item it w"
| "write_request_body (DeleteItem i) w = wr_u64 i w"
| "write_request_body GetStats w = w"
| "write_request_body (RecommendBody r) w =
     (let w = write_signal (rec_signal r) w; w = wr_u32 (rec_count r) w
      in wr_u8 (if rec_dry_run r then 1 else 0) w)"

definition encode_request :: "Request \<Rightarrow> bytes \<Rightarrow> bytes" where
  "encode_request req out =
     write_request_body (req_body req)
       (encode_header \<lparr>h_version = kVersion, h_type = type_of_request (req_body req), h_flags = 0,
                       h_request_id = request_id req\<rparr> out)"

fun write_response_body :: "ResponseBody \<Rightarrow> bytes \<Rightarrow> bytes" where
  "write_response_body (GetItemResult s it) w =
     (let w = wr_u8 (status_raw s) w in if s = Ok then write_item it w else w)"
| "write_response_body (PutItemResult s) w = wr_u8 (status_raw s) w"
| "write_response_body (DeleteItemResult s) w = wr_u8 (status_raw s) w"
| "write_response_body (StatsResult s st) w = write_stats st (wr_u8 (status_raw s) w)"
| "write_response_body (RecommendResult s rs) w =
     (let w = wr_u8 (status_raw s) w; w = wr_u32 (word_of_nat (length rs)) w
      in fold write_ranked rs w)"
| "write_response_body (Failure s m) w = wr_string m (wr_u8 (status_raw s) w)"

definition encode_response :: "Response \<Rightarrow> bytes \<Rightarrow> bytes" where
  "encode_response resp out =
     write_response_body (resp_body resp)
       (encode_header \<lparr>h_version = kVersion, h_type = type_of_response (resp_body resp), h_flags = 0,
                       h_request_id = response_id resp\<rparr> out)"

definition decode_request :: "bytes \<Rightarrow> Request \<Rightarrow> DecodeError \<times> Request" where
  "decode_request body out =
     (let ((err, header), r) = run_state decode_header (reader_make body) in
      if err \<noteq> NoError then (err, out)
      else if is_response (h_type header) then (WrongDirection, out)
      else
        let out = default_request\<lparr>request_id := h_request_id header\<rparr> in
        case h_type header of
          GetItemRequest \<Rightarrow>
            let (i, r) = run_state rd_u64 r in (finish r, out\<lparr>req_body := GetItem i\<rparr>)
        | DeleteItemRequest \<Rightarrow>
            let (i, r) = run_state rd_u64 r in (finish r, out\<lparr>req_body := DeleteItem i\<rparr>)
        | PutItemRequest \<Rightarrow>
            let (item, r) = run_state read_item r in
            if finish r \<noteq> NoError then (finish r, out)
            else if \<not> item_within_limits item then (FieldTooLarge, out)
            else (NoError, out\<lparr>req_body := PutItem item\<rparr>)
        | StatsRequest \<Rightarrow> (finish r, out\<lparr>req_body := GetStats\<rparr>)
        | RecommendRequest \<Rightarrow>
            let (sig, r) = run_state read_signal r in
            (case sig of
               None \<Rightarrow> (if rd_failed r then Truncated else FieldTooLarge, out)
             | Some sig \<Rightarrow>
                 let (n, r) = run_state rd_u32 r; (dry, r) = run_state rd_u8 r in
                 if finish r \<noteq> NoError then (finish r, out)
                 else if kMaxRecommendCount < n then (FieldTooLarge, out)
                 else (NoError, out\<lparr>req_body := RecommendBody
                         \<lparr>rec_signal = sig, rec_count = n, rec_dry_run = (dry \<noteq> 0)\<rparr>\<rparr>))
        | _ \<Rightarrow> (UnknownType, out))"

definition decode_response :: "bytes \<Rightarrow> Response \<Rightarrow> DecodeError \<times> Response" where
  "decode_response body out =
     (let ((err, header), r) = run_state decode_header (reader_make body) in
      if err \<noteq> NoError then (err, out)
      else if \<not> is_response (h_type header) then (WrongDirection, out)
      else
        let out = default_response\<lparr>response_id := h_request_id header\<rparr>;
            (raw, r) = run_state rd_u8 r; s = StatusCode raw in
        case h_type header of
          GetItemResponse \<Rightarrow>
            let (item, r) = (if s = Ok then run_state read_item r else (default_item, r)) in
            if finish r \<noteq> NoError then (finish r, out)
            else if \<not> item_within_limits item then (FieldTooLarge, out)
            else (NoError, out\<lparr>resp_body := GetItemResult s item\<rparr>)
        | PutItemResponse \<Rightarrow> (finish r, out\<lparr>resp_body := PutItemResult s\<rparr>)
        | DeleteItemResponse \<Rightarrow> (finish r, out\<lparr>resp_body := DeleteItemResult s\<rparr>)
        | StatsResponse \<Rightarrow>
            let (st, r) = run_state read_stats r in (finish r, out\<lparr>resp_body := StatsResult s st\<rparr>)
        | RecommendResponse \<Rightarrow>
            let (n, r) = run_state rd_u32 r in
            if rd_failed r \<or> kMaxRecommendCount < n
            then (if rd_failed r then Truncated else FieldTooLarge, out)
            else
              let (items, r) = run_state (read_ranked (unat n)) r in
              if finish r \<noteq> NoError then (finish r, out)
              else (NoError, out\<lparr>resp_body := RecommendResult s items\<rparr>)
        | ErrorResponse \<Rightarrow>
            let (m, r) = run_state rd_string r in
            if finish r \<noteq> NoError then (finish r, out)
            else if unat kMaxMessageLength < length m then (FieldTooLarge, out)
            else (NoError, out\<lparr>resp_body := Failure s m\<rparr>)
        | _ \<Rightarrow> (UnknownType, out))"

subsection \<open>Valid messages\<close>

definition signal_valid :: "UserSignal \<Rightarrow> bool" where
  "signal_valid s \<longleftrightarrow>
     length (affinities s) \<le> unat kMaxAffinities \<and>
     list_all (\<lambda>a. length (ca_category a) \<le> unat kMaxCategoryLength) (affinities s) \<and>
     length (excluded_categories s) \<le> unat kMaxExcluded \<and>
     list_all (\<lambda>c. length c \<le> unat kMaxCategoryLength) (excluded_categories s)"

fun request_body_valid :: "RequestBody \<Rightarrow> bool" where
  "request_body_valid (PutItem it) \<longleftrightarrow> item_within_limits it"
| "request_body_valid (RecommendBody r) \<longleftrightarrow> signal_valid (rec_signal r) \<and> rec_count r \<le> kMaxRecommendCount"
| "request_body_valid _ \<longleftrightarrow> True"

fun response_body_valid :: "ResponseBody \<Rightarrow> bool" where
  "response_body_valid (GetItemResult s it) \<longleftrightarrow>
     (if s = Ok then item_within_limits it else it = default_item)"
| "response_body_valid (RecommendResult s rs) \<longleftrightarrow>
     length rs \<le> unat kMaxRecommendCount \<and>
     list_all (\<lambda>r. length (ri_category r) < 2 ^ 32 \<and> length (ri_advertiser r) < 2 ^ 32) rs"
| "response_body_valid (Failure s m) \<longleftrightarrow> length m \<le> unat kMaxMessageLength"
| "response_body_valid _ \<longleftrightarrow> True"

subsection \<open>Bytes of the fields\<close>

definition be_item :: "Item \<Rightarrow> bytes" where
  "be_item it = be 8 (item_id it) @ be_string (category it) @ be_string (advertiser it) @
     be 8 (dbits (base_score it)) @ be 8 (created_at it) @ be 8 (expires_at it)"

definition be_affinity :: "CategoryAffinity \<Rightarrow> bytes" where
  "be_affinity a = be_string (ca_category a) @ be 8 (dbits (ca_weight a))"

definition be_signal :: "UserSignal \<Rightarrow> bytes" where
  "be_signal s =
     be 4 (word_of_nat (length (affinities s)) :: u32) @ concat (map be_affinity (affinities s)) @
     be 4 (word_of_nat (length (excluded_categories s)) :: u32) @
     concat (map be_string (excluded_categories s))"

definition be_ranked :: "RankedItem \<Rightarrow> bytes" where
  "be_ranked r = be 8 (ri_id r) @ be 8 (dbits (ri_score r)) @ be_string (ri_category r) @
     be_string (ri_advertiser r)"

definition be_header :: "MessageType \<Rightarrow> u64 \<Rightarrow> bytes" where
  "be_header t rid = be 4 kMagic @ [kVersion, type_byte t] @ be 2 (0 :: u16) @ be 8 rid"

definition be_stats :: "Stats \<Rightarrow> bytes" where
  "be_stats s = write_stats s []"

lemmas codec_defs = double_to_bits_def bits_to_double_def to_epoch_millis_def from_epoch_millis_def

lemma limit_values [simp]:
  "unat kMaxCategoryLength = 64" "unat kMaxAdvertiserLength = 64" "unat kMaxAffinities = 64"
  "unat kMaxExcluded = 64" "unat kMaxRecommendCount = 100" "unat kMaxMessageLength = 1024"
  "unat kMaxFrameSize = 1048576" "unat kMinFrameSize = 1"
  by (simp_all add: limit_defs)

lemma write_item_be [wire_simps]: "write_item it w = w @ be_item it"
  by (simp add: write_item_def be_item_def wire_simps codec_defs)

lemma fold_append: "(\<And>x w. x \<in> set xs \<Longrightarrow> f x w = w @ g x) \<Longrightarrow> fold f xs w = w @ concat (map g xs)"
  by (induction xs arbitrary: w) simp_all

lemma write_signal_be [wire_simps]: "write_signal s w = w @ be_signal s"
proof -
  have "fold write_affinity xs w = w @ concat (map be_affinity xs)" for xs w
    by (rule fold_append) (simp add: write_affinity_def be_affinity_def wire_simps codec_defs)
  moreover have "fold wr_string xs w = w @ concat (map be_string xs)" for xs w
    by (rule fold_append) (simp add: wire_simps)
  ultimately show ?thesis by (simp add: write_signal_def be_signal_def wire_simps)
qed

lemma fold_ranked_be [wire_simps]: "fold write_ranked xs w = w @ concat (map be_ranked xs)"
  by (rule fold_append) (simp add: write_ranked_def be_ranked_def wire_simps codec_defs)

lemma write_stats_be [wire_simps]: "write_stats s w = w @ be_stats s"
  by (simp add: write_stats_def be_stats_def wire_simps)

lemma encode_header_be [wire_simps]:
  "encode_header \<lparr>h_version = kVersion, h_type = t, h_flags = 0, h_request_id = rid\<rparr> w = w @ be_header t rid"
  by (simp add: encode_header_def be_header_def wire_simps)

subsection \<open>Reading the fields back\<close>

lemma read_item_at [wire_simps]:
  assumes "item_within_limits it"
  shows "run_state read_item (rd_at pre (be_item it @ rest)) = (it, rd_at (pre @ be_item it) rest)"
  using assms by (simp add: read_item_def be_item_def wire_simps codec_defs item_within_limits_def)

lemma read_affinities_at:
  assumes "list_all (\<lambda>a. length (ca_category a) \<le> 64) xs"
  shows "run_state (read_affinities (length xs)) (rd_at pre (concat (map be_affinity xs) @ rest))
       = (Some xs, rd_at (pre @ concat (map be_affinity xs)) rest)"
  using assms
proof (induction xs arbitrary: pre)
  case (Cons a xs)
  then show ?case by (simp add: be_affinity_def wire_simps codec_defs)
qed simp

lemma read_excluded_at:
  assumes "list_all (\<lambda>c. length c \<le> 64) xs"
  shows "run_state (read_excluded (length xs)) (rd_at pre (concat (map be_string xs) @ rest))
       = (Some xs, rd_at (pre @ concat (map be_string xs)) rest)"
  using assms
proof (induction xs arbitrary: pre)
  case (Cons c xs)
  then show ?case by (simp add: wire_simps)
qed simp

lemma count_of_small: "n \<le> 100 \<Longrightarrow> unat (word_of_nat n :: u32) = n"
  by (subst unat_of_nat) simp

lemma read_signal_at [wire_simps]:
  assumes "signal_valid s"
  shows "run_state read_signal (rd_at pre (be_signal s @ rest)) = (Some s, rd_at (pre @ be_signal s) rest)"
proof -
  let ?n = "word_of_nat (length (affinities s)) :: u32"
  let ?m = "word_of_nat (length (excluded_categories s)) :: u32"
  have n: "unat ?n = length (affinities s)" "unat ?m = length (excluded_categories s)"
    using assms by (simp_all add: signal_valid_def count_of_small)
  have "\<not> kMaxAffinities < ?n" "\<not> kMaxExcluded < ?m"
    using assms by (simp_all add: word_less_nat_alt n signal_valid_def)
  with assms show ?thesis
    by (simp add: read_signal_def be_signal_def wire_simps n read_affinities_at read_excluded_at
        signal_valid_def)
qed

lemma read_ranked_at [wire_simps]:
  assumes "list_all (\<lambda>r. length (ri_category r) < 2 ^ 32 \<and> length (ri_advertiser r) < 2 ^ 32) xs"
  shows "run_state (read_ranked (length xs)) (rd_at pre (concat (map be_ranked xs) @ rest))
       = (xs, rd_at (pre @ concat (map be_ranked xs)) rest)"
  using assms
proof (induction xs arbitrary: pre)
  case (Cons c xs)
  then show ?case by (simp add: be_ranked_def wire_simps codec_defs)
qed simp

lemma read_stats_at [wire_simps]:
  "run_state read_stats (rd_at pre (be_stats s @ rest)) = (s, rd_at (pre @ be_stats s) rest)"
  by (simp add: read_stats_def be_stats_def write_stats_def wire_simps)

lemma decode_header_at [wire_simps]:
  "run_state decode_header (rd_at pre (be_header t rid @ rest))
     = ((NoError, \<lparr>h_version = kVersion, h_type = t, h_flags = 0, h_request_id = rid\<rparr>),
        rd_at (pre @ be_header t rid) rest)"
  by (simp add: decode_header_def be_header_def wire_simps Let_def default_header_def)

lemma finish_at [wire_simps]: "finish (rd_at pre bs) = (if bs = [] then NoError else TrailingBytes)"
  by (simp add: finish_def rd_at_def exhausted_def remaining_def)

subsection \<open>Round trips\<close>

text \<open>What the output parameter holds when a payload is followed by stray bytes.\<close>

fun partial_request :: "Request \<Rightarrow> bytes \<Rightarrow> Request" where
  "partial_request req t =
     (case req_body req of
        PutItem it \<Rightarrow> if t = [] then req else default_request\<lparr>request_id := request_id req\<rparr>
      | RecommendBody r \<Rightarrow> if t = [] then req else default_request\<lparr>request_id := request_id req\<rparr>
      | _ \<Rightarrow> req)"

fun partial_response :: "Response \<Rightarrow> bytes \<Rightarrow> Response" where
  "partial_response resp t =
     (case resp_body resp of
        PutItemResult s \<Rightarrow> resp
      | DeleteItemResult s \<Rightarrow> resp
      | StatsResult s st \<Rightarrow> resp
      | _ \<Rightarrow> if t = [] then resp else default_response\<lparr>response_id := response_id resp\<rparr>)"

lemma request_decode:
  assumes "request_body_valid (req_body req)"
  shows "decode_request (encode_request req [] @ t) out
       = (if t = [] then NoError else TrailingBytes, partial_request req t)"
proof (cases "req_body req")
  case (RecommendBody r)
  have "\<not> kMaxRecommendCount < rec_count r" "signal_valid (rec_signal r)"
    using assms RecommendBody by (simp_all add: not_less)
  then show ?thesis
    using RecommendBody request_direction [of "req_body req"]
    by (simp add: encode_request_def decode_request_def wire_simps reader_make_at default_request_def Let_def)
qed (use assms request_direction [of "req_body req"] in
    \<open>simp_all add: encode_request_def decode_request_def wire_simps reader_make_at default_request_def Let_def\<close>)

lemma response_decode:
  assumes "response_body_valid (resp_body resp)"
  shows "decode_response (encode_response resp [] @ t) out
       = (if t = [] then NoError else TrailingBytes, partial_response resp t)"
proof (cases "resp_body resp")
  case (RecommendResult s rs)
  have n: "unat (word_of_nat (length rs) :: u32) = length rs"
    using assms RecommendResult by (simp add: count_of_small)
  then have "\<not> kMaxRecommendCount < (word_of_nat (length rs) :: u32)"
    using assms RecommendResult by (simp add: word_less_nat_alt)
  then show ?thesis
    using assms RecommendResult n response_direction [of "resp_body resp"]
    by (simp add: encode_response_def decode_response_def wire_simps reader_make_at default_response_def Let_def)
next
  case (GetItemResult s it)
  then show ?thesis
    using assms response_direction [of "resp_body resp"]
    by (cases "s = Ok") (simp_all add: encode_response_def decode_response_def wire_simps reader_make_at
        default_response_def Let_def item_within_limits_def default_item_def)
qed (use assms response_direction [of "resp_body resp"] in
    \<open>simp_all add: encode_response_def decode_response_def wire_simps reader_make_at default_response_def Let_def\<close>)

subsection \<open>Locality of the decoders\<close>

lemma local_case_option [reader_intros]:
  "local_reader m \<Longrightarrow> (\<And>x. local_reader (f x)) \<Longrightarrow> local_reader (case opt of None \<Rightarrow> m | Some x \<Rightarrow> f x)"
  by (cases opt) simp_all

lemma local_read_item [reader_intros]: "local_reader read_item"
  unfolding read_item_def by (intro reader_intros)

lemma local_read_affinities [reader_intros]: "local_reader (read_affinities n)"
  by (induction n) (simp_all add: reader_intros)

lemma local_read_excluded [reader_intros]: "local_reader (read_excluded n)"
  by (induction n) (simp_all add: reader_intros)

lemma local_read_ranked [reader_intros]: "local_reader (read_ranked n)"
  by (induction n) (simp_all add: reader_intros)

lemma local_read_signal [reader_intros]: "local_reader read_signal"
  unfolding read_signal_def by (intro reader_intros)

lemma local_read_stats [reader_intros]: "local_reader read_stats"
  unfolding read_stats_def by (intro reader_intros)

lemma local_decode_header [reader_intros]: "local_reader decode_header"
  unfolding decode_header_def Let_def by (intro reader_intros)

text \<open>
  A payload that is consumed exactly is, in a longer body, consumed with the extra bytes left over.
\<close>

definition ext :: "bytes \<Rightarrow> ByteReader \<Rightarrow> ByteReader" where
  "ext t r = r\<lparr>rd_data := rd_data r @ t\<rparr>"

lemma ext_failed [simp]: "rd_failed (ext t r) = rd_failed r"
  by (simp add: ext_def)

lemma run_ext:
  assumes "local_reader m" and "rd_ok r" and "run_state m r = (x, r')" and "\<not> rd_failed r'"
  shows "run_state m (ext t r) = (x, ext t r')" and "rd_ok r'" and "\<not> rd_failed r"
  using local_readerD [OF assms(1-3)] assms(4) unfolding ext_def by (metis, blast+)

lemma finish_NoError: "finish r = NoError \<longleftrightarrow> \<not> rd_failed r \<and> exhausted r"
  by (simp add: finish_def)

lemma finish_ext:
  assumes "rd_ok r" and "finish r = NoError" and "t \<noteq> []"
  shows "finish (ext t r) = TrailingBytes"
  using assms by (auto simp: finish_def exhausted_def remaining_def rd_ok_def ext_def split: if_splits)

lemma exact_ext:
  assumes "local_reader m" and "rd_ok r" and "t \<noteq> []" and "run_state m r = (x, r')" and "finish r' = NoError"
  shows "run_state m (ext t r) = (x, ext t r') \<and> finish (ext t r') = TrailingBytes"
proof -
  have n: "\<not> rd_failed r'" using assms(5) by (simp add: finish_NoError)
  note e = run_ext [OF assms(1,2,4) n]
  from e(1) finish_ext [OF e(2) assms(5,3)] show ?thesis by simp
qed

lemma reader_make_ok [simp]: "rd_ok (reader_make b)" "ext t (reader_make b) = reader_make (b @ t)"
  by (simp_all add: rd_ok_def reader_make_def ext_def)

lemma header_NoError:
  assumes "run_state decode_header r = ((NoError, h), r')"
  shows "\<not> rd_failed r'"
proof -
  have sticky: "rd_failed r1 \<Longrightarrow> rd_failed (snd (run_state failed r1))" for r1 by (simp add: failed_def)
  show ?thesis
    using assms unfolding decode_header_def
    by (auto simp: Let_def failed_def split: prod.splits if_splits)
qed

text \<open>The header of an accepted body is read the same way from a longer body.\<close>

lemma header_ext:
  assumes "run_state decode_header (reader_make b) = ((NoError, h), r)"
  shows "run_state decode_header (reader_make (b @ t)) = ((NoError, h), ext t r)" and "rd_ok r"
proof -
  note e = run_ext [OF local_decode_header reader_make_ok(1) assms header_NoError [OF assms]]
  show "run_state decode_header (reader_make (b @ t)) = ((NoError, h), ext t r)" "rd_ok r"
    using e(1) [of t] e(2) by simp_all
qed

lemma decode_request_ext:
  assumes "decode_request b out = (NoError, req)" and "t \<noteq> []"
  shows "fst (decode_request (b @ t) out') = TrailingBytes"
proof -
  obtain err h r where hd: "run_state decode_header (reader_make b) = ((err, h), r)" by (metis prod.exhaust)
  have err: "err = NoError" and dir: "\<not> is_response (h_type h)"
    using assms(1) hd by (auto simp: decode_request_def split: if_splits)
  note e = header_ext [OF hd [unfolded err]]
  note ex = exact_ext [OF _ e(2) assms(2)]
  note pre = assms(1) hd err dir and post = e(1) dir
  show ?thesis
  proof (cases "h_type h")
    case GetItemRequest
    obtain i r1 where 1: "run_state rd_u64 r = (i, r1)" by fastforce
    then have "finish r1 = NoError" using pre GetItemRequest by (simp add: decode_request_def Let_def)
    with ex [OF local_rd_u64 1] post GetItemRequest show ?thesis by (simp add: decode_request_def Let_def)
  next
    case DeleteItemRequest
    obtain i r1 where 1: "run_state rd_u64 r = (i, r1)" by fastforce
    then have "finish r1 = NoError" using pre DeleteItemRequest by (simp add: decode_request_def Let_def)
    with ex [OF local_rd_u64 1] post DeleteItemRequest show ?thesis by (simp add: decode_request_def Let_def)
  next
    case PutItemRequest
    obtain i r1 where 1: "run_state read_item r = (i, r1)" by fastforce
    then have "finish r1 = NoError"
      using pre PutItemRequest by (auto simp: decode_request_def Let_def split: if_splits)
    with ex [OF local_read_item 1] post PutItemRequest show ?thesis by (simp add: decode_request_def Let_def)
  next
    case StatsRequest
    then have "finish r = NoError" using pre by (simp add: decode_request_def Let_def)
    with finish_ext [OF e(2) _ assms(2)] post StatsRequest show ?thesis by (simp add: decode_request_def Let_def)
  next
    case RecommendRequest
    obtain sg r1 where 1: "run_state read_signal r = (sg, r1)" by fastforce
    obtain s where s: "sg = Some s"
      using pre RecommendRequest 1 by (cases sg) (auto simp: decode_request_def Let_def split: if_splits)
    obtain n r2 where 2: "run_state rd_u32 r1 = (n, r2)" by fastforce
    obtain d r3 where 3: "run_state rd_u8 r2 = (d, r3)" by fastforce
    have f: "finish r3 = NoError"
      using pre RecommendRequest 1 2 3 s by (auto simp: decode_request_def Let_def split: if_splits)
    have ok1: "rd_ok r1" by (rule local_readerD(3) [OF local_read_signal e(2) 1])
    have ok2: "rd_ok r2" by (rule local_readerD(3) [OF local_rd_u32 ok1 2])
    have n3: "\<not> rd_failed r3" using f by (simp add: finish_NoError)
    note e3 = run_ext [OF local_rd_u8 ok2 3 n3]
    note e2 = run_ext [OF local_rd_u32 ok1 2 e3(3)]
    note e1 = run_ext [OF local_read_signal e(2) 1 e2(3)]
    show ?thesis
      using post RecommendRequest e1(1) e2(1) e3(1) s finish_ext [OF e3(2) f assms(2)]
      by (simp add: decode_request_def Let_def)
  qed (use dir in \<open>simp_all add: is_response_def kResponseBit_def\<close>)
qed

lemma decode_response_ext:
  assumes "decode_response b out = (NoError, resp)" and "t \<noteq> []"
  shows "fst (decode_response (b @ t) out') = TrailingBytes"
proof -
  obtain err h r0 where hd: "run_state decode_header (reader_make b) = ((err, h), r0)" by (metis prod.exhaust)
  obtain raw r where st: "run_state rd_u8 r0 = (raw, r)" by fastforce
  have err: "err = NoError" and dir: "is_response (h_type h)"
    using assms(1) hd by (auto simp: decode_response_def split: if_splits)
  note e = header_ext [OF hd [unfolded err]]
  have ok: "rd_ok r" by (rule local_readerD(3) [OF local_rd_u8 e(2) st])
  note st' = run_ext(1) [OF local_rd_u8 e(2) st]
  have bk: "\<not> rd_failed r" if "local_reader m" "run_state m r = (x, r')" "finish r' = NoError" for m x r'
    using local_readerD(4) [OF that(1) ok that(2)] that(3) by (auto simp: finish_NoError)
  note ex = exact_ext [OF _ ok assms(2)]
  note pre = assms(1) hd err dir st and post = e(1) dir
  show ?thesis
  proof (cases "h_type h")
    case GetItemResponse
    define m where "m = (if StatusCode raw = Ok then read_item else State_Monad.return default_item)"
    have m: "run_state m = (\<lambda>r. if StatusCode raw = Ok then run_state read_item r else (default_item, r))"
      by (simp add: m_def fun_eq_iff)
    have l: "local_reader m" unfolding m_def by (intro reader_intros)
    obtain i r1 where 1: "run_state m r = (i, r1)" by fastforce
    then have "finish r1 = NoError"
      using pre GetItemResponse by (auto simp: decode_response_def Let_def m split: if_splits)
    with ex [OF l 1] st' [OF bk [OF l 1]] post GetItemResponse show ?thesis
      by (simp add: decode_response_def Let_def m)
  next
    case PutItemResponse
    then have "finish r = NoError" using pre by (simp add: decode_response_def Let_def)
    with finish_ext [OF ok _ assms(2)] st' post PutItemResponse show ?thesis
      by (simp add: decode_response_def Let_def finish_NoError)
  next
    case DeleteItemResponse
    then have "finish r = NoError" using pre by (simp add: decode_response_def Let_def)
    with finish_ext [OF ok _ assms(2)] st' post DeleteItemResponse show ?thesis
      by (simp add: decode_response_def Let_def finish_NoError)
  next
    case StatsResponse
    obtain i r1 where 1: "run_state read_stats r = (i, r1)" by fastforce
    then have "finish r1 = NoError" using pre StatsResponse by (simp add: decode_response_def Let_def)
    with ex [OF local_read_stats 1] st' [OF bk [OF local_read_stats 1]] post StatsResponse show ?thesis
      by (simp add: decode_response_def Let_def)
  next
    case RecommendResponse
    obtain n r1 where 1: "run_state rd_u32 r = (n, r1)" by fastforce
    obtain xs r2 where 2: "run_state (read_ranked (unat n)) r1 = (xs, r2)" by fastforce
    have g: "\<not> rd_failed r1" "\<not> kMaxRecommendCount < n" and f: "finish r2 = NoError"
      using pre RecommendResponse 1 2 by (auto simp: decode_response_def Let_def split: if_splits)
    note e1 = run_ext [OF local_rd_u32 ok 1 g(1)]
    from exact_ext [OF local_read_ranked e1(2) assms(2) 2 f] e1(1) [of t] st' [OF e1(3)] post RecommendResponse g
    show ?thesis by (simp add: decode_response_def Let_def)
  next
    case ErrorResponse
    obtain i r1 where 1: "run_state rd_string r = (i, r1)" by fastforce
    then have "finish r1 = NoError"
      using pre ErrorResponse by (auto simp: decode_response_def Let_def split: if_splits)
    with ex [OF local_rd_string 1] st' [OF bk [OF local_rd_string 1]] post ErrorResponse show ?thesis
      by (simp add: decode_response_def Let_def)
  qed (use dir in \<open>simp_all add: is_response_def kResponseBit_def\<close>)
qed

subsection \<open>What the decoders accept\<close>

lemma rd_advance:
  "run_state rd_u8 r = (b, r') \<Longrightarrow> \<not> rd_failed r' \<Longrightarrow> rd_pos r' = rd_pos r + 1"
  "run_state rd_u16 r = (v, r') \<Longrightarrow> \<not> rd_failed r' \<Longrightarrow> rd_pos r' = rd_pos r + 2"
  "run_state rd_u32 r = (w, r') \<Longrightarrow> \<not> rd_failed r' \<Longrightarrow> rd_pos r' = rd_pos r + 4"
  "run_state rd_u64 r = (x, r') \<Longrightarrow> \<not> rd_failed r' \<Longrightarrow> rd_pos r' = rd_pos r + 8"
  by (auto simp: rd_u8_def rd_u16_def rd_u32_def rd_u64_def need_def take_at_def split: if_splits)

lemma short_header:
  assumes "length b < kHeaderSize"
  shows "fst (fst (run_state decode_header (reader_make b))) \<in> {Truncated, BadMagic}"
proof -
  obtain m r1 where 1: "run_state rd_u32 (reader_make b) = (m, r1)" by fastforce
  obtain v r2 where 2: "run_state rd_u8 r1 = (v, r2)" by fastforce
  obtain ty r3 where 3: "run_state rd_u8 r2 = (ty, r3)" by fastforce
  obtain fl r4 where 4: "run_state rd_u16 r3 = (fl, r4)" by fastforce
  obtain rid r5 where 5: "run_state rd_u64 r4 = (rid, r5)" by fastforce
  note l1 = local_readerD [OF local_rd_u32 reader_make_ok(1) 1]
  note l2 = local_readerD [OF local_rd_u8 l1(3) 2]
  note l3 = local_readerD [OF local_rd_u8 l2(3) 3]
  note l4 = local_readerD [OF local_rd_u16 l3(3) 4]
  note l5 = local_readerD [OF local_rd_u64 l4(3) 5]
  have "rd_failed r5"
  proof (rule ccontr)
    assume n5: "\<not> rd_failed r5"
    then have n: "\<not> rd_failed r4" "\<not> rd_failed r3" "\<not> rd_failed r2" "\<not> rd_failed r1"
      using l5(4) l4(4) l3(4) l2(4) by blast+
    have "rd_pos r5 = 16"
      using rd_advance(3) [OF 1 n(4)] rd_advance(1) [OF 2 n(3)] rd_advance(1) [OF 3 n(2)]
        rd_advance(2) [OF 4 n(1)] rd_advance(4) [OF 5 n5] by (simp add: reader_make_def)
    moreover have "rd_data r5 = b" using l5(1) l4(1) l3(1) l2(1) l1(1) by (simp add: reader_make_def)
    ultimately show False using l5(3) assms by (simp add: rd_ok_def kHeaderSize_def)
  qed
  with 1 2 3 4 5 show ?thesis by (simp add: decode_header_def failed_def Let_def)
qed

lemma read_affinities_Some:
  "run_state (read_affinities n) r = (Some xs, r') \<Longrightarrow>
     length xs = n \<and> list_all (\<lambda>a. length (ca_category a) \<le> 64) xs"
proof (induction n arbitrary: r xs r')
  case (Suc n)
  obtain c r1 where 1: "run_state rd_string r = (c, r1)" by fastforce
  obtain w r2 where 2: "run_state rd_u64 r1 = (w, r2)" by fastforce
  obtain ys r3 where 3: "run_state (read_affinities n) r2 = (ys, r3)" by fastforce
  from Suc.prems 1 2 3 obtain zs where "ys = Some zs" "length c \<le> 64"
      "xs = \<lparr>ca_category = c, ca_weight = bits_to_double w\<rparr> # zs"
    by (auto split: if_splits)
  with Suc.IH 3 show ?case by auto
qed simp

lemma read_excluded_Some:
  "run_state (read_excluded n) r = (Some xs, r') \<Longrightarrow> length xs = n \<and> list_all (\<lambda>c. length c \<le> 64) xs"
proof (induction n arbitrary: r xs r')
  case (Suc n)
  obtain c r1 where 1: "run_state rd_string r = (c, r1)" by fastforce
  obtain ys r3 where 3: "run_state (read_excluded n) r1 = (ys, r3)" by fastforce
  from Suc.prems 1 3 obtain zs where "ys = Some zs" "length c \<le> 64" "xs = c # zs"
    by (auto split: if_splits)
  with Suc.IH 3 show ?case by auto
qed simp

lemma read_signal_Some:
  assumes "run_state read_signal r = (Some s, r')"
  shows "signal_valid s"
proof -
  obtain n r1 where 1: "run_state rd_u32 r = (n, r1)" by fastforce
  obtain a r2 where 2: "run_state (read_affinities (unat n)) r1 = (a, r2)" by fastforce
  obtain m r3 where 3: "run_state rd_u32 r2 = (m, r3)" by fastforce
  obtain x r4 where 4: "run_state (read_excluded (unat m)) r3 = (x, r4)" by fastforce
  from assms 1 2 3 4 obtain as xs where
    "a = Some as" "x = Some xs" "s = \<lparr>affinities = as, excluded_categories = xs\<rparr>"
    "\<not> kMaxAffinities < n" "\<not> kMaxExcluded < m"
    by (auto simp: read_signal_def failed_def split: if_splits option.splits)
  with 2 4 show ?thesis
    by (auto simp: signal_valid_def word_less_nat_alt not_less dest!: read_affinities_Some read_excluded_Some)
qed

lemma decode_request_valid:
  assumes "decode_request b out = (NoError, req)"
  shows "request_body_valid (req_body req)"
proof -
  obtain err h r where hd: "run_state decode_header (reader_make b) = ((err, h), r)" by (metis prod.exhaust)
  note d = assms hd
  show ?thesis
  proof (cases "h_type h")
    case PutItemRequest
    obtain i r1 where "run_state read_item r = (i, r1)" by fastforce
    with d PutItemRequest show ?thesis by (auto simp: decode_request_def Let_def split: if_splits)
  next
    case RecommendRequest
    obtain sg r1 where 1: "run_state read_signal r = (sg, r1)" by fastforce
    obtain n r2 where 2: "run_state rd_u32 r1 = (n, r2)" by fastforce
    obtain dr r3 where 3: "run_state rd_u8 r2 = (dr, r3)" by fastforce
    show ?thesis
    proof (cases sg)
      case None
      with d RecommendRequest 1 show ?thesis by (auto simp: decode_request_def Let_def split: if_splits)
    next
      case (Some s)
      then have "signal_valid s" using 1 read_signal_Some by blast
      with d RecommendRequest 1 2 3 Some show ?thesis
        by (auto simp: decode_request_def Let_def not_less split: if_splits)
    qed
  qed (use d in \<open>auto simp: decode_request_def Let_def split: if_splits prod.splits\<close>)
qed

subsection \<open>The codec interface\<close>

locale faithful_codec =
  fixes enc :: "'m \<Rightarrow> bytes" and dec :: "bytes \<Rightarrow> DecodeError \<times> 'm" and valid :: "'m \<Rightarrow> bool"
  assumes round_trip: "valid m \<Longrightarrow> dec (enc m) = (NoError, m)"
begin

lemma enc_inj:
  assumes "valid m" and "valid m'" and "enc m = enc m'"
  shows "m = m'"
proof -
  have "(NoError, m) = (NoError, m')"
    using round_trip [OF assms(1)] round_trip [OF assms(2)] unfolding assms(3) by (rule trans [OF sym])
  then show ?thesis by simp
qed

end

locale message_codec = faithful_codec +
  assumes no_extension: "fst (dec b) = NoError \<Longrightarrow> t \<noteq> [] \<Longrightarrow> fst (dec (b @ t)) = TrailingBytes"
begin

lemma prefix_rejected: "fst (dec (b @ t)) = NoError \<Longrightarrow> t \<noteq> [] \<Longrightarrow> fst (dec b) \<noteq> NoError"
  using no_extension [of b t] by auto

lemma prefix_free:
  assumes "valid m" and "valid m'" and "enc m @ t = enc m'"
  shows "t = [] \<and> m = m'"
proof -
  have "t = []"
    using no_extension [of "enc m" t] round_trip [OF assms(1)] round_trip [OF assms(2)] assms(3) by force
  with enc_inj assms show ?thesis by simp
qed

end

interpretation req: message_codec "\<lambda>m. encode_request m []" "\<lambda>b. decode_request b out"
  "\<lambda>m. request_body_valid (req_body m)" for out
proof
  show "decode_request (encode_request m []) out = (NoError, m)"
    if "request_body_valid (req_body m)" for m
    using request_decode [OF that, of "[]" out] by (simp split: RequestBody.splits)
  show "fst (decode_request (b @ t) out) = TrailingBytes"
    if "fst (decode_request b out) = NoError" "t \<noteq> []" for b t
    using decode_request_ext [of b out "snd (decode_request b out)" t out] that by (simp add: prod_eq_iff)
qed

interpretation resp: message_codec "\<lambda>m. encode_response m []" "\<lambda>b. decode_response b out"
  "\<lambda>m. response_body_valid (resp_body m)" for out
proof
  show "decode_response (encode_response m []) out = (NoError, m)"
    if "response_body_valid (resp_body m)" for m
    using response_decode [OF that, of "[]" out] by (simp split: ResponseBody.splits)
  show "fst (decode_response (b @ t) out) = TrailingBytes"
    if "fst (decode_response b out) = NoError" "t \<noteq> []" for b t
    using decode_response_ext [of b out "snd (decode_response b out)" t out] that by (simp add: prod_eq_iff)
qed

subsection \<open>Properties\<close>

text \<open>
  C11. Every request within the protocol's limits survives the wire: decoding its encoding, into
  whatever the output parameter held before, yields exactly that request.
\<close>

theorem request_roundtrip:
  assumes "request_body_valid (req_body r)"
  shows "decode_request (encode_request r []) out = (NoError, r)"
  using assms by (rule req.round_trip)

theorem request_roundtrip_witness:
  "decode_request (encode_request \<lparr>request_id = 7, req_body = GetItem 42\<rparr> []) default_request
     = (NoError, \<lparr>request_id = 7, req_body = GetItem 42\<rparr>)"
  by (rule request_roundtrip) simp

text \<open>C12. The same for responses, with doubles carried bit for bit.\<close>

theorem response_roundtrip:
  assumes "response_body_valid (resp_body r)"
  shows "decode_response (encode_response r []) out = (NoError, r)"
  using assms by (rule resp.round_trip)

theorem response_roundtrip_witness:
  "decode_response (encode_response \<lparr>response_id = 7, resp_body = Failure Internal (lit ''down'')\<rparr> []) default_response
     = (NoError, \<lparr>response_id = 7, resp_body = Failure Internal (lit ''down'')\<rparr>)"
  by (rule response_roundtrip) (simp add: lit_def)

text \<open>
  C13. The request decoder is exact: a body it accepts holds a request within every limit, no
  proper extension of an accepted body is accepted (it is reported as trailing bytes), and no
  proper prefix of an accepted body is accepted.
\<close>

theorem request_decode_exact:
  assumes "decode_request b out = (NoError, r)" and "t \<noteq> []"
  shows "request_body_valid (req_body r) \<and> fst (decode_request (b @ t) out) = TrailingBytes \<and>
         (b = p @ t \<longrightarrow> fst (decode_request p out) \<noteq> NoError)"
  using decode_request_valid [OF assms(1)] req.no_extension [of b out t] req.prefix_rejected [of p t out] assms
  by auto

theorem request_decode_exact_witness:
  "let b = encode_request \<lparr>request_id = 7, req_body = GetStats\<rparr> [] in
   fst (decode_request (b @ [0]) default_request) = TrailingBytes \<and>
   fst (decode_request (butlast b) default_request) \<noteq> NoError"
proof -
  let ?r = "\<lparr>request_id = 7, req_body = GetStats\<rparr>"
  let ?b = "encode_request ?r []"
  have d: "decode_request ?b default_request = (NoError, ?r)" by (rule req.round_trip) simp
  have "?b = butlast ?b @ [last ?b]"
    by (rule append_butlast_last_id [symmetric]) (simp add: encode_request_def wire_simps be_header_def)
  with request_decode_exact [OF d, of "[last ?b]" "butlast ?b"] request_decode_exact [OF d, of "[0]" "[]"]
  show ?thesis by (simp add: Let_def)
qed

text \<open>
  The header checks fire in their order: on sixteen header bytes with arbitrary field values
  the decoder reports the first of bad magic, unsupported version, reserved flags and unknown
  type that applies, and a body shorter than a header is always rejected.
\<close>

lemma header_checks:
  fixes magic :: u32 and flags :: u16 and rid :: u64
  shows "fst (fst (run_state decode_header (reader_make (be 4 magic @ [v, ty] @ be 2 flags @ be 8 rid @ rest)))) =
     (if magic \<noteq> kMagic then BadMagic else if v \<noteq> kVersion then UnsupportedVersion
      else if flags \<noteq> 0 then ReservedFlags else if \<not> is_known_type ty then UnknownType else NoError) \<and>
   (length b < kHeaderSize \<longrightarrow> fst (fst (run_state decode_header (reader_make b))) \<in> {Truncated, BadMagic})"
proof -
  have "fst (fst (run_state decode_header (rd_at [] (be 4 magic @ [v, ty] @ be 2 flags @ be 8 rid @ rest)))) =
     (if magic \<noteq> kMagic then BadMagic else if v \<noteq> kVersion then UnsupportedVersion
      else if flags \<noteq> 0 then ReservedFlags else if \<not> is_known_type ty then UnknownType else NoError)"
    by (simp add: decode_header_def wire_simps Let_def)
  with short_header [of b] show ?thesis by (simp add: reader_make_at)
qed

end
