(* ===== verification/Io.thy ===== *)
theory Io
  imports Prelude
begin

section \<open>Socket transfers (include/lrd/net/io.hpp, src/net/io.cpp)\<close>

text \<open>
  \<open>read_exact\<close>, \<open>read_some\<close> and \<open>write_all\<close> over a connected socket. What the kernel does is an input of
  the model: a socket carries the scripts of outcomes its future \<open>read\<close> and \<open>send\<close> calls have, as
  read(2) and send(2) document them. A \<open>read\<close> takes at most what one delivery holds, an error is
  reported once, the end of the stream is permanent, and a call with no outcome left blocks for
  ever, which is the value None. Every theorem about a transfer is over all scripts.
\<close>

subsection \<open>The kernel side\<close>

definition EINTR :: int where "EINTR = 4"
definition EAGAIN :: int where "EAGAIN = 11"
definition EWOULDBLOCK :: int where "EWOULDBLOCK = 11"
definition EPIPE :: int where "EPIPE = 32"

lemmas errno_defs = EINTR_def EAGAIN_def EWOULDBLOCK_def EPIPE_def

datatype rd_event = Data bytes | Eof | ReadErr int
datatype wr_event = Accept nat | WriteErr int
datatype rd_result = Got bytes | ReadFailed int

record socket =
  sk_in :: "rd_event list"
  sk_out :: "wr_event list"
  sk_sent :: bytes

fun sys_read :: "nat \<Rightarrow> rd_event list \<Rightarrow> (rd_result \<times> rd_event list) option" where
  "sys_read n [] = None"
| "sys_read n (Data bs # es) =
     (if length bs \<le> n then Some (Got bs, es) else Some (Got (take n bs), Data (drop n bs) # es))"
| "sys_read n (Eof # es) = Some (Got [], Eof # es)"
| "sys_read n (ReadErr e # es) = Some (ReadFailed e, es)"

subsection \<open>Transfers\<close>

datatype IoStatus = IoOk | IoPeerClosed | IoTimedOut | IoError

record IoResult =
  io_status :: IoStatus
  io_error :: int
  transferred :: nat

definition io_ok :: "IoResult \<Rightarrow> bool" where
  "io_ok r \<longleftrightarrow> io_status r = IoOk"

text \<open>Storing bytes at an offset of a buffer.\<close>

definition store_at :: "bytes \<Rightarrow> nat \<Rightarrow> bytes \<Rightarrow> bytes" where
  "store_at buf pos bs = take pos buf @ bs @ drop (pos + length bs) buf"

lemma sys_read_fail_shrinks: "sys_read n es = Some (ReadFailed e, es') \<Longrightarrow> length es' < length es"
  by (cases "(n, es)" rule: sys_read.cases) (auto split: if_splits)

lemma read_progress: "moved < want \<Longrightarrow> bs \<noteq> [] \<Longrightarrow> want - (moved + length bs) < want - moved"
  by (cases bs) auto

function read_loop :: "nat \<Rightarrow> bytes \<Rightarrow> nat \<Rightarrow> rd_event list \<Rightarrow> (IoResult \<times> bytes \<times> rd_event list) option" where
  "read_loop want buf moved es =
     (if moved < want then
        case sys_read (want - moved) es of
          None \<Rightarrow> None
        | Some (Got bs, es') \<Rightarrow>
            if 0 < length bs then read_loop want (store_at buf moved bs) (moved + length bs) es'
            else Some (\<lparr>io_status = IoPeerClosed, io_error = 0, transferred = moved\<rparr>, buf, es')
        | Some (ReadFailed e, es') \<Rightarrow>
            if e = EINTR then read_loop want buf moved es'
            else if e = EAGAIN \<or> e = EWOULDBLOCK
            then Some (\<lparr>io_status = IoTimedOut, io_error = e, transferred = moved\<rparr>, buf, es')
            else Some (\<lparr>io_status = IoError, io_error = e, transferred = moved\<rparr>, buf, es')
      else Some (\<lparr>io_status = IoOk, io_error = 0, transferred = moved\<rparr>, buf, es))"
  by pat_completeness auto

termination
  by (relation "measures [\<lambda>(want, buf, moved, es). want - moved, \<lambda>(want, buf, moved, es). length es]")
    (auto simp: read_progress dest: sys_read_fail_shrinks)

declare read_loop.simps [simp del]

definition read_exact :: "nat \<Rightarrow> bytes \<Rightarrow> rd_event list \<Rightarrow> (IoResult \<times> bytes \<times> rd_event list) option" where
  "read_exact want buf es = read_loop want buf 0 es"

fun read_some :: "nat \<Rightarrow> bytes \<Rightarrow> rd_event list \<Rightarrow> (IoResult \<times> bytes \<times> rd_event list) option" where
  "read_some want buf [] = None"
| "read_some want buf (ev # es) =
     (case sys_read want (ev # es) of
        None \<Rightarrow> None
      | Some (Got bs, es') \<Rightarrow>
          if 0 < length bs
          then Some (\<lparr>io_status = IoOk, io_error = 0, transferred = length bs\<rparr>, store_at buf 0 bs, es')
          else Some (\<lparr>io_status = IoPeerClosed, io_error = 0, transferred = 0\<rparr>, buf, es')
      | Some (ReadFailed e, es') \<Rightarrow>
          if e = EINTR then read_some want buf es
          else if e = EAGAIN \<or> e = EWOULDBLOCK
          then Some (\<lparr>io_status = IoTimedOut, io_error = e, transferred = 0\<rparr>, buf, es')
          else Some (\<lparr>io_status = IoError, io_error = e, transferred = 0\<rparr>, buf, es'))"

text \<open>\<open>send\<close> with \<open>MSG_NOSIGNAL\<close>; each outcome accepts up to a number of bytes or fails.\<close>

fun write_loop :: "bytes \<Rightarrow> nat \<Rightarrow> wr_event list \<Rightarrow> bytes \<Rightarrow> (IoResult \<times> wr_event list \<times> bytes) option" where
  "write_loop data moved [] sent =
     (if moved < length data then None
      else Some (\<lparr>io_status = IoOk, io_error = 0, transferred = moved\<rparr>, [], sent))"
| "write_loop data moved (Accept k # ws) sent =
     (if moved < length data then
        let n = min k (length data - moved) in
        if 0 < n then write_loop data (moved + n) ws (sent @ take n (drop moved data))
        else Some (\<lparr>io_status = IoError, io_error = 0, transferred = moved\<rparr>, ws, sent)
      else Some (\<lparr>io_status = IoOk, io_error = 0, transferred = moved\<rparr>, Accept k # ws, sent))"
| "write_loop data moved (WriteErr e # ws) sent =
     (if moved < length data then
        if e = EINTR then write_loop data moved ws sent
        else if e = EPIPE then Some (\<lparr>io_status = IoPeerClosed, io_error = 0, transferred = moved\<rparr>, ws, sent)
        else if e = EAGAIN \<or> e = EWOULDBLOCK
        then Some (\<lparr>io_status = IoTimedOut, io_error = e, transferred = moved\<rparr>, ws, sent)
        else Some (\<lparr>io_status = IoError, io_error = e, transferred = moved\<rparr>, ws, sent)
      else Some (\<lparr>io_status = IoOk, io_error = 0, transferred = moved\<rparr>, WriteErr e # ws, sent))"

definition write_all :: "bytes \<Rightarrow> socket \<Rightarrow> (IoResult \<times> socket) option" where
  "write_all data s =
     (case write_loop data 0 (sk_out s) (sk_sent s) of
        None \<Rightarrow> None
      | Some (r, ws, sent) \<Rightarrow> Some (r, s\<lparr>sk_out := ws, sk_sent := sent\<rparr>))"

subsection \<open>What a script delivers\<close>

fun incoming :: "rd_event list \<Rightarrow> bytes" where
  "incoming [] = []"
| "incoming (Data bs # es) = bs @ incoming es"
| "incoming (Eof # es) = []"
| "incoming (ReadErr e # es) = incoming es"

text \<open>A script with no failure but interruptions, in arbitrary fragments.\<close>

fun benign :: "rd_event list \<Rightarrow> bool" where
  "benign [] \<longleftrightarrow> True"
| "benign (Data bs # es) \<longleftrightarrow> bs \<noteq> [] \<and> benign es"
| "benign (Eof # es) \<longleftrightarrow> False"
| "benign (ReadErr e # es) \<longleftrightarrow> e = EINTR \<and> benign es"

lemma sys_read_incoming:
  assumes "sys_read n es = Some (Got bs, es')"
  shows "incoming es = bs @ incoming es'" "length bs \<le> n" "benign es \<Longrightarrow> benign es'"
  using assms by (cases "(n, es)" rule: sys_read.cases; force split: if_splits)+

lemma sys_read_failed:
  "sys_read n es = Some (ReadFailed e, es') \<Longrightarrow> incoming es = incoming es' \<and> (benign es \<longrightarrow> benign es' \<and> e = EINTR)"
  by (cases "(n, es)" rule: sys_read.cases) (auto split: if_splits)

lemma length_store_at: "pos + length bs \<le> length buf \<Longrightarrow> length (store_at buf pos bs) = length buf"
  by (simp add: store_at_def)

lemma store_at_append:
  assumes "pos + length bs + length cs \<le> length buf"
  shows "store_at (store_at buf pos bs) (pos + length bs) cs = store_at buf pos (bs @ cs)"
proof -
  have "take pos buf @ bs = take (pos + length bs) (take pos buf @ bs @ drop (pos + length bs) buf)"
    using assms by simp
  moreover have "drop (pos + length bs + length cs) (take pos buf @ bs @ drop (pos + length bs) buf)
      = drop (pos + length (bs @ cs)) buf"
    using assms by (simp add: add.assoc add.commute add.left_commute)
  ultimately show ?thesis by (simp add: store_at_def)
qed

lemma store_at_Nil [simp]: "store_at buf pos [] = buf"
  by (simp add: store_at_def)

text \<open>
  The bytes a read delivers are the next bytes of the stream, stored in order; it is complete exactly
  when the status is Ok.
\<close>

lemma read_loop_sound:
  assumes "read_loop want buf moved es = Some (r, buf', es')" "moved \<le> want" "want \<le> length buf"
  shows "\<exists>got. incoming es = got @ incoming es' \<and> buf' = store_at buf moved got
      \<and> transferred r = moved + length got \<and> transferred r \<le> want
      \<and> (io_status r = IoOk \<longleftrightarrow> transferred r = want)"
  using assms
proof (induction want buf moved es rule: read_loop.induct)
  case (1 want buf moved es)
  note u = 1(3) [unfolded read_loop.simps [of want buf moved es]]
  show ?case
  proof (cases "moved < want")
    case False
    then show ?thesis using u 1(4,5) by (intro exI [of _ "[]"]) auto
  next
    case True
    show ?thesis
    proof (cases "sys_read (want - moved) es")
      case None
      then show ?thesis using u True by simp
    next
      case (Some p)
      then obtain x es1 where x: "sys_read (want - moved) es = Some (x, es1)" by (cases p) auto
      show ?thesis
      proof (cases x)
        case (Got bs)
        note s = sys_read_incoming [OF x [unfolded Got]]
        show ?thesis
        proof (cases "0 < length bs")
          case bs: True
          then have rec: "read_loop want (store_at buf moved bs) (moved + length bs) es1 = Some (r, buf', es')"
            using u True x Got by simp
          have len: "length (store_at buf moved bs) = length buf" "moved + length bs \<le> want"
            using s(2) True 1(5) by (auto simp: length_store_at)
          then obtain got where g: "incoming es1 = got @ incoming es'" "buf' = store_at (store_at buf moved bs) (moved + length bs) got"
              "transferred r = moved + length bs + length got" "transferred r \<le> want"
              "io_status r = IoOk \<longleftrightarrow> transferred r = want"
            using 1(1) [OF True x refl Got bs rec] 1(5) by auto
          show ?thesis using g s(1) 1(5) by (intro exI [of _ "bs @ got"]) (simp add: store_at_append)
        next
          case False
          then show ?thesis using u True x Got s by (intro exI [of _ "[]"]) auto
        qed
      next
        case (ReadFailed e)
        note s = sys_read_failed [OF x [unfolded ReadFailed]]
        show ?thesis
        proof (cases "e = EINTR")
          case e: True
          then have rec: "read_loop want buf moved es1 = Some (r, buf', es')" using u True x ReadFailed by simp
          then show ?thesis using 1(2) [OF True x refl ReadFailed e rec 1(4,5)] s by simp
        next
          case False
          then show ?thesis using u True x ReadFailed s
            by (intro exI [of _ "[]"]) (auto split: if_splits)
        qed
      qed
    qed
  qed
qed

text \<open>A stream that delivers enough bytes, however fragmented or interrupted, completes the read.\<close>

lemma read_loop_Ok:
  assumes "benign es" "moved \<le> want" "want - moved \<le> length (incoming es)"
  shows "\<exists>buf' es'. read_loop want buf moved es
      = Some (\<lparr>io_status = IoOk, io_error = 0, transferred = want\<rparr>, buf', es') \<and> benign es'"
  using assms
proof (induction want buf moved es rule: read_loop.induct)
  case (1 want buf moved es)
  show ?case
  proof (cases "moved < want")
    case False
    then show ?thesis using 1(3,4) by (subst read_loop.simps) auto
  next
    case True
    then have "incoming es \<noteq> []" using 1(5) by auto
    then have "sys_read (want - moved) es \<noteq> None"
      by (cases "(want - moved, es)" rule: sys_read.cases) auto
    then obtain x es1 where x: "sys_read (want - moved) es = Some (x, es1)" by auto
    show ?thesis
    proof (cases x)
      case (Got bs)
      note s = sys_read_incoming [OF x [unfolded Got]]
      have bs: "0 < length bs" using x Got 1(3) True
        by (cases "(want - moved, es)" rule: sys_read.cases) (auto split: if_splits)
      have "want - (moved + length bs) \<le> length (incoming es1)" "moved + length bs \<le> want"
        using 1(5) s(1,2) True by auto
      then show ?thesis using 1(1) [OF True x refl Got bs s(3) [OF 1(3)]] x Got bs True
        by (subst read_loop.simps) simp
    next
      case (ReadFailed e)
      note s = sys_read_failed [OF x [unfolded ReadFailed]]
      then have e: "e = EINTR" "benign es1" "incoming es1 = incoming es" using 1(3) by auto
      then show ?thesis using 1(2) [OF True x refl ReadFailed e(1,2) 1(4)] 1(5) x ReadFailed True
        by (subst read_loop.simps) simp
    qed
  qed
qed

lemma read_exact_complete:
  assumes "benign es" "want \<le> length (incoming es)" "length buf = want"
  shows "\<exists>es'. read_exact want buf es
      = Some (\<lparr>io_status = IoOk, io_error = 0, transferred = want\<rparr>, take want (incoming es), es')
      \<and> benign es' \<and> incoming es' = drop want (incoming es)"
proof -
  obtain buf' es' where r: "read_loop want buf 0 es
      = Some (\<lparr>io_status = IoOk, io_error = 0, transferred = want\<rparr>, buf', es')" "benign es'"
    using read_loop_Ok [OF assms(1), of 0 want buf] assms(2) by auto
  then obtain got where "incoming es = got @ incoming es'" "buf' = store_at buf 0 got" "length got = want"
    using read_loop_sound [OF r(1)] assms(3) by auto
  then show ?thesis using r assms(3) by (auto simp: read_exact_def store_at_def)
qed

text \<open>A stream that ends early is reported as closed, with the number of bytes that arrived.\<close>

lemma read_loop_Eof:
  assumes "benign es" "length (incoming es) < want - moved"
  shows "\<exists>buf'. read_loop want buf moved (es @ Eof # rest)
      = Some (\<lparr>io_status = IoPeerClosed, io_error = 0, transferred = moved + length (incoming es)\<rparr>, buf', Eof # rest)"
  using assms
proof (induction es arbitrary: buf moved)
  case Nil
  then show ?case by (subst read_loop.simps) simp
next
  case (Cons ev es)
  show ?case
  proof (cases ev)
    case (Data bs)
    then have "bs \<noteq> []" "benign es" "length (incoming es) < want - (moved + length bs)" "length bs \<le> want - moved"
      using Cons.prems by auto
    then show ?thesis
      using Cons.IH [of "moved + length bs" "store_at buf moved bs"] Data by (subst read_loop.simps) (auto simp: add.assoc)
  next
    case (ReadErr e)
    then show ?thesis using Cons by (subst read_loop.simps) auto
  qed (use Cons in simp)
qed

text \<open>What has not been looked at does not matter.\<close>

lemma sys_read_append: "sys_read n es = Some (x, es') \<Longrightarrow> sys_read n (es @ t) = Some (x, es' @ t)"
  by (cases "(n, es)" rule: sys_read.cases) (auto split: if_splits)

lemma read_loop_append:
  "read_loop want buf moved es = Some (r, buf', es') \<Longrightarrow>
     read_loop want buf moved (es @ t) = Some (r, buf', es' @ t)"
proof (induction want buf moved es rule: read_loop.induct)
  case (1 want buf moved es)
  note u = 1(3) [unfolded read_loop.simps [of want buf moved es]]
  show ?case
  proof (cases "moved < want")
    case True
    then obtain x es1 where x: "sys_read (want - moved) es = Some (x, es1)"
      using u by (cases "sys_read (want - moved) es") auto
    show ?thesis
      using u True x sys_read_append [OF x, of t] 1(1) [OF True x refl] 1(2) [OF True x refl]
      by (subst read_loop.simps) (auto split: rd_result.splits if_splits)
  next
    case False
    then show ?thesis using u by (subst read_loop.simps) simp
  qed
qed

subsection \<open>Writing\<close>

lemma write_loop_sound:
  assumes "write_loop data moved ws sent = Some (r, ws', sent')" "moved \<le> length data"
  shows "\<exists>k. transferred r = moved + k \<and> transferred r \<le> length data \<and> sent' = sent @ take k (drop moved data)
      \<and> (io_status r = IoOk \<longleftrightarrow> transferred r = length data)"
  using assms
proof (induction data moved ws sent rule: write_loop.induct)
  case (1 data moved sent)
  then show ?case by (intro exI [of _ 0]) (auto split: if_splits)
next
  case (2 data moved k ws sent)
  let ?n = "min k (length data - moved)"
  show ?case
  proof (cases "moved < length data \<and> 0 < ?n")
    case True
    then have "write_loop data (moved + ?n) ws (sent @ take ?n (drop moved data)) = Some (r, ws', sent')"
      using 2(2) by (simp add: Let_def)
    then obtain j where "transferred r = moved + ?n + j" "transferred r \<le> length data"
        "sent' = (sent @ take ?n (drop moved data)) @ take j (drop (moved + ?n) data)"
        "io_status r = IoOk \<longleftrightarrow> transferred r = length data"
      using 2(1) [OF _ refl] True by (metis min.cobounded2 le_diff_conv2 add.commute 2(3))
    moreover have "take (?n + j) (drop moved data) = take ?n (drop moved data) @ take j (drop (moved + ?n) data)"
      unfolding take_add drop_drop by (simp add: add.commute)
    ultimately show ?thesis by (intro exI [of _ "?n + j"]) simp
  next
    case False
    then show ?thesis using 2(2,3) by (intro exI [of _ 0]) (auto split: if_splits)
  qed
next
  case (3 data moved e ws sent)
  then show ?case
    by (cases "moved < length data \<and> e = EINTR") (auto split: if_splits intro!: exI [of _ 0])
qed

text \<open>The bytes a script of \<open>send\<close> outcomes lets through before it fails.\<close>

fun room :: "wr_event list \<Rightarrow> nat" where
  "room [] = 0"
| "room (Accept k # ws) = (if k = 0 then 0 else k + room ws)"
| "room (WriteErr e # ws) = (if e = EINTR then room ws else 0)"

lemma write_loop_Ok:
  assumes "length data - moved \<le> room ws"
  shows "\<exists>r ws' sent'. write_loop data moved ws sent = Some (r, ws', sent')
      \<and> (moved \<le> length data \<longrightarrow> r = \<lparr>io_status = IoOk, io_error = 0, transferred = length data\<rparr>)"
  using assms
proof (induction data moved ws sent rule: write_loop.induct)
  case (2 data moved k ws sent)
  have "length data - (moved + min k (length data - moved)) \<le> room ws"
    if "0 < k" using 2(2) that by (auto split: if_splits)
  then show ?case using 2 by (auto simp: Let_def split: if_splits)
qed (auto split: if_splits)

lemma write_all_sound:
  assumes "write_all data s = Some (r, s')"
  shows "transferred r \<le> length data" "sk_sent s' = sk_sent s @ take (transferred r) data" "sk_in s' = sk_in s"
    "io_status r = IoOk \<longleftrightarrow> transferred r = length data"
proof -
  obtain ws sent where w: "write_loop data 0 (sk_out s) (sk_sent s) = Some (r, ws, sent)"
      "s' = s\<lparr>sk_out := ws, sk_sent := sent\<rparr>"
    using assms by (auto simp: write_all_def split: option.splits)
  then show "transferred r \<le> length data" "sk_sent s' = sk_sent s @ take (transferred r) data" "sk_in s' = sk_in s"
    "io_status r = IoOk \<longleftrightarrow> transferred r = length data"
    using write_loop_sound [OF w(1)] by auto
qed

lemma write_all_complete:
  assumes "length data \<le> room (sk_out s)"
  shows "\<exists>s'. write_all data s = Some (\<lparr>io_status = IoOk, io_error = 0, transferred = length data\<rparr>, s')
      \<and> sk_sent s' = sk_sent s @ data \<and> sk_in s' = sk_in s"
proof -
  obtain r ws' sent' where w: "write_loop data 0 (sk_out s) (sk_sent s) = Some (r, ws', sent')"
      "r = \<lparr>io_status = IoOk, io_error = 0, transferred = length data\<rparr>"
    using write_loop_Ok [of data 0 "sk_out s" "sk_sent s"] assms by auto
  then have "write_all data s = Some (r, s\<lparr>sk_out := ws', sk_sent := sent'\<rparr>)" by (simp add: write_all_def)
  from write_all_sound [OF this] this w(2) show ?thesis by auto
qed

end
