(* ===== verification/Framing.thy ===== *)
theory Framing
  imports Io Wire Message
begin

section \<open>Frames (include/lrd/proto/framing.hpp, src/proto/framing.cpp)\<close>

text \<open>
  A frame is a 4-byte big-endian length and a body of that many bytes. \<open>read_frame\<close> validates the
  length before it resizes the body, \<open>write_frame\<close> copies a finished body behind its prefix, and
  \<open>write_message\<close> lets a codec append behind a placeholder that \<open>write_prefixed\<close> patches. The results
  are None when a transfer blocks for ever.
\<close>

datatype FrameStatus = FrOk | FrPeerClosed | FrTruncated | FrOversized | FrTimedOut | FrIoError

record FrameResult =
  fr_status :: FrameStatus
  fr_io_error :: int
  fr_length :: u32

definition frame_ok :: "FrameResult \<Rightarrow> bool" where
  "frame_ok r \<longleftrightarrow> fr_status r = FrOk"

fun frame_status_to_string :: "FrameStatus \<Rightarrow> cstring" where
  "frame_status_to_string FrOk = lit ''Ok''"
| "frame_status_to_string FrPeerClosed = lit ''PeerClosed''"
| "frame_status_to_string FrTruncated = lit ''Truncated''"
| "frame_status_to_string FrOversized = lit ''Oversized''"
| "frame_status_to_string FrTimedOut = lit ''TimedOut''"
| "frame_status_to_string FrIoError = lit ''IoError''"

definition load_be_u32 :: "bytes \<Rightarrow> u32" where
  "load_be_u32 bs = foldl (\<lambda>v b. push_bit 8 v OR ucast b) 0 bs"

definition from_io :: "IoResult \<Rightarrow> FrameResult" where
  "from_io io =
     (case io_status io of
        IoOk \<Rightarrow> \<lparr>fr_status = FrOk, fr_io_error = 0, fr_length = 0\<rparr>
      | IoPeerClosed \<Rightarrow>
          \<lparr>fr_status = (if transferred io = 0 then FrPeerClosed else FrTruncated), fr_io_error = 0, fr_length = 0\<rparr>
      | IoTimedOut \<Rightarrow> \<lparr>fr_status = FrTimedOut, fr_io_error = io_error io, fr_length = 0\<rparr>
      | IoError \<Rightarrow> \<lparr>fr_status = FrIoError, fr_io_error = io_error io, fr_length = 0\<rparr>)"

definition resize :: "bytes \<Rightarrow> nat \<Rightarrow> bytes" where
  "resize buf n = take n buf @ replicate (n - length buf) 0"

definition read_frame :: "socket \<Rightarrow> bytes \<Rightarrow> (FrameResult \<times> bytes \<times> socket) option" where
  "read_frame stream body =
     (case read_exact kLengthPrefixSize (replicate kLengthPrefixSize 0) (sk_in stream) of
        None \<Rightarrow> None
      | Some (header_io, prefix, es) \<Rightarrow>
          let stream = stream\<lparr>sk_in := es\<rparr> in
          if \<not> io_ok header_io then Some (from_io header_io, body, stream)
          else
            let len = load_be_u32 prefix in
            if len < kMinFrameSize \<or> kMaxFrameSize < len
            then Some (\<lparr>fr_status = FrOversized, fr_io_error = 0, fr_length = len\<rparr>, body, stream)
            else
              let body = resize body (unat len) in
              case read_exact (length body) body (sk_in stream) of
                None \<Rightarrow> None
              | Some (body_io, body, es) \<Rightarrow>
                  let stream = stream\<lparr>sk_in := es\<rparr> in
                  if \<not> io_ok body_io
                  then let result = from_io body_io in
                       Some (if fr_status result = FrPeerClosed then result\<lparr>fr_status := FrTruncated\<rparr> else result,
                             body, stream)
                  else Some (\<lparr>fr_status = FrOk, fr_io_error = 0, fr_length = len\<rparr>, body, stream))"

text \<open>The size checks shared by the writers; the cast of a size to 32 bits truncates.\<close>

definition bad_size :: "nat \<Rightarrow> bool" where
  "bad_size n \<longleftrightarrow> n < unat kMinFrameSize \<or> unat kMaxFrameSize < n"

definition oversized :: "nat \<Rightarrow> FrameResult" where
  "oversized n = \<lparr>fr_status = FrOversized, fr_io_error = 0, fr_length = word_of_nat n\<rparr>"

definition prefix_byte :: "u32 \<Rightarrow> nat \<Rightarrow> byte" where
  "prefix_byte len shift = ucast (drop_bit shift len AND 0xFF)"

definition send_framed :: "socket \<Rightarrow> u32 \<Rightarrow> bytes \<Rightarrow> (FrameResult \<times> socket) option" where
  "send_framed stream len framed =
     (case write_all framed stream of
        None \<Rightarrow> None
      | Some (io, stream) \<Rightarrow> Some ((from_io io)\<lparr>fr_length := len\<rparr>, stream))"

definition write_prefixed :: "socket \<Rightarrow> bytes \<Rightarrow> (FrameResult \<times> bytes \<times> socket) option" where
  "write_prefixed stream framed =
     (let body_size = length framed - kLengthPrefixSize in
      if bad_size body_size then Some (oversized body_size, framed, stream)
      else
        let len = word_of_nat body_size;
            framed = fold (\<lambda>i buf. buf[i := prefix_byte len ((kLengthPrefixSize - 1 - i) * 8)])
                       [0..<kLengthPrefixSize] framed
        in map_option (\<lambda>(r, stream). (r, framed, stream)) (send_framed stream len framed))"

definition write_frame :: "socket \<Rightarrow> bytes \<Rightarrow> (FrameResult \<times> socket) option" where
  "write_frame stream body =
     (if bad_size (length body) then Some (oversized (length body), stream)
      else
        let len = word_of_nat (length body);
            framed = map (prefix_byte len) [24, 16, 8, 0] @ body
        in send_framed stream len framed)"

definition write_message ::
  "('m \<Rightarrow> bytes \<Rightarrow> bytes) \<Rightarrow> socket \<Rightarrow> 'm \<Rightarrow> bytes \<Rightarrow> (FrameResult \<times> bytes \<times> socket) option" where
  "write_message encode stream message scratch =
     (let scratch = resize [] kLengthPrefixSize;
          scratch = encode message scratch
      in write_prefixed stream scratch)"

subsection \<open>The prefix\<close>

definition frame :: "bytes \<Rightarrow> bytes" where
  "frame body = be 4 (word_of_nat (length body) :: u32) @ body"

lemma be4: "be 4 (len :: u32) = map (prefix_byte len) [24, 16, 8, 0]"
  by (simp add: be_def append_be_def prefix_byte_def upt_rec)

lemma load_be_u32_be: "load_be_u32 (be 4 len) = len"
  using load_be_be [of 4 "[]" len "[]"]
  by (simp add: load_be_u32_def load_be_def be4 upt_rec)

lemma size_limits:
  assumes "\<not> bad_size n"
  shows "unat (word_of_nat n :: u32) = n" "\<not> (word_of_nat n :: u32) < kMinFrameSize" "\<not> kMaxFrameSize < (word_of_nat n :: u32)"
proof -
  have n: "1 \<le> n" "n \<le> 1048576" using assms by (auto simp: bad_size_def limit_defs)
  show u: "unat (word_of_nat n :: u32) = n" using n by (simp add: unat_of_nat take_bit_nat_eq_self)
  show "\<not> (word_of_nat n :: u32) < kMinFrameSize" "\<not> kMaxFrameSize < (word_of_nat n :: u32)"
    using n u by (auto simp: word_less_nat_alt limit_defs)
qed

lemma patch_prefix:
  "fold (\<lambda>i buf. buf[i := prefix_byte len ((kLengthPrefixSize - 1 - i) * 8)]) [0..<kLengthPrefixSize]
     ([a, b, c, d] @ body) = be 4 len @ body"
  by (simp add: be4 kLengthPrefixSize_def upt_rec)

lemma placeholder: "resize [] kLengthPrefixSize = [0, 0, 0, 0]"
  by (simp add: resize_def kLengthPrefixSize_def numeral_eq_Suc)

lemma write_message_eq:
  assumes "\<And>out. encode m out = out @ body"
  shows "write_message encode s m scratch =
     (if bad_size (length body) then Some (oversized (length body), [0, 0, 0, 0] @ body, s)
      else map_option (\<lambda>(r, s). (r, frame body, s)) (send_framed s (word_of_nat (length body)) (frame body)))"
proof -
  have "length ([0, 0, 0, 0] @ body) - kLengthPrefixSize = length body" by (simp add: kLengthPrefixSize_def)
  then show ?thesis
    unfolding write_message_def placeholder assms write_prefixed_def Let_def patch_prefix frame_def by simp
qed

lemma write_frame_send:
  "\<not> bad_size (length body) \<Longrightarrow> write_frame s body = send_framed s (word_of_nat (length body)) (frame body)"
  by (simp add: write_frame_def be4 frame_def Let_def)

lemma send_framed_Ok:
  assumes "send_framed s len framed = Some (r, s')" "frame_ok r"
  shows "sk_sent s' = sk_sent s @ framed" "sk_in s' = sk_in s" "fr_length r = len"
proof -
  obtain io where io: "write_all framed s = Some (io, s')" "r = (from_io io)\<lparr>fr_length := len\<rparr>"
    using assms(1) by (auto simp: send_framed_def split: option.splits)
  then have "io_status io = IoOk"
    using assms(2) by (auto simp: frame_ok_def from_io_def split: IoStatus.splits if_splits)
  then show "sk_sent s' = sk_sent s @ framed" "sk_in s' = sk_in s" "fr_length r = len"
    using write_all_sound [OF io(1)] io(2) by simp_all
qed

subsection \<open>Reading\<close>

lemma length_resize [simp]: "length (resize buf n) = n"
  by (simp add: resize_def)

lemma read_prefix:
  assumes "benign (sk_in s)" "incoming (sk_in s) = be 4 len @ rest"
  obtains es where "read_exact kLengthPrefixSize (replicate kLengthPrefixSize 0) (sk_in s)
      = Some (\<lparr>io_status = IoOk, io_error = 0, transferred = kLengthPrefixSize\<rparr>, be 4 len, es)"
    "benign es" "incoming es = rest"
  using read_exact_complete [OF assms(1), of kLengthPrefixSize "replicate kLengthPrefixSize 0"] assms(2)
  by (auto simp: kLengthPrefixSize_def)

lemma read_frame_Ok:
  assumes "benign (sk_in s)" "incoming (sk_in s) = frame body @ rest" "\<not> bad_size (length body)"
  shows "\<exists>s'. read_frame s buf
        = Some (\<lparr>fr_status = FrOk, fr_io_error = 0, fr_length = word_of_nat (length body)\<rparr>, body, s')
      \<and> benign (sk_in s') \<and> incoming (sk_in s') = rest \<and> sk_out s' = sk_out s \<and> sk_sent s' = sk_sent s"
proof -
  let ?len = "word_of_nat (length body) :: u32"
  obtain es where p: "read_exact kLengthPrefixSize (replicate kLengthPrefixSize 0) (sk_in s)
      = Some (\<lparr>io_status = IoOk, io_error = 0, transferred = kLengthPrefixSize\<rparr>, be 4 ?len, es)"
    "benign es" "incoming es = body @ rest"
    using read_prefix [OF assms(1), of ?len "body @ rest"] assms(2) by (auto simp: frame_def)
  obtain es' where "read_exact (length body) (resize buf (length body)) es
      = Some (\<lparr>io_status = IoOk, io_error = 0, transferred = length body\<rparr>, body, es')"
    "benign es'" "incoming es' = rest"
    using read_exact_complete [OF p(2), of "length body" "resize buf (length body)"] p(3) by auto
  then show ?thesis
    using p(1) size_limits [OF assms(3)]
    by (simp add: read_frame_def io_ok_def load_be_u32_be Let_def)
qed

lemma read_frame_prefix:
  assumes "benign es" "incoming es = be 4 len @ rest"
  shows "\<exists>es'. read_exact kLengthPrefixSize (replicate kLengthPrefixSize 0) (es @ t)
      = Some (\<lparr>io_status = IoOk, io_error = 0, transferred = kLengthPrefixSize\<rparr>, be 4 len, es' @ t)
      \<and> benign es' \<and> incoming es' = rest"
proof -
  obtain es' where e: "read_exact kLengthPrefixSize (replicate kLengthPrefixSize 0) es
      = Some (\<lparr>io_status = IoOk, io_error = 0, transferred = kLengthPrefixSize\<rparr>, be 4 len, es')"
    "benign es'" "incoming es' = rest"
    using read_exact_complete [OF assms(1), of kLengthPrefixSize "replicate kLengthPrefixSize 0"] assms(2)
    by (auto simp: kLengthPrefixSize_def)
  then show ?thesis using read_loop_append [of _ _ 0] unfolding read_exact_def by blast
qed

subsection \<open>Properties\<close>

text \<open>
  C20. A message that is written as a frame is read back. When \<open>write_message\<close> succeeds, what went out
  is a sequence of bytes from which a peer, however its reads are fragmented or interrupted, reads
  exactly the encoded body, leaving the bytes that follow it in the stream.
\<close>

theorem frame_roundtrip:
  assumes "write_message encode s m scratch = Some (r, scratch', s')" "frame_ok r"
    and "\<And>out. encode m out = out @ body"
  shows "\<exists>wire. sk_sent s' = sk_sent s @ wire
    \<and> (\<forall>peer buf rest. benign (sk_in peer) \<and> incoming (sk_in peer) = wire @ rest \<longrightarrow>
         (\<exists>peer'. read_frame peer buf
             = Some (\<lparr>fr_status = FrOk, fr_io_error = 0, fr_length = word_of_nat (length body)\<rparr>, body, peer')
           \<and> benign (sk_in peer') \<and> incoming (sk_in peer') = rest))"
proof -
  have ok: "\<not> bad_size (length body)"
    using assms(1,2) by (auto simp: write_message_eq [of encode m body, OF assms(3)] oversized_def frame_ok_def)
  then have "send_framed s (word_of_nat (length body)) (frame body) = Some (r, s')"
    using assms(1) by (auto simp: write_message_eq [of encode m body, OF assms(3)])
  from send_framed_Ok(1) [OF this assms(2)] show ?thesis
    using read_frame_Ok [OF _ _ ok] by blast
qed

text \<open>
  The zero-copy \<open>write_message\<close> puts the same bytes on the wire and returns the same result as
  encoding the message and handing it to \<open>write_frame\<close>, errors included.
\<close>

lemma write_message_is_write_frame:
  assumes "\<And>out. encode m out = out @ body"
  shows "map_option (\<lambda>(r, scratch', s'). (r, s')) (write_message encode s m scratch) = write_frame s body"
proof (cases "bad_size (length body)")
  case True
  then show ?thesis by (simp add: write_message_eq [of encode m body, OF assms] write_frame_def)
next
  case False
  then show ?thesis
    by (simp add: write_message_eq [of encode m body, OF assms] write_frame_send option.map_comp comp_def case_prod_beta option.map_ident)
qed

text \<open>
  C22. A length of zero or above the frame limit is refused before anything is allocated: the body
  buffer is unchanged and only the four bytes of the prefix have been consumed, whatever follows.
\<close>

theorem oversized_frame_refused:
  assumes "benign es" "incoming es = be 4 len @ rest" "len = 0 \<or> kMaxFrameSize < len" "sk_in s = es @ later"
  shows "\<exists>es'. read_frame s buf
      = Some (\<lparr>fr_status = FrOversized, fr_io_error = 0, fr_length = len\<rparr>, buf, s\<lparr>sk_in := es' @ later\<rparr>)
      \<and> benign es' \<and> incoming es' = rest"
proof -
  have bad: "len < kMinFrameSize \<or> kMaxFrameSize < len" using assms(3) by (auto simp: limit_defs)
  obtain es' where "read_exact kLengthPrefixSize (replicate kLengthPrefixSize 0) (sk_in s)
      = Some (\<lparr>io_status = IoOk, io_error = 0, transferred = kLengthPrefixSize\<rparr>, be 4 len, es' @ later)"
    "benign es'" "incoming es' = rest"
    using read_frame_prefix [OF assms(1,2), of later] assms(4) by auto
  then show ?thesis using bad by (auto simp: read_frame_def io_ok_def load_be_u32_be)
qed

text \<open>
  C21. A stream that ends before its frame is complete is never taken for a frame: a clean end before
  the first byte is PeerClosed, an end anywhere inside the prefix or the body is Truncated.
\<close>

theorem truncated_frame_detected:
  assumes "benign es" "incoming es @ missing = frame body" "missing \<noteq> []" "\<not> bad_size (length body)"
    and "sk_in s = es @ Eof # later"
  shows "\<exists>buf' s'. read_frame s buf
      = Some (\<lparr>fr_status = (if incoming es = [] then FrPeerClosed else FrTruncated),
               fr_io_error = 0, fr_length = 0\<rparr>, buf', s')"
proof (cases "length (incoming es) < kLengthPrefixSize")
  case True
  then show ?thesis
    using read_loop_Eof [OF assms(1), of kLengthPrefixSize 0 "replicate kLengthPrefixSize 0" later] assms(5)
    by (auto simp: read_frame_def read_exact_def io_ok_def from_io_def)
next
  case False
  let ?len = "word_of_nat (length body) :: u32"
  have "take 4 (incoming es) = be 4 ?len" "drop 4 (incoming es) @ missing = body"
    using assms(2) False by (auto simp: frame_def kLengthPrefixSize_def append_eq_append_conv_if split: if_splits)
  then have inc: "incoming es = be 4 ?len @ drop 4 (incoming es)" by (metis append_take_drop_id)
  obtain es' where p: "read_exact kLengthPrefixSize (replicate kLengthPrefixSize 0) (sk_in s)
      = Some (\<lparr>io_status = IoOk, io_error = 0, transferred = kLengthPrefixSize\<rparr>, be 4 ?len, es' @ Eof # later)"
    "benign es'" "incoming es' = drop 4 (incoming es)"
    using read_frame_prefix [OF assms(1) inc, of "Eof # later"] assms(5) by auto
  have short: "length (incoming es') < length body"
    using \<open>drop 4 (incoming es) @ missing = body\<close> assms(3) p(3) by auto
  show ?thesis
    using p(1) size_limits [OF assms(4)] False
      read_loop_Eof [OF p(2), of "length body" 0 "resize buf (length body)" later] short
    by (auto simp: read_frame_def read_exact_def io_ok_def from_io_def load_be_u32_be Let_def kLengthPrefixSize_def)
qed

subsection \<open>Instances\<close>

definition demo_encode :: "unit \<Rightarrow> bytes \<Rightarrow> bytes" where
  "demo_encode m out = out @ [7, 8]"

definition demo_socket :: socket where
  "demo_socket = \<lparr>sk_in = [], sk_out = [Accept 3, WriteErr EINTR, Accept 10], sk_sent = []\<rparr>"

definition demo_sent :: socket where
  "demo_sent = \<lparr>sk_in = [], sk_out = [], sk_sent = [0, 0, 0, 2, 7, 8]\<rparr>"

theorem frame_roundtrip_witness:
  "\<exists>wire. sk_sent demo_sent = sk_sent demo_socket @ wire
    \<and> (\<forall>peer buf rest. benign (sk_in peer) \<and> incoming (sk_in peer) = wire @ rest \<longrightarrow>
         (\<exists>peer'. read_frame peer buf
             = Some (\<lparr>fr_status = FrOk, fr_io_error = 0, fr_length = word_of_nat (length [7 :: byte, 8])\<rparr>, [7, 8], peer')
           \<and> benign (sk_in peer') \<and> incoming (sk_in peer') = rest))"
proof (rule frame_roundtrip)
  show "write_message demo_encode demo_socket () []
      = Some (\<lparr>fr_status = FrOk, fr_io_error = 0, fr_length = 2\<rparr>, [0, 0, 0, 2, 7, 8], demo_sent)"
  proof -
    have "frame [7, 8] = [0, 0, 0, 2, 7, 8]" by code_simp
    moreover have "send_framed demo_socket 2 [0, 0, 0, 2, 7, 8]
        = Some (\<lparr>fr_status = FrOk, fr_io_error = 0, fr_length = 2\<rparr>, demo_sent)" by code_simp
    moreover have "demo_encode () out = out @ [7, 8]" for out by (simp add: demo_encode_def)
    ultimately show ?thesis
      by (simp add: write_message_eq [of demo_encode "()" "[7, 8]"] bad_size_def limit_defs)
  qed
qed (simp_all add: frame_ok_def demo_encode_def)

theorem oversized_frame_refused_witness:
  "\<exists>es'. read_frame \<lparr>sk_in = [Data [0xFF, 0xFF], ReadErr EINTR, Data [0xFF, 0xFF, 1]] @ [Eof], sk_out = [], sk_sent = []\<rparr> [5]
      = Some (\<lparr>fr_status = FrOversized, fr_io_error = 0, fr_length = 0xFFFFFFFF\<rparr>, [5],
          \<lparr>sk_in = [Data [0xFF, 0xFF], ReadErr EINTR, Data [0xFF, 0xFF, 1]] @ [Eof], sk_out = [], sk_sent = []\<rparr>
            \<lparr>sk_in := es' @ [Eof]\<rparr>)
      \<and> benign es' \<and> incoming es' = [1]"
proof (rule oversized_frame_refused)
  show "incoming [Data [0xFF, 0xFF], ReadErr EINTR, Data [0xFF, 0xFF, 1]] = be 4 (0xFFFFFFFF :: u32) @ [1]"
    by code_simp
  show "(0xFFFFFFFF :: u32) = 0 \<or> kMaxFrameSize < 0xFFFFFFFF" by code_simp
qed simp_all

theorem truncated_frame_detected_witness:
  "\<exists>buf' s'. read_frame \<lparr>sk_in = [Data [0, 0], Data [0, 2, 7]] @ Eof # [], sk_out = [], sk_sent = []\<rparr> []
      = Some (\<lparr>fr_status = (if incoming [Data [0, 0], Data [0, 2, 7]] = [] then FrPeerClosed else FrTruncated),
               fr_io_error = 0, fr_length = 0\<rparr>, buf', s')"
proof (rule truncated_frame_detected [where missing = "[8]" and body = "[7, 8]"])
  show "incoming [Data [0, 0], Data [0, 2, 7]] @ [8] = frame [7, 8]" by code_simp
  show "\<not> bad_size (length [7 :: byte, 8])" by (simp add: bad_size_def limit_defs)
qed simp_all

end
