(* ===== verification/Std_List.thy ===== *)
theory Std_List
  imports Prelude
begin

section \<open>std::list with stable iterators\<close>

text \<open>
  \<open>LruCache\<close> and the recency list of \<open>ExposureStore\<close> keep iterators into a \<open>std::list\<close> in an
  unordered map. The model gives every node an identity that no later node reuses: an iterator
  is that identity, so an iterator whose node was erased is one that the list no longer holds.
  Dereferencing, splicing or erasing such an iterator is undefined in C++; here it finds nothing,
  and the invariant \<open>linked\<close> shows that it never happens.

  The lemmas describe the effect of each operation on the list of elements together with the
  index that maps keys to iterators.
\<close>

record 'a std_list =
  cells :: "(nat \<times> 'a) list"
  fresh :: nat

definition sl_nil :: "'a std_list" where
  "sl_nil = \<lparr>cells = [], fresh = 0\<rparr>"

definition sl_list :: "'a std_list \<Rightarrow> 'a list" where
  "sl_list l = map snd (cells l)"

definition sl_push_front :: "'a \<Rightarrow> 'a std_list \<Rightarrow> 'a std_list" where
  "sl_push_front x l = l\<lparr>cells := (fresh l, x) # cells l, fresh := Suc (fresh l)\<rparr>"

definition sl_begin :: "'a std_list \<Rightarrow> nat" where
  "sl_begin l = (case cells l of [] \<Rightarrow> fresh l | c # cs \<Rightarrow> fst c)"

definition sl_deref :: "nat \<Rightarrow> 'a std_list \<Rightarrow> 'a option" where
  "sl_deref i l = map_of (cells l) i"

definition sl_splice_begin :: "nat \<Rightarrow> 'a std_list \<Rightarrow> 'a std_list" where
  "sl_splice_begin i l =
     (case map_of (cells l) i of None \<Rightarrow> l
      | Some x \<Rightarrow> l\<lparr>cells := (i, x) # AList.delete i (cells l)\<rparr>)"

definition sl_modify :: "nat \<Rightarrow> ('a \<Rightarrow> 'a) \<Rightarrow> 'a std_list \<Rightarrow> 'a std_list" where
  "sl_modify i f l = l\<lparr>cells := map (\<lambda>(j, y). (j, if j = i then f y else y)) (cells l)\<rparr>"

definition sl_erase :: "nat \<Rightarrow> 'a std_list \<Rightarrow> 'a std_list" where
  "sl_erase i l = l\<lparr>cells := AList.delete i (cells l)\<rparr>"

definition sl_pop_back :: "'a std_list \<Rightarrow> 'a std_list" where
  "sl_pop_back l = l\<lparr>cells := butlast (cells l)\<rparr>"

definition sl_clear :: "'a std_list \<Rightarrow> 'a std_list" where
  "sl_clear l = l\<lparr>cells := []\<rparr>"

definition sl_wf :: "'a std_list \<Rightarrow> bool" where
  "sl_wf l \<longleftrightarrow> distinct (map fst (cells l)) \<and> (\<forall>c\<in>set (cells l). fst c < fresh l)"

text \<open>
  \<open>linked key l idx\<close>: the index has exactly one iterator for each element, under the element's
  key, and no two elements share a key.
\<close>

definition linked :: "('a \<Rightarrow> 'k) \<Rightarrow> 'a std_list \<Rightarrow> ('k, nat) umap \<Rightarrow> bool" where
  "linked key l idx \<longleftrightarrow>
     sl_wf l \<and> umap_wf idx \<and> distinct (map key (sl_list l)) \<and>
     set idx = set (map (\<lambda>(i, x). (key x, i)) (cells l))"

lemmas sl_defs = sl_list_def sl_push_front_def sl_begin_def sl_deref_def sl_splice_begin_def
  sl_modify_def sl_erase_def sl_pop_back_def sl_clear_def

lemma linked_nil [simp]: "linked key sl_nil []"
  by (simp add: linked_def sl_nil_def sl_wf_def sl_list_def)

lemma sl_list_nil [simp]: "sl_list sl_nil = []"
  by (simp add: sl_nil_def sl_list_def)

lemma linked_clear: "linked key l idx \<Longrightarrow> linked key (sl_clear l) []"
  by (simp add: linked_def sl_clear_def sl_wf_def sl_list_def)

lemma sl_list_clear [simp]: "sl_list (sl_clear l) = []"
  by (simp add: sl_clear_def sl_list_def)

lemma linked_distinct: "linked key l idx \<Longrightarrow> distinct (map key (sl_list l))"
  by (simp add: linked_def)

lemma linked_keys: "linked key l idx \<Longrightarrow> fst ` set idx = key ` set (sl_list l)"
  by (force simp: linked_def sl_list_def image_iff)

lemma linked_size:
  assumes "linked key l idx"
  shows "length idx = length (sl_list l)"
proof -
  have "card (fst ` set idx) = length idx"
    using assms by (metis distinct_card length_map linked_def set_map)
  moreover have "card (key ` set (sl_list l)) = length (sl_list l)"
    using assms by (metis distinct_card length_map linked_def set_map)
  ultimately show ?thesis using linked_keys [OF assms] by simp
qed

lemma linked_None:
  "linked key l idx \<Longrightarrow> map_of idx k = None \<longleftrightarrow> k \<notin> key ` set (sl_list l)"
  by (simp add: map_of_eq_None_iff linked_keys)

lemma linked_Some:
  assumes "linked key l idx" and "map_of idx k = Some i"
  obtains x where "map_of (cells l) i = Some x" and "key x = k" and "x \<in> set (sl_list l)"
proof -
  have "(k, i) \<in> set idx" using assms(2) by (rule map_of_SomeD)
  then obtain x where x: "(i, x) \<in> set (cells l)" "key x = k"
    using assms(1) by (auto simp: linked_def)
  moreover have "map_of (cells l) i = Some x"
    using x(1) assms(1) by (simp add: linked_def sl_wf_def)
  ultimately show ?thesis using that by (force simp: sl_list_def)
qed

text \<open>The cell an index entry names is the only one with that key.\<close>

lemma linked_cell_iff:
  assumes "linked key l idx" and "map_of idx k = Some i" and "c \<in> set (cells l)"
  shows "fst c = i \<longleftrightarrow> key (snd c) = k"
proof -
  have "(key (snd c), fst c) \<in> set idx"
    using assms(1,3) by (force simp: linked_def)
  then have c: "map_of idx (key (snd c)) = Some (fst c)"
    using assms(1) by (simp add: linked_def)
  obtain x where x: "map_of (cells l) i = Some x" "key x = k"
    using linked_Some [OF assms(1,2)] by blast
  have "map_of (cells l) (fst c) = Some (snd c)"
    using assms(1,3) by (simp add: linked_def sl_wf_def)
  with c x assms(2) show ?thesis by auto
qed

lemma linked_delete_cells:
  assumes "linked key l idx" and "map_of idx k = Some i"
  shows "map snd (AList.delete i (cells l)) = filter (\<lambda>y. key y \<noteq> k) (sl_list l)"
proof -
  have "filter (\<lambda>c. fst c \<noteq> i) (cells l) = filter (\<lambda>c. key (snd c) \<noteq> k) (cells l)"
    using linked_cell_iff [OF assms] by (intro filter_cong) auto
  moreover have "map snd (filter (\<lambda>c. key (snd c) \<noteq> k) (cells l))
      = filter (\<lambda>y. key y \<noteq> k) (map snd (cells l))"
    by (simp add: filter_map comp_def)
  ultimately show ?thesis
    by (simp add: umap_delete_filter sl_list_def)
qed

lemma linked_push_front:
  assumes "linked key l idx" and "map_of idx (key x) = None"
  shows "linked key (sl_push_front x l) ((key x, sl_begin (sl_push_front x l)) # idx)"
    and "sl_list (sl_push_front x l) = x # sl_list l"
  using assms linked_None [OF assms(1), of "key x"]
  by (auto simp: linked_def sl_wf_def sl_defs map_of_eq_None_iff image_iff)

lemma linked_splice:
  assumes "linked key l idx" and "map_of idx k = Some i" and "map_of (cells l) i = Some x"
  shows "linked key (sl_splice_begin i l) idx"
    and "sl_list (sl_splice_begin i l) = x # filter (\<lambda>y. key y \<noteq> k) (sl_list l)"
proof -
  show l: "sl_list (sl_splice_begin i l) = x # filter (\<lambda>y. key y \<noteq> k) (sl_list l)"
    using linked_delete_cells [OF assms(1,2)] assms(3) by (simp add: sl_defs)
  have kx: "key x = k"
    using linked_Some [OF assms(1,2)] assms(3) by (metis option.inject)
  have u: "c = (i, x)" if c: "c \<in> set (cells l)" "fst c = i" for c
  proof -
    have "map_of (cells l) (fst c) = Some (snd c)"
      using c(1) assms(1) by (simp add: linked_def sl_wf_def)
    with c(2) assms(3) show ?thesis by (simp add: prod_eq_iff)
  qed
  have "insert (i, x) (set (AList.delete i (cells l))) = set (cells l)"
    unfolding umap_delete_filter set_filter using u map_of_SomeD [OF assms(3)] by blast
  then have s: "set (cells (sl_splice_begin i l)) = set (cells l)"
    using assms(3) by (simp add: sl_defs)
  have "distinct (map fst (cells (sl_splice_begin i l)))"
    using assms(1,3) by (auto simp: sl_defs linked_def sl_wf_def umap_delete_filter distinct_map_filter dest: map_of_SomeD)
  moreover have "fresh (sl_splice_begin i l) = fresh l" using assms(3) by (simp add: sl_defs)
  moreover have "distinct (map key (sl_list (sl_splice_begin i l)))"
    unfolding l using linked_distinct [OF assms(1)] kx by (auto simp: distinct_map_filter)
  ultimately show "linked key (sl_splice_begin i l) idx"
    using assms(1) s by (simp add: linked_def sl_wf_def)
qed

lemma linked_erase:
  assumes "linked key l idx" and "map_of idx k = Some i"
  shows "linked key (sl_erase i l) (AList.delete k idx)"
    and "sl_list (sl_erase i l) = filter (\<lambda>y. key y \<noteq> k) (sl_list l)"
proof -
  show l: "sl_list (sl_erase i l) = filter (\<lambda>y. key y \<noteq> k) (sl_list l)"
    using linked_delete_cells [OF assms] by (simp add: sl_defs)
  have "set (AList.delete k idx) = set (map (\<lambda>(i, x). (key x, i)) (cells (sl_erase i l)))"
    using assms(1) linked_cell_iff [OF assms]
    by (fastforce simp: umap_delete_filter sl_erase_def linked_def)
  moreover have "sl_wf (sl_erase i l)"
    using assms(1) by (auto simp: linked_def sl_wf_def sl_erase_def umap_delete_filter distinct_map_filter)
  ultimately show "linked key (sl_erase i l) (AList.delete k idx)"
    using assms(1) l by (simp add: linked_def distinct_delete distinct_map_filter)
qed

lemma linked_pop_back:
  assumes "linked key l idx" and "cells l \<noteq> []"
  shows "linked key (sl_pop_back l) (AList.delete (key (snd (last (cells l)))) idx)"
    and "sl_list (sl_pop_back l) = butlast (sl_list l)"
proof -
  show "sl_list (sl_pop_back l) = butlast (sl_list l)" by (simp add: sl_defs map_butlast)
  obtain i x where ix: "last (cells l) = (i, x)" by (cases "last (cells l)")
  have c: "cells l = butlast (cells l) @ [(i, x)]" using assms(2) ix by (metis append_butlast_last_id)
  have "(i, x) \<in> set (cells l)" using assms(2) ix by (metis last_in_set)
  then have "(key x, i) \<in> set idx" using assms(1) by (force simp: linked_def)
  then have "map_of idx (key x) = Some i" using assms(1) by (simp add: linked_def)
  note e = linked_erase [OF assms(1) this]
  have "AList.delete i (cells l) = butlast (cells l)"
  proof -
    have "distinct (map fst (butlast (cells l) @ [(i, x)]))"
      using assms(1) c by (metis linked_def sl_wf_def)
    then have "filter (\<lambda>p. fst p \<noteq> i) (butlast (cells l) @ [(i, x)]) = butlast (cells l)"
      by (force simp: filter_id_conv)
    with c show ?thesis unfolding umap_delete_filter by metis
  qed
  then have "sl_erase i l = sl_pop_back l" by (simp add: sl_defs)
  with e(1) ix show "linked key (sl_pop_back l) (AList.delete (key (snd (last (cells l)))) idx)"
    by simp
qed

lemma linked_modify:
  assumes "linked key l idx" and "map_of idx k = Some i" and "\<And>y. key (f y) = key y"
  shows "linked key (sl_modify i f l) idx"
    and "sl_list (sl_modify i f l) = map (\<lambda>y. if key y = k then f y else y) (sl_list l)"
proof -
  have c: "cells (sl_modify i f l)
      = map (\<lambda>c. (fst c, if key (snd c) = k then f (snd c) else snd c)) (cells l)"
    using linked_cell_iff [OF assms(1,2)] by (auto simp: sl_modify_def)
  show l: "sl_list (sl_modify i f l) = map (\<lambda>y. if key y = k then f y else y) (sl_list l)"
    unfolding sl_list_def c by (simp add: comp_def)
  have "map key (sl_list (sl_modify i f l)) = map key (sl_list l)"
    unfolding l using assms(3) by simp
  moreover have "map (\<lambda>(i, x). (key x, i)) (cells (sl_modify i f l))
      = map (\<lambda>(i, x). (key x, i)) (cells l)"
    unfolding c using assms(3) by auto
  moreover have "sl_wf (sl_modify i f l)"
    using assms(1) unfolding linked_def sl_wf_def c by (auto simp: comp_def sl_modify_def)
  ultimately show "linked key (sl_modify i f l) idx" using assms(1) by (simp add: linked_def)
qed

lemma map_of_modify:
  "map_of (map (\<lambda>(j, y). (j, if j = i then f y else y)) cs) i = map_option f (map_of cs i)"
  by (induction cs) auto

lemma deref_modify: "map_of (cells (sl_modify i f l)) i = map_option f (map_of (cells l) i)"
  by (simp add: sl_modify_def map_of_modify)

end
