(* ===== verification/Lru_Cache.thy ===== *)
theory Lru_Cache
  imports Std_List
begin

section \<open>LruCache (include/lrd/cache/lru\_cache.hpp)\<close>

text \<open>
  The fixed-capacity cache: a \<open>std::list\<close> of entries, most recently used first, and an unordered
  map from keys to iterators into it. A value is handed out as a \<open>shared_ptr\<close> to an immutable
  value, modelled by the value itself. The metrics are 64-bit counters.

  \<open>lru_inv\<close> says that the two containers agree and that the capacity is respected; every
  operation keeps it. The abstract cache is the list of key and value pairs in recency order,
  with the textbook operations \<open>spec_get\<close>, \<open>spec_put\<close> and \<open>spec_erase\<close>; the refinement lemmas show that
  the linked structure implements them.
\<close>

subsection \<open>State and operations\<close>

record CacheMetrics =
  hits :: u64
  misses :: u64
  insertions :: u64
  updates :: u64
  evictions :: u64

definition zero_metrics :: CacheMetrics where
  "zero_metrics = \<lparr>hits = 0, misses = 0, insertions = 0, updates = 0, evictions = 0\<rparr>"

record ('k, 'v) Entry =
  ekey :: 'k
  evalue :: 'v

record ('k, 'v) LruCache =
  c_capacity :: nat
  c_entries :: "('k, 'v) Entry std_list"
  c_index :: "('k, nat) umap"
  c_metrics :: CacheMetrics

text \<open>The constructor throws \<open>std::invalid_argument\<close> on capacity zero: \<open>None\<close>.\<close>

definition lru_make :: "nat \<Rightarrow> ('k, 'v) LruCache option" where
  "lru_make capacity =
     (if capacity = 0 then None
      else Some \<lparr>c_capacity = capacity, c_entries = sl_nil, c_index = [], c_metrics = zero_metrics\<rparr>)"

definition lru_get :: "'k \<Rightarrow> ('k, 'v) LruCache \<Rightarrow> 'v option \<times> ('k, 'v) LruCache" where
  "lru_get key c =
     (case map_of (c_index c) key of
        None \<Rightarrow> (None, c\<lparr>c_metrics := (c_metrics c)\<lparr>misses := misses (c_metrics c) + 1\<rparr>\<rparr>)
      | Some it \<Rightarrow>
          let c = c\<lparr>c_metrics := (c_metrics c)\<lparr>hits := hits (c_metrics c) + 1\<rparr>\<rparr>;
              c = c\<lparr>c_entries := sl_splice_begin it (c_entries c)\<rparr>
          in (map_option evalue (sl_deref (sl_begin (c_entries c)) (c_entries c)), c))"

definition lru_peek :: "'k \<Rightarrow> ('k, 'v) LruCache \<Rightarrow> 'v option" where
  "lru_peek key c =
     (case map_of (c_index c) key of
        None \<Rightarrow> None
      | Some it \<Rightarrow> map_option evalue (sl_deref it (c_entries c)))"

definition lru_evict_lru :: "('k, 'v) LruCache \<Rightarrow> ('k, 'v) LruCache" where
  "lru_evict_lru c =
     (if cells (c_entries c) = [] then c
      else
        let c = c\<lparr>c_index := AList.delete (ekey (snd (last (cells (c_entries c))))) (c_index c)\<rparr>;
            c = c\<lparr>c_entries := sl_pop_back (c_entries c)\<rparr>
        in c\<lparr>c_metrics := (c_metrics c)\<lparr>evictions := evictions (c_metrics c) + 1\<rparr>\<rparr>)"

definition lru_put_ptr :: "'k \<Rightarrow> 'v \<Rightarrow> ('k, 'v) LruCache \<Rightarrow> ('k, 'v) LruCache" where
  "lru_put_ptr key v c =
     (case map_of (c_index c) key of
        Some it \<Rightarrow>
          let c = c\<lparr>c_metrics := (c_metrics c)\<lparr>updates := updates (c_metrics c) + 1\<rparr>\<rparr>;
              c = c\<lparr>c_entries := sl_modify it (\<lambda>e. e\<lparr>evalue := v\<rparr>) (c_entries c)\<rparr>
          in c\<lparr>c_entries := sl_splice_begin it (c_entries c)\<rparr>
      | None \<Rightarrow>
          let c = (if c_capacity c \<le> length (c_index c) then lru_evict_lru c else c);
              c = c\<lparr>c_entries := sl_push_front \<lparr>ekey = key, evalue = v\<rparr> (c_entries c)\<rparr>;
              c = c\<lparr>c_index := umap_emplace key (sl_begin (c_entries c)) (c_index c)\<rparr>
          in c\<lparr>c_metrics := (c_metrics c)\<lparr>insertions := insertions (c_metrics c) + 1\<rparr>\<rparr>)"

definition lru_put :: "'k \<Rightarrow> 'v \<Rightarrow> ('k, 'v) LruCache \<Rightarrow> ('k, 'v) LruCache" where
  "lru_put key v c = lru_put_ptr key v c"

definition lru_put_shared :: "'k \<Rightarrow> 'v \<Rightarrow> ('k, 'v) LruCache \<Rightarrow> ('k, 'v) LruCache" where
  "lru_put_shared key v c = lru_put_ptr key v c"

definition lru_erase :: "'k \<Rightarrow> ('k, 'v) LruCache \<Rightarrow> bool \<times> ('k, 'v) LruCache" where
  "lru_erase key c =
     (case map_of (c_index c) key of
        None \<Rightarrow> (False, c)
      | Some it \<Rightarrow>
          (True, c\<lparr>c_entries := sl_erase it (c_entries c), c_index := AList.delete key (c_index c)\<rparr>))"

definition lru_clear :: "('k, 'v) LruCache \<Rightarrow> ('k, 'v) LruCache" where
  "lru_clear c = c\<lparr>c_entries := sl_clear (c_entries c), c_index := []\<rparr>"

definition lru_contains :: "'k \<Rightarrow> ('k, 'v) LruCache \<Rightarrow> bool" where
  "lru_contains key c \<longleftrightarrow> map_of (c_index c) key \<noteq> None"

definition lru_size :: "('k, 'v) LruCache \<Rightarrow> nat" where
  "lru_size c = length (c_index c)"

text \<open>\<open>for_each\<close> passes the entries to the visitor in list order; the model returns that sequence.\<close>

definition lru_for_each :: "('k, 'v) LruCache \<Rightarrow> ('k \<times> 'v) list" where
  "lru_for_each c = map (\<lambda>e. (ekey e, evalue e)) (sl_list (c_entries c))"

definition lru_keys_mru_to_lru :: "('k, 'v) LruCache \<Rightarrow> 'k list" where
  "lru_keys_mru_to_lru c = map ekey (sl_list (c_entries c))"

subsection \<open>Invariant and abstract cache\<close>

definition lru_inv :: "('k, 'v) LruCache \<Rightarrow> bool" where
  "lru_inv c \<longleftrightarrow>
     linked ekey (c_entries c) (c_index c) \<and> 0 < c_capacity c \<and> length (c_index c) \<le> c_capacity c"

definition spec_get :: "'k \<Rightarrow> ('k \<times> 'v) list \<Rightarrow> 'v option \<times> ('k \<times> 'v) list" where
  "spec_get k xs =
     (case map_of xs k of None \<Rightarrow> (None, xs)
      | Some v \<Rightarrow> (Some v, (k, v) # filter (\<lambda>p. fst p \<noteq> k) xs))"

definition spec_put :: "nat \<Rightarrow> 'k \<Rightarrow> 'v \<Rightarrow> ('k \<times> 'v) list \<Rightarrow> ('k \<times> 'v) list" where
  "spec_put cap k v xs =
     (k, v) # (if k \<in> fst ` set xs then filter (\<lambda>p. fst p \<noteq> k) xs
               else if cap \<le> length xs then butlast xs else xs)"

definition spec_erase :: "'k \<Rightarrow> ('k \<times> 'v) list \<Rightarrow> bool \<times> ('k \<times> 'v) list" where
  "spec_erase k xs = (k \<in> fst ` set xs, filter (\<lambda>p. fst p \<noteq> k) xs)"

text \<open>A sequence of calls with their results, on the cache and on the abstract cache.\<close>

datatype ('k, 'v) cache_op = OpGet 'k | OpPeek 'k | OpPut 'k 'v | OpErase 'k | OpClear

datatype 'v cache_out = OutValue "'v option" | OutErased bool | OutUnit

fun lru_step :: "('k, 'v) cache_op \<Rightarrow> ('k, 'v) LruCache \<Rightarrow> 'v cache_out \<times> ('k, 'v) LruCache" where
  "lru_step (OpGet k) c = (let (r, c') = lru_get k c in (OutValue r, c'))"
| "lru_step (OpPeek k) c = (OutValue (lru_peek k c), c)"
| "lru_step (OpPut k v) c = (OutUnit, lru_put k v c)"
| "lru_step (OpErase k) c = (let (r, c') = lru_erase k c in (OutErased r, c'))"
| "lru_step OpClear c = (OutUnit, lru_clear c)"

fun spec_step :: "nat \<Rightarrow> ('k, 'v) cache_op \<Rightarrow> ('k \<times> 'v) list \<Rightarrow> 'v cache_out \<times> ('k \<times> 'v) list" where
  "spec_step n (OpGet k) xs = (let (r, xs') = spec_get k xs in (OutValue r, xs'))"
| "spec_step n (OpPeek k) xs = (OutValue (map_of xs k), xs)"
| "spec_step n (OpPut k v) xs = (OutUnit, spec_put n k v xs)"
| "spec_step n (OpErase k) xs = (let (r, xs') = spec_erase k xs in (OutErased r, xs'))"
| "spec_step n OpClear xs = (OutUnit, [])"

text \<open>The distinct keys of an access sequence, latest access first.\<close>

fun recent_keys :: "'k list \<Rightarrow> 'k list" where
  "recent_keys [] = []"
| "recent_keys (k # ks) = k # filter (\<lambda>x. x \<noteq> k) (recent_keys ks)"

subsection \<open>The containers agree\<close>

lemma lru_inv_linked: "lru_inv c \<Longrightarrow> linked ekey (c_entries c) (c_index c)"
  by (simp add: lru_inv_def)

lemma for_each_keys: "map fst (lru_for_each c) = map ekey (sl_list (c_entries c))"
  by (simp add: lru_for_each_def)

lemma for_each_distinct: "lru_inv c \<Longrightarrow> distinct (map fst (lru_for_each c))"
  unfolding for_each_keys by (rule linked_distinct [OF lru_inv_linked])

lemma for_each_length: "lru_inv c \<Longrightarrow> length (lru_for_each c) = length (c_index c)"
  using linked_size [OF lru_inv_linked] by (fastforce simp: lru_for_each_def)

lemma index_None_iff:
  "lru_inv c \<Longrightarrow> map_of (c_index c) k = None \<longleftrightarrow> map_of (lru_for_each c) k = None"
  unfolding linked_None [OF lru_inv_linked] map_of_eq_None_iff [of "lru_for_each c"]
  by (simp add: lru_for_each_def image_image)

lemma index_Some:
  assumes "lru_inv c" and "map_of (c_index c) k = Some i"
  obtains e where "map_of (cells (c_entries c)) i = Some e" and "ekey e = k"
    and "map_of (lru_for_each c) k = Some (evalue e)"
proof -
  obtain e where e: "map_of (cells (c_entries c)) i = Some e" "ekey e = k"
      "e \<in> set (sl_list (c_entries c))"
    using linked_Some [OF lru_inv_linked [OF assms(1)] assms(2)] by blast
  then have "(k, evalue e) \<in> set (lru_for_each c)" by (force simp: lru_for_each_def)
  then have "map_of (lru_for_each c) k = Some (evalue e)"
    using for_each_distinct [OF assms(1)] by simp
  with e that show ?thesis by blast
qed

lemma for_each_filter:
  "map (\<lambda>e. (ekey e, evalue e)) (filter (\<lambda>e. ekey e \<noteq> k) xs)
     = filter (\<lambda>p. fst p \<noteq> k) (map (\<lambda>e. (ekey e, evalue e)) xs)"
  by (simp add: filter_map comp_def)

subsection \<open>Effect of the operations\<close>

lemma lru_peek_eq:
  assumes "lru_inv c"
  shows "lru_peek k c = map_of (lru_for_each c) k"
proof (cases "map_of (c_index c) k")
  case None
  then have "map_of (lru_for_each c) k = None" by (simp only: index_None_iff [OF assms])
  with None show ?thesis unfolding lru_peek_def by (simp only: option.case)
next
  case (Some i)
  then obtain e where "map_of (cells (c_entries c)) i = Some e"
      "map_of (lru_for_each c) k = Some (evalue e)"
    using index_Some [OF assms] by blast
  with Some show ?thesis unfolding lru_peek_def sl_deref_def by simp
qed

lemma lru_get_spec:
  assumes "lru_inv c" and "lru_get k c = (r, c')"
  shows "lru_inv c' \<and> spec_get k (lru_for_each c) = (r, lru_for_each c') \<and> c_capacity c' = c_capacity c"
proof (cases "map_of (c_index c) k")
  case None
  then have "map_of (lru_for_each c) k = None" by (simp only: index_None_iff [OF assms(1)])
  moreover from None assms(2)
  have "r = None" "c' = c\<lparr>c_metrics := (c_metrics c)\<lparr>misses := misses (c_metrics c) + 1\<rparr>\<rparr>"
    unfolding lru_get_def by (simp_all only: option.case prod.inject)
  ultimately show ?thesis
    using assms(1) unfolding spec_get_def by (simp add: lru_inv_def lru_for_each_def)
next
  case (Some i)
  then obtain e where e: "map_of (cells (c_entries c)) i = Some e" "ekey e = k"
      "map_of (lru_for_each c) k = Some (evalue e)"
    using index_Some [OF assms(1)] by blast
  note s = linked_splice [OF lru_inv_linked [OF assms(1)] Some e(1)]
  have "r = Some (evalue e)"
    using assms(2) Some e(1) by (auto simp: lru_get_def Let_def sl_splice_begin_def sl_begin_def sl_deref_def)
  moreover have c': "c_entries c' = sl_splice_begin i (c_entries c)" "c_index c' = c_index c"
      "c_capacity c' = c_capacity c"
    using assms(2) Some by (auto simp: lru_get_def Let_def)
  moreover have "lru_for_each c' = (k, evalue e) # filter (\<lambda>p. fst p \<noteq> k) (lru_for_each c)"
    using s(2) e(2) by (simp add: lru_for_each_def c' for_each_filter)
  ultimately show ?thesis
    using s(1) assms(1) e(3) by (simp add: lru_inv_def spec_get_def)
qed

lemma lru_evict_lru_spec:
  assumes "linked ekey (c_entries c) (c_index c)" and "c_index c \<noteq> []"
  shows "linked ekey (c_entries (lru_evict_lru c)) (c_index (lru_evict_lru c))"
    and "lru_for_each (lru_evict_lru c) = butlast (lru_for_each c)"
    and "c_capacity (lru_evict_lru c) = c_capacity c"
proof -
  have ne: "cells (c_entries c) \<noteq> []"
    using linked_size [OF assms(1)] assms(2) by (auto simp: sl_list_def)
  note p = linked_pop_back [OF assms(1) ne]
  show "linked ekey (c_entries (lru_evict_lru c)) (c_index (lru_evict_lru c))"
    using p(1) ne by (simp add: lru_evict_lru_def Let_def)
  show "lru_for_each (lru_evict_lru c) = butlast (lru_for_each c)"
    using p(2) ne by (simp add: lru_evict_lru_def Let_def lru_for_each_def map_butlast)
  show "c_capacity (lru_evict_lru c) = c_capacity c"
    by (simp add: lru_evict_lru_def Let_def)
qed

lemma lru_insert_spec:
  assumes "linked ekey (c_entries c) (c_index c)" and "map_of (c_index c) k = None"
    and "l = sl_push_front \<lparr>ekey = k, evalue = v\<rparr> (c_entries c)"
  shows "linked ekey l (umap_emplace k (sl_begin l) (c_index c))"
    and "map (\<lambda>e. (ekey e, evalue e)) (sl_list l) = (k, v) # lru_for_each c"
  using linked_push_front [of ekey "c_entries c" "c_index c" "\<lparr>ekey = k, evalue = v\<rparr>"] assms
  by (simp_all add: umap_emplace_def lru_for_each_def)

lemma filter_updated:
  "filter (\<lambda>y. ekey y \<noteq> k) (map (\<lambda>y. if ekey y = k then y\<lparr>evalue := v\<rparr> else y) xs)
     = filter (\<lambda>y. ekey y \<noteq> k) xs"
  by (induction xs) auto

lemma lru_put_spec:
  assumes "lru_inv c"
  shows "lru_inv (lru_put_ptr k v c) \<and>
         lru_for_each (lru_put_ptr k v c) = spec_put (c_capacity c) k v (lru_for_each c) \<and>
         c_capacity (lru_put_ptr k v c) = c_capacity c"
proof (cases "map_of (c_index c) k")
  case None
  let ?d = "if c_capacity c \<le> length (c_index c) then lru_evict_lru c else c"
  have ne: "c_capacity c \<le> length (c_index c) \<Longrightarrow> c_index c \<noteq> []"
    using assms by (auto simp: lru_inv_def)
  note ev = lru_evict_lru_spec [OF lru_inv_linked [OF assms]]
  have d: "linked ekey (c_entries ?d) (c_index ?d)" "c_capacity ?d = c_capacity c"
    using ev ne lru_inv_linked [OF assms] by auto
  have f: "lru_for_each ?d
      = (if c_capacity c \<le> length (lru_for_each c) then butlast (lru_for_each c) else lru_for_each c)"
    using ev(2) ne for_each_length [OF assms] by auto
  have k: "k \<notin> fst ` set (lru_for_each c)"
    using None by (simp only: index_None_iff [OF assms]) (simp add: map_of_eq_None_iff)
  then have "k \<notin> fst ` set (lru_for_each ?d)" unfolding f by (auto dest: in_set_butlastD)
  then have kd: "map_of (c_index ?d) k = None"
    using linked_None [OF d(1)] by (simp add: lru_for_each_def image_image)
  note i = lru_insert_spec [OF d(1) kd refl, where v = v]
  have p: "lru_put_ptr k v c =
      (let l = sl_push_front \<lparr>ekey = k, evalue = v\<rparr> (c_entries ?d)
       in ?d\<lparr>c_entries := l, c_index := umap_emplace k (sl_begin l) (c_index ?d),
             c_metrics := (c_metrics ?d)\<lparr>insertions := insertions (c_metrics ?d) + 1\<rparr>\<rparr>)"
    using None by (simp add: lru_put_ptr_def Let_def)
  have fe: "lru_for_each (lru_put_ptr k v c) = spec_put (c_capacity c) k v (lru_for_each c)"
    using i(2) k f unfolding p by (simp add: Let_def lru_for_each_def [of "_\<lparr>c_metrics := _\<rparr>"] spec_put_def)
  have l: "linked ekey (c_entries (lru_put_ptr k v c)) (c_index (lru_put_ptr k v c))"
    using i(1) unfolding p by (simp add: Let_def)
  have "length (c_index (lru_put_ptr k v c)) = length (lru_for_each (lru_put_ptr k v c))"
    using linked_size [OF l] by (simp add: lru_for_each_def)
  also have "\<dots> \<le> c_capacity c"
    unfolding fe using assms k for_each_length [OF assms] by (auto simp: spec_put_def lru_inv_def)
  finally show ?thesis using l fe d(2) assms unfolding p lru_inv_def by (simp add: Let_def)
next
  case (Some i)
  then obtain e where e: "map_of (cells (c_entries c)) i = Some e" "ekey e = k"
    using index_Some [OF assms] by blast
  let ?m = "sl_modify i (\<lambda>e. e\<lparr>evalue := v\<rparr>) (c_entries c)"
  note m = linked_modify [OF lru_inv_linked [OF assms] Some, of "\<lambda>e. e\<lparr>evalue := v\<rparr>", simplified]
  have "map_of (cells ?m) i = Some (e\<lparr>evalue := v\<rparr>)"
    using e(1) by (simp add: deref_modify)
  note s = linked_splice [OF m(1) Some this]
  have p: "lru_put_ptr k v c =
      c\<lparr>c_entries := sl_splice_begin i ?m, c_metrics := (c_metrics c)\<lparr>updates := updates (c_metrics c) + 1\<rparr>\<rparr>"
    using Some by (simp add: lru_put_ptr_def Let_def)
  have k: "k \<in> fst ` set (lru_for_each c)"
    using Some index_None_iff [OF assms, of k] by (auto simp: map_of_eq_None_iff)
  have "sl_list (sl_splice_begin i ?m)
      = e\<lparr>evalue := v\<rparr> # filter (\<lambda>y. ekey y \<noteq> k) (sl_list (c_entries c))"
    using s(2) m(2) by (simp only: filter_updated)
  then have "lru_for_each (lru_put_ptr k v c) = spec_put (c_capacity c) k v (lru_for_each c)"
    using e(2) k unfolding p by (simp add: lru_for_each_def spec_put_def for_each_filter)
  then show ?thesis using s(1) assms unfolding p lru_inv_def by simp
qed

lemma lru_erase_spec:
  assumes "lru_inv c" and "lru_erase k c = (r, c')"
  shows "lru_inv c' \<and> spec_erase k (lru_for_each c) = (r, lru_for_each c') \<and> c_capacity c' = c_capacity c"
proof (cases "map_of (c_index c) k")
  case None
  then have "k \<notin> fst ` set (lru_for_each c)"
    by (simp only: index_None_iff [OF assms(1)]) (simp add: map_of_eq_None_iff)
  moreover from this have "filter (\<lambda>p. fst p \<noteq> k) (lru_for_each c) = lru_for_each c"
    by (force simp: filter_id_conv)
  ultimately show ?thesis
    using None assms by (simp add: lru_erase_def spec_erase_def)
next
  case (Some i)
  note e = linked_erase [OF lru_inv_linked [OF assms(1)] Some]
  have c': "r = True" "c' = c\<lparr>c_entries := sl_erase i (c_entries c), c_index := AList.delete k (c_index c)\<rparr>"
    using assms(2) Some by (simp_all add: lru_erase_def)
  have "k \<in> fst ` set (lru_for_each c)"
    using Some index_None_iff [OF assms(1), of k] by (auto simp: map_of_eq_None_iff)
  moreover have "length (AList.delete k (c_index c)) \<le> length (c_index c)"
    by (rule length_delete_le)
  ultimately show ?thesis
    using e assms(1) by (simp add: c' lru_inv_def spec_erase_def lru_for_each_def for_each_filter)
qed

lemma lru_clear_spec:
  "lru_inv c \<Longrightarrow> lru_inv (lru_clear c) \<and> lru_for_each (lru_clear c) = []
     \<and> c_capacity (lru_clear c) = c_capacity c"
  by (auto simp: lru_inv_def lru_clear_def lru_for_each_def intro: linked_clear)

lemma lru_make_spec:
  "lru_make n = Some c \<Longrightarrow> lru_inv c \<and> lru_for_each c = [] \<and> c_capacity c = n"
  by (auto simp: lru_make_def lru_inv_def lru_for_each_def split: if_splits)

text \<open>What a key maps to after an abstract operation.\<close>

lemma map_of_filter_neq: "map_of (filter (\<lambda>p. fst p \<noteq> k) xs) k' = (if k' = k then None else map_of xs k')"
  by (induction xs) auto

lemma spec_get_view: "map_of (snd (spec_get k xs)) k' = map_of xs k'"
  by (auto simp: spec_get_def map_of_filter_neq split: option.splits)

lemma spec_erase_view: "map_of (snd (spec_erase k xs)) k' = (if k' = k then None else map_of xs k')"
  by (simp add: spec_erase_def map_of_filter_neq)

lemma map_of_butlast:
  assumes "distinct (map fst xs)" and "map_of (butlast xs) k = Some v"
  shows "map_of xs k = Some v"
proof -
  have "(k, v) \<in> set (butlast xs)" using assms(2) by (rule map_of_SomeD)
  then have "(k, v) \<in> set xs" by (rule in_set_butlastD)
  with assms(1) show ?thesis by simp
qed

lemma spec_put_view_same: "map_of (spec_put n k v xs) k = Some v"
  by (simp add: spec_put_def)

lemma spec_put_view_other:
  assumes "distinct (map fst xs)" and "k' \<noteq> k" and "map_of (spec_put n k v xs) k' = Some w"
  shows "map_of xs k' = Some w"
  using assms map_of_butlast [of xs k' w]
  by (auto simp: spec_put_def map_of_filter_neq split: if_splits)

lemma spec_put_view_keep:
  assumes "k \<in> fst ` set xs \<or> length xs < n" and "k' \<noteq> k"
  shows "map_of (spec_put n k v xs) k' = map_of xs k'"
  using assms by (auto simp: spec_put_def map_of_filter_neq)

lemma lru_get_inv:
  "lru_inv c \<Longrightarrow> lru_inv (snd (lru_get k c)) \<and> c_capacity (snd (lru_get k c)) = c_capacity c"
  using lru_get_spec [of c k "fst (lru_get k c)" "snd (lru_get k c)"] by simp

lemma lru_erase_inv:
  "lru_inv c \<Longrightarrow> lru_inv (snd (lru_erase k c)) \<and> c_capacity (snd (lru_erase k c)) = c_capacity c"
  using lru_erase_spec [of c k "fst (lru_erase k c)" "snd (lru_erase k c)"] by simp

lemma lru_get_view:
  "lru_inv c \<Longrightarrow> map_of (lru_for_each (snd (lru_get k c))) k' = map_of (lru_for_each c) k'"
  using lru_get_spec [of c k "fst (lru_get k c)" "snd (lru_get k c)"] spec_get_view [of k "lru_for_each c" k']
  by simp

lemma lru_get_result: "lru_inv c \<Longrightarrow> fst (lru_get k c) = map_of (lru_for_each c) k"
  using lru_get_spec [of c k "fst (lru_get k c)" "snd (lru_get k c)"]
  by (auto simp: spec_get_def split: option.splits)

lemma lru_erase_view:
  "lru_inv c \<Longrightarrow> map_of (lru_for_each (snd (lru_erase k c))) k'
     = (if k' = k then None else map_of (lru_for_each c) k')"
  using lru_erase_spec [of c k "fst (lru_erase k c)" "snd (lru_erase k c)"]
    spec_erase_view [of k "lru_for_each c" k'] by simp

lemma lru_step_spec:
  assumes "lru_inv c" and "lru_step x c = (r, c')"
  shows "lru_inv c' \<and> spec_step (c_capacity c) x (lru_for_each c) = (r, lru_for_each c')
         \<and> c_capacity c' = c_capacity c"
proof (cases x)
  case (OpGet k)
  with assms show ?thesis using lru_get_spec [OF assms(1)] by (auto split: prod.splits)
next
  case (OpPut k v)
  with assms show ?thesis using lru_put_spec [OF assms(1)] by (auto simp: lru_put_def)
next
  case (OpErase k)
  with assms show ?thesis using lru_erase_spec [OF assms(1)] by (auto split: prod.splits)
qed (use assms lru_peek_eq [OF assms(1)] lru_clear_spec [OF assms(1)] in auto)

lemma lru_run_spec:
  assumes "lru_inv c" and "run_ops lru_step ops c = (rs, c')"
  shows "lru_inv c' \<and> run_ops (spec_step (c_capacity c)) ops (lru_for_each c) = (rs, lru_for_each c')
         \<and> c_capacity c' = c_capacity c"
  using assms
proof (induction ops arbitrary: c rs)
  case Nil
  then show ?case by simp
next
  case (Cons x ops)
  obtain r c1 where 1: "lru_step x c = (r, c1)" by fastforce
  obtain rs1 c2 where 2: "run_ops lru_step ops c1 = (rs1, c2)" by fastforce
  from Cons.prems(2) 1 2 have "rs = r # rs1" "c' = c2" by simp_all
  with lru_step_spec [OF Cons.prems(1) 1] Cons.IH [of c1 rs1] 2 show ?case by simp
qed

lemma recent_keys_distinct: "distinct (recent_keys ks)"
  by (induction ks) simp_all

lemma take_recent:
  assumes "distinct xs" and "0 < n"
  shows "take n (k # filter (\<lambda>x. x \<noteq> k) xs)
       = k # (if k \<in> set (take n xs) then filter (\<lambda>x. x \<noteq> k) (take n xs)
              else if n \<le> length (take n xs) then butlast (take n xs) else take n xs)"
  using assms
proof (induction n arbitrary: xs)
  case (Suc n)
  show ?case
  proof (cases xs)
    case (Cons y ys)
    show ?thesis
    proof (cases "y = k")
      case True
      with Suc.prems Cons have "filter (\<lambda>x. x \<noteq> k) ys = ys" by (auto simp: filter_id_conv)
      moreover from True Suc.prems Cons have "filter (\<lambda>x. x \<noteq> k) (take n ys) = take n ys"
        by (auto simp: filter_id_conv dest: in_set_takeD)
      ultimately show ?thesis using True Cons by simp
    next
      case False
      show ?thesis
      proof (cases "n = 0")
        case False
        with Suc.IH [of ys] Suc.prems Cons \<open>y \<noteq> k\<close> show ?thesis
          by (cases n) (auto simp: take_Suc_Cons split: if_splits)
      qed (use False Cons in simp)
    qed
  qed simp
qed simp

lemma spec_put_keys:
  "map fst (spec_put n k v xs) =
     k # (if k \<in> set (map fst xs) then filter (\<lambda>x. x \<noteq> k) (map fst xs)
          else if n \<le> length (map fst xs) then butlast (map fst xs) else map fst xs)"
  by (simp add: spec_put_def filter_map comp_def map_butlast)


lemma spec_puts_keys:
  assumes "0 < n"
  shows "map fst (snd (run_ops (spec_step n) (map (\<lambda>(k, v). OpPut k v) kvs) []))
       = take n (recent_keys (rev (map fst kvs)))"
proof (induction kvs rule: rev_induct)
  case (snoc kv kvs)
  show ?case
    using snoc.IH take_recent [OF recent_keys_distinct assms, of "fst kv" "rev (map fst kvs)"]
    by (simp add: run_ops_snoc split_beta spec_put_keys)
qed simp

subsection \<open>Properties\<close>

text \<open>
  C10. The cache implements the recency list: after construction with capacity \<open>n\<close>, any sequence of
  calls returns exactly what the abstract cache returns, the entries are the abstract cache's in
  the same order, the map and the list have the same size, and that size never exceeds \<open>n\<close>.
\<close>

theorem lru_refines_recency_list:
  assumes "lru_make n = Some c" and "run_ops lru_step ops c = (rs, c')"
  shows "run_ops (spec_step n) ops [] = (rs, lru_for_each c') \<and>
         lru_size c' = length (lru_for_each c') \<and> lru_size c' \<le> n"
  using lru_make_spec [OF assms(1)] lru_run_spec [OF _ assms(2)]
  by (auto simp: lru_size_def for_each_length lru_inv_def)

theorem lru_refines_recency_list_witness:
  "let c = the (lru_make 2 :: (nat, nat) LruCache option);
       ops = [OpPut 1 10, OpPut 2 20, OpGet 1, OpPut 3 30, OpGet 2, OpErase 1];
       (rs, c') = run_ops lru_step ops c
   in run_ops (spec_step 2) ops [] = (rs, lru_for_each c') \<and> lru_size c' \<le> 2 \<and>
      rs = [OutUnit, OutUnit, OutValue (Some 10), OutUnit, OutValue None, OutErased True]"
proof -
  let ?c = "the (lru_make 2 :: (nat, nat) LruCache option)"
  let ?ops = "[OpPut 1 10, OpPut 2 20, OpGet 1, OpPut 3 30, OpGet 2, OpErase 1 :: (nat, nat) cache_op]"
  obtain rs c' where r: "run_ops lru_step ?ops ?c = (rs, c')" by fastforce
  have "lru_make 2 = Some ?c" by (simp add: lru_make_def)
  note lru_refines_recency_list [OF this r]
  moreover have "fst (run_ops lru_step ?ops ?c)
      = [OutUnit, OutUnit, OutValue (Some 10), OutUnit, OutValue None, OutErased True]"
    by code_simp
  ultimately show ?thesis using r by (simp add: Let_def del: run_ops.simps)
qed

text \<open>
  Eviction is least-recently-used: after a sequence of \<open>put\<close> calls the cache holds exactly the
  \<open>n\<close> most recently written distinct keys, in recency order.
\<close>

lemma lru_keeps_most_recent:
  assumes "lru_make n = Some c"
  shows "lru_keys_mru_to_lru (snd (run_ops lru_step (map (\<lambda>(k, v). OpPut k v) kvs) c))
       = take n (recent_keys (rev (map fst kvs)))"
proof -
  let ?ops = "map (\<lambda>(k, v). OpPut k v) kvs"
  obtain rs c' where r: "run_ops lru_step ?ops c = (rs, c')" by fastforce
  have n: "0 < n" using assms by (simp add: lru_make_def split: if_splits)
  from lru_make_spec [OF assms] lru_run_spec [OF _ r]
  have "lru_for_each c' = snd (run_ops (spec_step n) ?ops [])" by auto
  then show ?thesis
    using spec_puts_keys [OF n, of kvs] r by (simp add: lru_keys_mru_to_lru_def flip: for_each_keys)
qed

end
