(* ===== verification/Shard_Router.thy ===== *)
theory Shard_Router
  imports Prelude
begin

section \<open>Shard selection (include/lrd/common/hash\_mix.hpp)\<close>

text \<open>
  \<open>ShardedCache\<close> and \<open>ExposureStore\<close> pick a shard by mixing a hash with splitmix64's finalizer and
  masking its low bits. The theory has the finalizer, the mask, and the interface \<open>shard_array\<close>
  that both containers use: an array of shards each holding only the keys routed to it, updated
  one shard at a time.
\<close>

subsection \<open>The finalizer and the mask\<close>

definition hash_mix :: "u64 \<Rightarrow> u64" where
  "hash_mix h =
     (let v = h;
          v = v XOR drop_bit 30 v;
          v = v * 0xBF58476D1CE4E5B9;
          v = v XOR drop_bit 27 v;
          v = v * 0x94D049BB133111EB;
          v = v XOR drop_bit 31 v
      in v)"

text \<open>\<open>std::has_single_bit\<close>: exactly one bit of the number is set.\<close>

definition has_single_bit :: "u64 \<Rightarrow> bool" where
  "has_single_bit n \<longleftrightarrow> length (filter (bit n) [0..<64]) = 1"

definition masked_index :: "u64 \<Rightarrow> u64 \<Rightarrow> nat" where
  "masked_index msk h = unat (hash_mix h AND msk)"

text \<open>The update of the one shard at index \<open>i\<close>.\<close>

definition at_shard :: "nat \<Rightarrow> ('s \<Rightarrow> 's) \<Rightarrow> 's list \<Rightarrow> 's list" where
  "at_shard i f xs = xs[i := f (xs ! i)]"

text \<open>Every shard satisfies \<open>I\<close> and holds only keys whose route is that shard.\<close>

definition shards_wf ::
  "('k \<Rightarrow> nat) \<Rightarrow> nat \<Rightarrow> ('s \<Rightarrow> 'k set) \<Rightarrow> ('s \<Rightarrow> bool) \<Rightarrow> 's list \<Rightarrow> bool" where
  "shards_wf route n ks I xs \<longleftrightarrow>
     length xs = n \<and> (\<forall>i < length xs. I (xs ! i) \<and> (\<forall>k \<in> ks (xs ! i). route k = i))"

subsection \<open>The finalizer is a bijection\<close>

lemma xorshift_inj:
  fixes x y :: "'a::len word"
  assumes "0 < k" and "x XOR drop_bit k x = y XOR drop_bit k y"
  shows "x = y"
proof -
  have step: "(bit x i \<noteq> bit x (i + k)) = (bit y i \<noteq> bit y (i + k))" if "i < LENGTH('a)" for i
    using arg_cong [OF assms(2), of "\<lambda>w. bit w i"] that
    by (simp add: bit_xor_iff bit_drop_bit_eq add.commute)
  have "bit x i = bit y i" for i
  proof (induction "LENGTH('a) - i" arbitrary: i rule: less_induct)
    case less
    show ?case
    proof (cases "i < LENGTH('a)")
      case True
      with assms(1) have "bit x (i + k) = bit y (i + k)" by (intro less) simp
      with step [OF True] show ?thesis by blast
    next
      case False
      then show ?thesis using bit_imp_le_length [of x i] bit_imp_le_length [of y i] by blast
    qed
  qed
  then show ?thesis by (simp add: bit_eq_iff)
qed

lemma mult_inv_inj:
  fixes x y c d :: "'a::len word"
  assumes "c * d = 1" and "x * c = y * c"
  shows "x = y"
  using assms by (metis mult.assoc mult.right_neutral)

lemma hash_mix_inj:
  assumes "hash_mix x = hash_mix y"
  shows "x = y"
proof -
  define a b where "a = x XOR drop_bit 30 x" and "b = y XOR drop_bit 30 y"
  define a' b' where "a' = a * 0xBF58476D1CE4E5B9" and "b' = b * 0xBF58476D1CE4E5B9"
  define c d where "c = a' XOR drop_bit 27 a'" and "d = b' XOR drop_bit 27 b'"
  define c' d' where "c' = c * 0x94D049BB133111EB" and "d' = d * 0x94D049BB133111EB"
  have "c' XOR drop_bit 31 c' = d' XOR drop_bit 31 d'"
    using assms unfolding hash_mix_def Let_def a_def b_def a'_def b'_def c_def d_def c'_def d'_def .
  then have "c' = d'" by (rule xorshift_inj [rotated]) simp
  then have "c = d" unfolding c'_def d'_def
    by (rule mult_inv_inj [rotated, where d = "0x319642B2D24D8EC3"]) simp
  then have "a' = b'" unfolding c_def d_def by (rule xorshift_inj [rotated]) simp
  then have "a = b" unfolding a'_def b'_def
    by (rule mult_inv_inj [rotated, where d = "0x96DE1B173F119089"]) simp
  then show ?thesis unfolding a_def b_def by (rule xorshift_inj [rotated]) simp
qed

subsection \<open>Masking is the remainder\<close>

lemma single_bit_exp:
  assumes "has_single_bit n"
  obtains k where "k < 64" and "n = 2 ^ k"
proof -
  obtain k where k: "filter (bit n) [0..<64] = [k]"
    using assms by (auto simp: has_single_bit_def length_Suc_conv)
  have "{i. i < 64 \<and> bit n i} = {k}" using arg_cong [OF k, of set] by auto
  then have iff: "bit n i \<and> i < 64 \<longleftrightarrow> i = k" for i by blast
  have "n = 2 ^ k"
  proof (rule bit_eqI)
    fix i
    have "bit n i \<longleftrightarrow> i = k" using iff [of i] bit_imp_le_length [of n i] by auto
    then show "bit n i \<longleftrightarrow> bit (2 ^ k :: u64) i"
      using iff [of k] by (auto simp: bit_exp_iff)
  qed
  with iff [of k] that show ?thesis by blast
qed

lemma single_bit_mask:
  assumes "has_single_bit n"
  shows "unat (x AND (n - 1)) = unat x mod unat n"
proof -
  obtain k where k: "k < 64" "n = 2 ^ k" using single_bit_exp [OF assms] .
  have "n - 1 = mask k" by (simp add: k(2) mask_eq_exp_minus_1)
  then have "unat (x AND (n - 1)) = unat (take_bit k x)" by (simp add: take_bit_eq_mask)
  also have "\<dots> = unat x mod 2 ^ k" unfolding unsigned_take_bit_eq by (simp add: take_bit_eq_mod)
  also have "2 ^ k = unat n"
  proof -
    have "(2 :: nat) ^ k < 2 ^ 64" using k(1) by (intro power_strict_increasing) simp_all
    then have "unat (word_of_nat (2 ^ k) :: u64) = 2 ^ k" by (subst unat_of_nat) simp
    then show ?thesis by (simp add: k(2))
  qed
  finally show ?thesis .
qed

lemma masked_index_le: "masked_index m h < Suc (unat m)"
  by (simp add: masked_index_def less_Suc_eq_le word_and_le1 flip: word_le_nat_alt)

lemma single_bit_count:
  assumes "has_single_bit n"
  shows "Suc (unat (n - 1)) = unat n"
proof -
  obtain k where "k < 64" "n = 2 ^ k" using single_bit_exp [OF assms] .
  then have "n \<noteq> 0" by simp
  then have "unat (n - 1) = unat n - 1" "0 < unat n" by (simp_all add: unat_minus_one unat_gt_0)
  then show ?thesis by simp
qed

subsection \<open>Arrays of shards\<close>

text \<open>
  The contract between a sharded container and its router: every key has a home shard, and one
  shard never holds more than \<open>cap\<close> keys.
\<close>

locale shard_array =
  fixes route :: "'k \<Rightarrow> nat" and n :: nat and ks :: "'s \<Rightarrow> 'k set" and I :: "'s \<Rightarrow> bool"
    and size_of :: "'s \<Rightarrow> nat" and cap :: nat
  assumes route_less: "route k < n"
    and size_le: "I s \<Longrightarrow> size_of s \<le> cap"
begin

lemma wf_home: "shards_wf route n ks I xs \<Longrightarrow> I (xs ! route k)"
  by (simp add: shards_wf_def route_less)

lemma wf_at_shard:
  assumes "shards_wf route n ks I xs" and "I (f (xs ! route k))"
    and "ks (f (xs ! route k)) \<subseteq> insert k (ks (xs ! route k))"
  shows "shards_wf route n ks I (at_shard (route k) f xs)"
  unfolding shards_wf_def
proof (intro conjI allI impI)
  show "length (at_shard (route k) f xs) = n" using assms(1) by (simp add: shards_wf_def at_shard_def)
  fix i
  assume "i < length (at_shard (route k) f xs)"
  then have i: "i < length xs" by (simp add: at_shard_def)
  have at: "at_shard (route k) f xs ! i = (if i = route k then f (xs ! i) else xs ! i)"
    using i by (auto simp: at_shard_def nth_list_update)
  show "I (at_shard (route k) f xs ! i)"
    using assms(1,2) i unfolding at by (auto simp: shards_wf_def)
  show "\<forall>j\<in>ks (at_shard (route k) f xs ! i). route j = i"
    using assms(1,3) i unfolding at by (auto simp: shards_wf_def)
qed

lemma at_shard_same: "shards_wf route n ks I xs \<Longrightarrow> at_shard (route k) f xs ! route k = f (xs ! route k)"
  by (simp add: shards_wf_def at_shard_def route_less)

lemma at_shard_other: "route k' \<noteq> route k \<Longrightarrow> at_shard (route k) f xs ! route k' = xs ! route k'"
  by (simp add: at_shard_def)

lemma key_home:
  assumes "shards_wf route n ks I xs" and "s \<in> set xs" and "k \<in> ks s"
  shows "s = xs ! route k"
proof -
  obtain i where "i < length xs" "s = xs ! i" using assms(2) by (auto simp: in_set_conv_nth)
  with assms(1,3) show ?thesis by (auto simp: shards_wf_def)
qed

lemma total_size:
  assumes "shards_wf route n ks I xs"
  shows "(\<Sum>s\<leftarrow>xs. size_of s) \<le> n * cap"
proof -
  have "\<forall>s\<in>set xs. size_of s \<le> cap"
    using assms size_le by (auto simp: shards_wf_def in_set_conv_nth)
  then have "(\<Sum>s\<leftarrow>xs. size_of s) \<le> (\<Sum>s\<leftarrow>xs. cap)" by (intro sum_list_mono) simp
  also have "\<dots> = n * cap" using assms by (simp add: sum_list_triv shards_wf_def)
  finally show ?thesis .
qed

end

subsection \<open>Properties\<close>

text \<open>
  \<open>hash_mix\<close> is injective, so mixing never makes two ids collide that did not already.
\<close>

lemma hash_mix_injective: "hash_mix x = hash_mix y \<longleftrightarrow> x = y"
  using hash_mix_inj by blast

text \<open>
  With a power-of-two shard count the mask computes the remainder, hence a valid index.
\<close>

lemma masked_index_is_mod:
  assumes "has_single_bit shards"
  shows "masked_index (shards - 1) h = unat (hash_mix h) mod unat shards \<and>
         masked_index (shards - 1) h < unat shards"
  using single_bit_mask [OF assms, of "hash_mix h"] masked_index_le [of "shards - 1" h]
  unfolding single_bit_count [OF assms] by (simp add: masked_index_def)

end
