(* ===== verification/Sharded_Cache.thy ===== *)
theory Sharded_Cache
  imports Lru_Cache Shard_Router
begin

section \<open>LockedCache and ShardedCache (include/lrd/cache)\<close>

text \<open>
  \<open>LockedCache\<close> runs every operation of an \<open>LruCache\<close> under one mutex, so each is one atomic step.
  \<open>ShardedCache\<close> keeps a power-of-two number of them and routes a key by its mixed hash; the hash
  functor is the template parameter \<open>Hash\<close>, a parameter of the model. A concurrent execution is
  an interleaving of whole per-shard operations, hence a sequence of the steps below.

  The interface \<open>shard_array\<close> is interpreted here on the cache shards. The properties say that a
  hit is never stale, that a write is read back, and that the total size is bounded.
\<close>

subsection \<open>LockedCache\<close>

record ('k, 'v) LockedCache =
  lk_capacity :: nat
  lk_cache :: "('k, 'v) LruCache"

definition locked_make :: "nat \<Rightarrow> ('k, 'v) LockedCache option" where
  "locked_make capacity =
     (case lru_make capacity of None \<Rightarrow> None
      | Some c \<Rightarrow> Some \<lparr>lk_capacity = capacity, lk_cache = c\<rparr>)"

definition locked_get :: "'k \<Rightarrow> ('k, 'v) LockedCache \<Rightarrow> 'v option \<times> ('k, 'v) LockedCache" where
  "locked_get key s = (let (r, c) = lru_get key (lk_cache s) in (r, s\<lparr>lk_cache := c\<rparr>))"

definition locked_peek :: "'k \<Rightarrow> ('k, 'v) LockedCache \<Rightarrow> 'v option" where
  "locked_peek key s = lru_peek key (lk_cache s)"

definition locked_put :: "'k \<Rightarrow> 'v \<Rightarrow> ('k, 'v) LockedCache \<Rightarrow> ('k, 'v) LockedCache" where
  "locked_put key v s = s\<lparr>lk_cache := lru_put_shared key v (lk_cache s)\<rparr>"

definition locked_erase :: "'k \<Rightarrow> ('k, 'v) LockedCache \<Rightarrow> bool \<times> ('k, 'v) LockedCache" where
  "locked_erase key s = (let (r, c) = lru_erase key (lk_cache s) in (r, s\<lparr>lk_cache := c\<rparr>))"

definition locked_clear :: "('k, 'v) LockedCache \<Rightarrow> ('k, 'v) LockedCache" where
  "locked_clear s = s\<lparr>lk_cache := lru_clear (lk_cache s)\<rparr>"

definition locked_snapshot :: "('k, 'v) LockedCache \<Rightarrow> ('k \<times> 'v) list" where
  "locked_snapshot s = lru_for_each (lk_cache s)"

definition locked_size :: "('k, 'v) LockedCache \<Rightarrow> nat" where
  "locked_size s = lru_size (lk_cache s)"

definition locked_metrics :: "('k, 'v) LockedCache \<Rightarrow> CacheMetrics" where
  "locked_metrics s = c_metrics (lk_cache s)"

subsection \<open>ShardedCache\<close>

datatype cache_error = ShardCountNotPowerOfTwo | CapacityBelowShardCount | ZeroCapacity

record ('k, 'v) ShardedCache =
  sc_capacity :: u64
  sc_shard_count :: u64
  sc_mask :: u64
  sc_hasher :: "'k \<Rightarrow> u64"
  sc_shards :: "('k, 'v) LockedCache list"

definition sharded_make :: "('k \<Rightarrow> u64) \<Rightarrow> u64 \<Rightarrow> u64 \<Rightarrow> cache_error + ('k, 'v) ShardedCache" where
  "sharded_make hasher capacity shard_count =
     (if shard_count = 0 \<or> \<not> has_single_bit shard_count then Inl ShardCountNotPowerOfTwo
      else if capacity < shard_count then Inl CapacityBelowShardCount
      else let per_shard = capacity div shard_count in
        (case locked_make (unat per_shard) of
           None \<Rightarrow> Inl ZeroCapacity
         | Some s \<Rightarrow> Inr \<lparr>sc_capacity = capacity, sc_shard_count = shard_count,
                        sc_mask = shard_count - 1, sc_hasher = hasher,
                        sc_shards = replicate (unat shard_count) s\<rparr>))"

definition shard_index :: "'k \<Rightarrow> ('k, 'v) ShardedCache \<Rightarrow> nat" where
  "shard_index key c = masked_index (sc_mask c) (sc_hasher c key)"

definition shard_for :: "'k \<Rightarrow> ('k, 'v) ShardedCache \<Rightarrow> ('k, 'v) LockedCache" where
  "shard_for key c = sc_shards c ! shard_index key c"

definition sharded_get :: "'k \<Rightarrow> ('k, 'v) ShardedCache \<Rightarrow> 'v option \<times> ('k, 'v) ShardedCache" where
  "sharded_get key c =
     (fst (locked_get key (shard_for key c)),
      c\<lparr>sc_shards := at_shard (shard_index key c) (\<lambda>s. snd (locked_get key s)) (sc_shards c)\<rparr>)"

definition sharded_peek :: "'k \<Rightarrow> ('k, 'v) ShardedCache \<Rightarrow> 'v option" where
  "sharded_peek key c = locked_peek key (shard_for key c)"

definition sharded_put :: "'k \<Rightarrow> 'v \<Rightarrow> ('k, 'v) ShardedCache \<Rightarrow> ('k, 'v) ShardedCache" where
  "sharded_put key v c =
     c\<lparr>sc_shards := at_shard (shard_index key c) (locked_put key v) (sc_shards c)\<rparr>"

definition sharded_erase :: "'k \<Rightarrow> ('k, 'v) ShardedCache \<Rightarrow> bool \<times> ('k, 'v) ShardedCache" where
  "sharded_erase key c =
     (fst (locked_erase key (shard_for key c)),
      c\<lparr>sc_shards := at_shard (shard_index key c) (\<lambda>s. snd (locked_erase key s)) (sc_shards c)\<rparr>)"

definition sharded_clear :: "('k, 'v) ShardedCache \<Rightarrow> ('k, 'v) ShardedCache" where
  "sharded_clear c = c\<lparr>sc_shards := map locked_clear (sc_shards c)\<rparr>"

definition sharded_size :: "('k, 'v) ShardedCache \<Rightarrow> nat" where
  "sharded_size c = (\<Sum>s\<leftarrow>sc_shards c. locked_size s)"

definition add_metrics :: "CacheMetrics \<Rightarrow> CacheMetrics \<Rightarrow> CacheMetrics" where
  "add_metrics t m =
     \<lparr>hits = hits t + hits m, misses = misses t + misses m, insertions = insertions t + insertions m,
      updates = updates t + updates m, evictions = evictions t + evictions m\<rparr>"

definition sharded_metrics :: "('k, 'v) ShardedCache \<Rightarrow> CacheMetrics" where
  "sharded_metrics c = foldl (\<lambda>t s. add_metrics t (locked_metrics s)) zero_metrics (sc_shards c)"

definition snapshot_shard :: "nat \<Rightarrow> ('k, 'v) ShardedCache \<Rightarrow> ('k \<times> 'v) list" where
  "snapshot_shard i c = locked_snapshot (sc_shards c ! i)"

definition shard_sizes :: "('k, 'v) ShardedCache \<Rightarrow> nat list" where
  "shard_sizes c = map locked_size (sc_shards c)"

fun sharded_step ::
  "('k, 'v) cache_op \<Rightarrow> ('k, 'v) ShardedCache \<Rightarrow> 'v cache_out \<times> ('k, 'v) ShardedCache" where
  "sharded_step (OpGet k) c = (let (r, c') = sharded_get k c in (OutValue r, c'))"
| "sharded_step (OpPeek k) c = (OutValue (sharded_peek k c), c)"
| "sharded_step (OpPut k v) c = (OutUnit, sharded_put k v c)"
| "sharded_step (OpErase k) c = (let (r, c') = sharded_erase k c in (OutErased r, c'))"
| "sharded_step OpClear c = (OutUnit, sharded_clear c)"

text \<open>The value most recently written under a key and not erased since.\<close>

fun last_write :: "('k, 'v) cache_op list \<Rightarrow> 'k \<Rightarrow> 'v option" where
  "last_write [] k = None"
| "last_write (x # xs) k =
     (case x of
        OpPut k' v \<Rightarrow> (if k' = k then Some v else last_write xs k)
      | OpErase k' \<Rightarrow> (if k' = k then None else last_write xs k)
      | OpClear \<Rightarrow> None
      | _ \<Rightarrow> last_write xs k)"

definition shard_keys :: "('k, 'v) LockedCache \<Rightarrow> 'k set" where
  "shard_keys s = fst ` set (locked_snapshot s)"

definition shard_ok :: "nat \<Rightarrow> ('k, 'v) LockedCache \<Rightarrow> bool" where
  "shard_ok cap s \<longleftrightarrow> lru_inv (lk_cache s) \<and> c_capacity (lk_cache s) = cap"

definition sharded_inv :: "('k, 'v) ShardedCache \<Rightarrow> bool" where
  "sharded_inv c \<longleftrightarrow>
     has_single_bit (sc_shard_count c) \<and> sc_mask c = sc_shard_count c - 1 \<and>
     shards_wf (\<lambda>k. masked_index (sc_mask c) (sc_hasher c k)) (Suc (unat (sc_mask c))) shard_keys
       (shard_ok (unat (sc_capacity c div sc_shard_count c))) (sc_shards c)"

subsection \<open>One shard\<close>

interpretation cs: shard_array "\<lambda>k. masked_index m (h k)" "Suc (unat m)" shard_keys "shard_ok cap"
  locked_size cap for m h cap
  by unfold_locales (auto simp: masked_index_le shard_ok_def locked_size_def lru_size_def lru_inv_def)

lemma shard_keys_dom: "shard_keys s = dom (map_of (locked_snapshot s))"
  by (simp add: shard_keys_def dom_map_of_conv_image_fst)

lemma locked_peek_view: "shard_ok cap s \<Longrightarrow> locked_peek k s = map_of (locked_snapshot s) k"
  by (simp add: locked_peek_def locked_snapshot_def lru_peek_eq shard_ok_def)

lemma locked_get_view:
  assumes "shard_ok cap s"
  shows "shard_ok cap (snd (locked_get k s))"
    and "map_of (locked_snapshot (snd (locked_get k s))) = map_of (locked_snapshot s)"
    and "fst (locked_get k s) = map_of (locked_snapshot s) k"
  using assms lru_get_inv [of "lk_cache s" k] lru_get_view [of "lk_cache s" k]
    lru_get_result [of "lk_cache s" k]
  by (auto simp: shard_ok_def locked_get_def locked_snapshot_def split_beta)

lemma locked_erase_view:
  assumes "shard_ok cap s"
  shows "shard_ok cap (snd (locked_erase k s))"
    and "map_of (locked_snapshot (snd (locked_erase k s))) k'
       = (if k' = k then None else map_of (locked_snapshot s) k')"
  using assms lru_erase_inv [of "lk_cache s" k] lru_erase_view [of "lk_cache s" k k']
  by (auto simp: shard_ok_def locked_erase_def locked_snapshot_def split_beta)

lemma locked_put_view:
  assumes "shard_ok cap s"
  shows "shard_ok cap (locked_put k v s)"
    and "map_of (locked_snapshot (locked_put k v s)) k = Some v"
    and "k' \<noteq> k \<Longrightarrow> map_of (locked_snapshot (locked_put k v s)) k' = Some w
           \<Longrightarrow> map_of (locked_snapshot s) k' = Some w"
    and "locked_size s < cap \<or> k \<in> shard_keys s \<Longrightarrow> k' \<noteq> k
           \<Longrightarrow> map_of (locked_snapshot (locked_put k v s)) k' = map_of (locked_snapshot s) k'"
proof -
  have i: "lru_inv (lk_cache s)" and c: "c_capacity (lk_cache s) = cap"
    using assms by (simp_all add: shard_ok_def)
  note p = lru_put_spec [OF i, of k v]
  show "shard_ok cap (locked_put k v s)"
    using p c by (simp add: shard_ok_def locked_put_def lru_put_shared_def)
  have e: "locked_snapshot (locked_put k v s) = spec_put cap k v (locked_snapshot s)"
    using p c by (simp add: locked_snapshot_def locked_put_def lru_put_shared_def)
  show "map_of (locked_snapshot (locked_put k v s)) k = Some v"
    unfolding e by (rule spec_put_view_same)
  show "map_of (locked_snapshot s) k' = Some w"
    if "k' \<noteq> k" "map_of (locked_snapshot (locked_put k v s)) k' = Some w"
    using spec_put_view_other [OF _ that(1), of "locked_snapshot s" cap v w] that(2)
      for_each_distinct [OF i] unfolding e by (simp add: locked_snapshot_def)
  show "map_of (locked_snapshot (locked_put k v s)) k' = map_of (locked_snapshot s) k'"
    if "locked_size s < cap \<or> k \<in> shard_keys s" "k' \<noteq> k"
    using that for_each_length [OF i] unfolding e
    by (intro spec_put_view_keep)
      (auto simp: shard_keys_def locked_size_def lru_size_def locked_snapshot_def)
qed

lemma locked_clear_view:
  assumes "shard_ok cap s"
  shows "shard_ok cap (locked_clear s)" and "locked_snapshot (locked_clear s) = []"
  using assms lru_clear_spec [of "lk_cache s"]
  by (simp_all add: shard_ok_def locked_clear_def locked_snapshot_def)

subsection \<open>All shards\<close>

abbreviation shard_cap :: "('k, 'v) ShardedCache \<Rightarrow> nat" where
  "shard_cap c \<equiv> unat (sc_capacity c div sc_shard_count c)"

lemma sharded_inv_wf:
  "sharded_inv c \<Longrightarrow>
     shards_wf (\<lambda>k. masked_index (sc_mask c) (sc_hasher c k)) (Suc (unat (sc_mask c))) shard_keys
       (shard_ok (shard_cap c)) (sc_shards c)"
  unfolding sharded_inv_def by blast

lemma shard_for_ok: "sharded_inv c \<Longrightarrow> shard_ok (shard_cap c) (shard_for k c)"
  unfolding shard_for_def shard_index_def by (rule cs.wf_home [OF sharded_inv_wf])

lemma sharded_peek_view: "sharded_inv c \<Longrightarrow> sharded_peek k c = map_of (locked_snapshot (shard_for k c)) k"
  unfolding sharded_peek_def by (rule locked_peek_view [OF shard_for_ok])

lemma sharded_at:
  assumes "sharded_inv c" and "shard_ok (shard_cap c) (f (shard_for k c))"
    and "shard_keys (f (shard_for k c)) \<subseteq> insert k (shard_keys (shard_for k c))"
    and "c' = c\<lparr>sc_shards := at_shard (shard_index k c) f (sc_shards c)\<rparr>"
  shows "sharded_inv c'" and "shard_index k' c' = shard_index k' c"
    and "shard_for k' c' = (if shard_index k' c = shard_index k c then f (shard_for k c) else shard_for k' c)"
proof -
  note wf = sharded_inv_wf [OF assms(1)]
  have "shards_wf (\<lambda>k. masked_index (sc_mask c) (sc_hasher c k)) (Suc (unat (sc_mask c))) shard_keys
       (shard_ok (shard_cap c)) (at_shard (shard_index k c) f (sc_shards c))"
    using cs.wf_at_shard [OF wf, of f k] assms(2,3) unfolding shard_for_def shard_index_def .
  then show "sharded_inv c'" using assms(1) by (simp add: sharded_inv_def assms(4))
  show "shard_index k' c' = shard_index k' c" by (simp add: assms(4) shard_index_def)
  show "shard_for k' c' = (if shard_index k' c = shard_index k c then f (shard_for k c) else shard_for k' c)"
    using cs.at_shard_same [OF wf, of k f] cs.at_shard_other [of "sc_mask c" "sc_hasher c" k' k f "sc_shards c"]
    by (auto simp: assms(4) shard_for_def shard_index_def)
qed

lemma keys_subsetI:
  assumes "\<And>k' w. k' \<noteq> k \<Longrightarrow> map_of (locked_snapshot t) k' = Some w \<Longrightarrow> map_of (locked_snapshot s) k' = Some w"
  shows "shard_keys t \<subseteq> insert k (shard_keys s)"
  using assms by (auto simp: shard_keys_dom)

lemma sharded_get_view:
  assumes "sharded_inv c" and "sharded_get k c = (r, c')"
  shows "sharded_inv c'" and "r = sharded_peek k c" and "sharded_peek k' c' = sharded_peek k' c"
proof -
  note g = locked_get_view [OF shard_for_ok [OF assms(1)], of k]
  have c': "c' = c\<lparr>sc_shards := at_shard (shard_index k c) (\<lambda>s. snd (locked_get k s)) (sc_shards c)\<rparr>"
    and r: "r = fst (locked_get k (shard_for k c))"
    using assms(2) by (auto simp: sharded_get_def)
  have ks: "shard_keys (snd (locked_get k (shard_for k c))) \<subseteq> insert k (shard_keys (shard_for k c))"
    using g(2) by (intro keys_subsetI) simp
  note a = sharded_at [OF assms(1) g(1) ks c']
  show i: "sharded_inv c'" by (rule a(1))
  show "r = sharded_peek k c" unfolding r sharded_peek_view [OF assms(1)] by (rule g(3))
  show "sharded_peek k' c' = sharded_peek k' c"
    using g(2) unfolding sharded_peek_view [OF assms(1)] sharded_peek_view [OF i] a(3)
    by (simp add: shard_for_def)
qed

lemma sharded_put_view:
  assumes "sharded_inv c"
  shows "sharded_inv (sharded_put k v c)" and "sharded_peek k (sharded_put k v c) = Some v"
    and "k' \<noteq> k \<Longrightarrow> sharded_peek k' (sharded_put k v c) = Some w \<Longrightarrow> sharded_peek k' c = Some w"
    and "shard_index k' c \<noteq> shard_index k c \<Longrightarrow> sharded_peek k' (sharded_put k v c) = sharded_peek k' c"
    and "locked_size (shard_for k c) < shard_cap c \<or> sharded_peek k c \<noteq> None \<Longrightarrow> k' \<noteq> k
           \<Longrightarrow> sharded_peek k' (sharded_put k v c) = sharded_peek k' c"
proof -
  note p = locked_put_view [OF shard_for_ok [OF assms]]
  have ks: "shard_keys (locked_put k v (shard_for k c)) \<subseteq> insert k (shard_keys (shard_for k c))"
    by (intro keys_subsetI) (rule p(3))
  note a = sharded_at [OF assms p(1) ks sharded_put_def]
  show i: "sharded_inv (sharded_put k v c)" by (rule a(1))
  note view = sharded_peek_view [OF assms] sharded_peek_view [OF i] a(3)
  show "sharded_peek k (sharded_put k v c) = Some v" using p(2) by (simp add: view)
  show "sharded_peek k' c = Some w"
    if "k' \<noteq> k" "sharded_peek k' (sharded_put k v c) = Some w"
  proof (cases "shard_index k' c = shard_index k c")
    case True
    then have "shard_for k' c = shard_for k c" by (simp add: shard_for_def)
    with True that p(3) [of k' k v k w] show ?thesis by (simp add: view)
  qed (use that in \<open>simp add: view\<close>)
  show "sharded_peek k' (sharded_put k v c) = sharded_peek k' c"
    if "shard_index k' c \<noteq> shard_index k c"
    using that by (simp add: view)
  show "sharded_peek k' (sharded_put k v c) = sharded_peek k' c"
    if "locked_size (shard_for k c) < shard_cap c \<or> sharded_peek k c \<noteq> None" "k' \<noteq> k"
  proof -
    have "locked_size (shard_for k c) < shard_cap c \<or> k \<in> shard_keys (shard_for k c)"
      using that(1) by (auto simp: view shard_keys_dom)
    note q = p(4) [OF this that(2)]
    show ?thesis
    proof (cases "shard_index k' c = shard_index k c")
      case True
      then have "shard_for k' c = shard_for k c" by (simp add: shard_for_def)
      with True q show ?thesis by (simp add: view)
    qed (simp add: view)
  qed
qed

lemma sharded_erase_view:
  assumes "sharded_inv c" and "sharded_erase k c = (r, c')"
  shows "sharded_inv c'" and "sharded_peek k' c' = (if k' = k then None else sharded_peek k' c)"
proof -
  note g = locked_erase_view [OF shard_for_ok [OF assms(1)], of k]
  have c': "c' = c\<lparr>sc_shards := at_shard (shard_index k c) (\<lambda>s. snd (locked_erase k s)) (sc_shards c)\<rparr>"
    using assms(2) by (auto simp: sharded_erase_def)
  have ks: "shard_keys (snd (locked_erase k (shard_for k c))) \<subseteq> insert k (shard_keys (shard_for k c))"
    using g(2) by (intro keys_subsetI) simp
  note a = sharded_at [OF assms(1) g(1) ks c']
  show i: "sharded_inv c'" by (rule a(1))
  show "sharded_peek k' c' = (if k' = k then None else sharded_peek k' c)"
    using g(2) [of k'] unfolding sharded_peek_view [OF assms(1)] sharded_peek_view [OF i] a(3)
    by (auto simp: shard_for_def)
qed

lemma sharded_clear_view:
  assumes "sharded_inv c"
  shows "sharded_inv (sharded_clear c)" and "sharded_peek k (sharded_clear c) = None"
proof -
  note wf = sharded_inv_wf [OF assms]
  have "shards_wf (\<lambda>k. masked_index (sc_mask c) (sc_hasher c k)) (Suc (unat (sc_mask c))) shard_keys
       (shard_ok (shard_cap c)) (map locked_clear (sc_shards c))"
    using wf unfolding shards_wf_def by (auto simp: shard_keys_def locked_clear_view)
  then show i: "sharded_inv (sharded_clear c)"
    using assms by (simp add: sharded_inv_def sharded_clear_def)
  have "shard_index k c < length (sc_shards c)"
    using wf masked_index_le unfolding shards_wf_def shard_index_def by simp
  then have "shard_for k (sharded_clear c) = locked_clear (shard_for k c)"
    by (simp add: shard_for_def shard_index_def sharded_clear_def)
  then show "sharded_peek k (sharded_clear c) = None"
    using sharded_peek_view [OF i] locked_clear_view(2) [OF shard_for_ok [OF assms]] by simp
qed

lemma sharded_make_inv:
  assumes "sharded_make h cap n = Inr c"
  shows "sharded_inv c" and "sharded_peek k c = None" and "sc_capacity c = cap"
proof -
  obtain s where n: "n \<noteq> 0" "has_single_bit n" and le: "n \<le> cap"
    and s: "locked_make (unat (cap div n)) = Some s"
    and c: "c = \<lparr>sc_capacity = cap, sc_shard_count = n, sc_mask = n - 1, sc_hasher = h,
              sc_shards = replicate (unat n) s\<rparr>"
    using assms by (auto simp: sharded_make_def Let_def split: if_splits option.splits)
  have so: "shard_ok (unat (cap div n)) s" "locked_snapshot s = []"
    using s lru_make_spec by (fastforce simp: locked_make_def shard_ok_def locked_snapshot_def split: option.splits)+
  show i: "sharded_inv c"
    using so n single_bit_count [OF n(2)] by (simp add: c sharded_inv_def shards_wf_def shard_keys_def)
  have "shard_index k c < unat n"
    using masked_index_le [of "n - 1"] single_bit_count [OF n(2)] by (simp add: c shard_index_def)
  then show "sharded_peek k c = None"
    using so(2) unfolding sharded_peek_view [OF i] by (simp add: shard_for_def c)
  show "sc_capacity c = cap" by (simp add: c)
qed

lemma sharded_step_fixed: "sc_capacity (snd (sharded_step x c)) = sc_capacity c"
  by (cases x) (auto simp: sharded_get_def sharded_put_def sharded_erase_def sharded_clear_def)

lemma sharded_step_view:
  assumes "sharded_inv c" and "sharded_step x c = (r, c')"
  shows "sharded_inv c'"
    and "(\<And>k w. sharded_peek k c = Some w \<Longrightarrow> last_write xs k = Some w) \<Longrightarrow>
           sharded_peek k c' = Some w \<Longrightarrow> last_write (x # xs) k = Some w"
proof -
  have "sharded_inv c' \<and> ((\<forall>k w. sharded_peek k c = Some w \<longrightarrow> last_write xs k = Some w) \<longrightarrow>
           sharded_peek k c' = Some w \<longrightarrow> last_write (x # xs) k = Some w)"
  proof (cases x)
    case (OpGet k')
    with assms sharded_get_view [OF assms(1), of k'] show ?thesis by (auto split: prod.splits)
  next
    case (OpPut k' v)
    with assms sharded_put_view(1-2) [OF assms(1)] sharded_put_view(3) [OF assms(1), of k k' v w]
    show ?thesis by auto
  next
    case (OpErase k')
    with assms sharded_erase_view [OF assms(1), of k'] show ?thesis
      by (auto split: prod.splits if_splits)
  qed (use assms sharded_clear_view [OF assms(1)] in auto)
  then show "sharded_inv c'"
    and "(\<And>k w. sharded_peek k c = Some w \<Longrightarrow> last_write xs k = Some w) \<Longrightarrow>
           sharded_peek k c' = Some w \<Longrightarrow> last_write (x # xs) k = Some w"
    by blast+
qed

lemma sharded_run_view:
  assumes "sharded_make h cap n = Inr c"
  shows "sharded_inv (snd (run_ops sharded_step ops c)) \<and>
         sc_capacity (snd (run_ops sharded_step ops c)) = cap \<and>
         (sharded_peek k (snd (run_ops sharded_step ops c)) = Some w
            \<longrightarrow> last_write (rev ops) k = Some w)"
proof (induction ops arbitrary: k w rule: rev_induct)
  case Nil
  with sharded_make_inv [OF assms] show ?case by simp
next
  case (snoc x ops)
  let ?c = "snd (run_ops sharded_step ops c)"
  have "sharded_step x ?c = (fst (sharded_step x ?c), snd (sharded_step x ?c))" by simp
  note v = sharded_step_view [OF _ this]
  show ?case
    using snoc.IH v(1) v(2) [of "rev ops" k w] sharded_step_fixed [of x ?c]
    by (simp add: run_ops_snoc)
qed

lemma sharded_inv_size:
  assumes "sharded_inv c"
  shows "sharded_size c \<le> unat (sc_capacity c)"
proof -
  have "Suc (unat (sc_mask c)) = unat (sc_shard_count c)"
    using assms single_bit_count by (simp add: sharded_inv_def)
  then have "sharded_size c \<le> unat (sc_shard_count c) * shard_cap c"
    using cs.total_size [OF sharded_inv_wf [OF assms]] unfolding sharded_size_def by metis
  also have "\<dots> \<le> unat (sc_capacity c)" by (simp add: unat_div)
  finally show ?thesis .
qed

subsection \<open>Visiting every shard\<close>

text \<open>The entries of all shards in the order of the shards, as a scan of the cache sees them.\<close>

definition all_entries :: "('k, 'v) ShardedCache \<Rightarrow> ('k \<times> 'v) list" where
  "all_entries c = concat (map (\<lambda>i. snapshot_shard i c) [0..<unat (sc_shard_count c)])"

lemma snapshot_shard_facts:
  assumes "sharded_inv c" "i < unat (sc_shard_count c)"
  shows "distinct (map fst (snapshot_shard i c))"
    "(k, v) \<in> set (snapshot_shard i c) \<longleftrightarrow> shard_index k c = i \<and> sharded_peek k c = Some v"
proof -
  have n: "length (sc_shards c) = unat (sc_shard_count c)"
    using assms(1) single_bit_count unfolding sharded_inv_def shards_wf_def by simp
  have ok: "shard_ok (shard_cap c) (sc_shards c ! i)"
    and home: "\<And>k. k \<in> shard_keys (sc_shards c ! i) \<Longrightarrow> shard_index k c = i"
    using sharded_inv_wf [OF assms(1)] assms(2) n unfolding shards_wf_def shard_index_def by auto
  show d: "distinct (map fst (snapshot_shard i c))"
    using ok for_each_distinct by (auto simp: snapshot_shard_def locked_snapshot_def shard_ok_def)
  have "(k, v) \<in> set (snapshot_shard i c) \<longleftrightarrow> map_of (snapshot_shard i c) k = Some v"
    using d by simp
  then show "(k, v) \<in> set (snapshot_shard i c) \<longleftrightarrow> shard_index k c = i \<and> sharded_peek k c = Some v"
    using home [of k] sharded_peek_view [OF assms(1), of k]
    by (force simp: snapshot_shard_def shard_for_def shard_keys_def dest: map_of_SomeD)
qed

lemma all_entries_facts:
  assumes "sharded_inv c"
  shows "distinct (map fst (all_entries c))"
    "(k, v) \<in> set (all_entries c) \<longleftrightarrow> sharded_peek k c = Some v"
proof -
  note f = snapshot_shard_facts [OF assms]
  have "n \<le> unat (sc_shard_count c) \<Longrightarrow> distinct (map fst (concat (map (\<lambda>i. snapshot_shard i c) [0..<n])))" for n
  proof (induction n)
    case (Suc n)
    have "shard_index k c < n" if "i < n" "(k, v) \<in> set (snapshot_shard i c)" for i k v
      using f(2) [of i k v] that Suc.prems by simp
    moreover have "shard_index k c = n" if "(k, v) \<in> set (snapshot_shard n c)" for k v
      using f(2) [of n k v] that Suc.prems by simp
    ultimately show ?case using Suc f(1) [of n] by (fastforce simp del: upt_Suc simp add: upt_Suc_append)
  qed simp
  then show "distinct (map fst (all_entries c))" by (simp add: all_entries_def)
  have "shard_index k c < unat (sc_shard_count c)"
    using masked_index_le [of "sc_mask c" "sc_hasher c k"] assms single_bit_count
    unfolding sharded_inv_def shard_index_def by simp
  then show "(k, v) \<in> set (all_entries c) \<longleftrightarrow> sharded_peek k c = Some v"
    using f(2) by (auto simp: all_entries_def)
qed

subsection \<open>Properties\<close>



text \<open>
  A write is read back, and it disturbs another key only by evicting it: after any sequence of
  operations, \<open>put k v\<close> makes \<open>k\<close> map to \<open>v\<close>; another key keeps its value or is evicted; and it
  keeps its value when it lives in another shard or the written shard has room or holds \<open>k\<close>.
\<close>

lemma sharded_put_lookup:
  assumes "sharded_make hasher cap n = Inr c" and "c' = snd (run_ops sharded_step ops c)"
    and "k' \<noteq> k"
  shows "sharded_peek k (sharded_put k v c') = Some v \<and>
         sharded_peek k' (sharded_put k v c') \<in> {sharded_peek k' c', None} \<and>
         (shard_index k' c' \<noteq> shard_index k c' \<or>
          locked_size (shard_for k c') < unat (sc_capacity c' div sc_shard_count c') \<or>
          sharded_peek k c' \<noteq> None
          \<longrightarrow> sharded_peek k' (sharded_put k v c') = sharded_peek k' c')"
proof -
  have "sharded_inv c'" using sharded_run_view [OF assms(1)] assms(2) by blast
  note v = sharded_put_view [OF this]
  have "sharded_peek k' (sharded_put k v c') \<in> {sharded_peek k' c', None}"
    using v(3) [OF assms(3), of v] by (cases "sharded_peek k' (sharded_put k v c')") auto
  with v(2) v(4) [of k' k v] v(5) [of k k' v] assms(3) show ?thesis by blast
qed

text \<open>
  The cache never holds more entries than its capacity, whatever the operations were.
\<close>

lemma sharded_size_bounded:
  assumes "sharded_make hasher cap n = Inr c"
  shows "sharded_size (snd (run_ops sharded_step ops c)) \<le> unat cap"
  using sharded_run_view [OF assms, of ops] sharded_inv_size by metis

end
