(* ===== verification/Exposure_Store.thy ===== *)
theory Exposure_Store
  imports Rank_Types Std_List Shard_Router
begin

section \<open>Policy and exposure counters (policy.hpp, exposure\_store.hpp, exposure\_store.cpp)\<close>

text \<open>
  The compliance gate: per-item lifetime and rolling-window counters, in shards that are each
  guarded by one mutex, so that \<open>reserve\<close>, \<open>check\<close> and \<open>forget\<close> are atomic steps. The relaxed
  counters are 64-bit words. The rolling estimate is computed in doubles, as in the source.

  The lemmas show that the index of the recency list is in step with it, that under fail-open
  it lists exactly the tracked items, that a new item is always admitted once it has a slot, and
  that the rounded estimate never falls below the current window's count. The properties are the
  caps themselves, over every sequence of operations.
\<close>

subsection \<open>Configuration and state\<close>

record PolicyConfig =
  exposure_cap :: u64
  frequency_limit :: u32
  frequency_window :: "64 word"
  max_tracked_items :: u64
  fail_open_when_full :: bool

datatype Decision = Allowed | ExposureCapReached | FrequencyLimited | StoreFull

record ExposureEntry =
  lifetime_shows :: u64
  window_index :: u64
  current :: u32
  previous :: u32

definition fresh_entry :: ExposureEntry where
  "fresh_entry = \<lparr>lifetime_shows = 0, window_index = 0, current = 0, previous = 0\<rparr>"

record EShard =
  sh_entries :: "(ItemId, ExposureEntry) umap"
  sh_recency :: "ItemId std_list"
  sh_recency_index :: "(ItemId, nat) umap"

definition empty_shard :: EShard where
  "empty_shard = \<lparr>sh_entries = [], sh_recency = sl_nil, sh_recency_index = []\<rparr>"

record ExposureStore =
  es_config :: PolicyConfig
  es_shard_count :: u64
  es_mask :: u64
  es_per_shard_capacity :: u64
  es_shards :: "EShard list"
  es_allowed :: u64
  es_exposure_blocked :: u64
  es_frequency_blocked :: u64
  es_store_full_blocked :: u64
  es_evicted :: u64

record PolicyMetrics =
  pm_allowed :: u64
  pm_exposure_blocked :: u64
  pm_frequency_blocked :: u64
  pm_store_full_blocked :: u64
  pm_evicted :: u64
  pm_tracked :: u64

datatype store_error = EsShardCountNotPowerOfTwo | EsMaxTrackedBelowShardCount

definition es_make :: "PolicyConfig \<Rightarrow> u64 \<Rightarrow> store_error + ExposureStore" where
  "es_make config shard_count =
     (if shard_count = 0 \<or> \<not> has_single_bit shard_count then Inl EsShardCountNotPowerOfTwo
      else if max_tracked_items config < shard_count then Inl EsMaxTrackedBelowShardCount
      else Inr \<lparr>es_config = config, es_shard_count = shard_count, es_mask = shard_count - 1,
                es_per_shard_capacity = max_tracked_items config div shard_count,
                es_shards = replicate (unat shard_count) empty_shard,
                es_allowed = 0, es_exposure_blocked = 0, es_frequency_blocked = 0,
                es_store_full_blocked = 0, es_evicted = 0\<rparr>)"

definition es_shard_index :: "ItemId \<Rightarrow> ExposureStore \<Rightarrow> nat" where
  "es_shard_index iid st = masked_index (es_mask st) iid"

definition es_shard_for :: "ItemId \<Rightarrow> ExposureStore \<Rightarrow> EShard" where
  "es_shard_for iid st = es_shards st ! es_shard_index iid st"

subsection \<open>The rolling estimate\<close>

definition es_to_millis :: "Timestamp \<Rightarrow> u64" where
  "es_to_millis now = to_epoch_millis now"

definition u64_double :: "u64 \<Rightarrow> double" where
  "u64_double w = double_of_nat (unat w)"

definition u32_double :: "u32 \<Rightarrow> double" where
  "u32_double w = double_of_nat (unat w)"

definition estimate_without_advancing :: "PolicyConfig \<Rightarrow> ExposureEntry \<Rightarrow> u64 \<Rightarrow> double" where
  "estimate_without_advancing config entry now_ms =
     (let window_ms = frequency_window config in
      if window_ms = 0 then 0
      else
        let index = now_ms div window_ms;
            (previous, current) =
              (if index = window_index entry + 1 then (current entry, 0)
               else if index \<noteq> window_index entry then (0, 0)
               else (previous entry, current entry));
            elapsed = u64_double (now_ms mod window_ms);
            weight = 1 - elapsed / u64_double window_ms
        in u32_double previous * weight + u32_double current)"

definition advance_and_estimate ::
  "PolicyConfig \<Rightarrow> ExposureEntry \<Rightarrow> u64 \<Rightarrow> ExposureEntry \<times> double" where
  "advance_and_estimate config entry now_ms =
     (let window_ms = frequency_window config in
      if window_ms = 0 then (entry, 0)
      else
        let index = now_ms div window_ms;
            entry =
              (if index = window_index entry + 1
               then entry\<lparr>previous := current entry, current := 0, window_index := index\<rparr>
               else if index \<noteq> window_index entry
               then entry\<lparr>previous := 0, current := 0, window_index := index\<rparr>
               else entry);
            elapsed = u64_double (now_ms mod window_ms);
            weight = 1 - elapsed / u64_double window_ms
        in (entry, u32_double (previous entry) * weight + u32_double (current entry)))"

subsection \<open>Operations on one shard\<close>

definition touch_recency :: "PolicyConfig \<Rightarrow> ItemId \<Rightarrow> EShard \<Rightarrow> EShard" where
  "touch_recency config iid sh =
     (if \<not> fail_open_when_full config then sh
      else case map_of (sh_recency_index sh) iid of
        Some it \<Rightarrow> sh\<lparr>sh_recency := sl_splice_begin it (sh_recency sh)\<rparr>
      | None \<Rightarrow>
          let sh = sh\<lparr>sh_recency := sl_push_front iid (sh_recency sh)\<rparr>
          in sh\<lparr>sh_recency_index := umap_emplace iid (sl_begin (sh_recency sh)) (sh_recency_index sh)\<rparr>)"

text \<open>\<open>evict_one\<close>: \<open>None\<close> is the result \<open>false\<close>, when there is nothing to evict.\<close>

definition evict_one :: "EShard \<Rightarrow> EShard option" where
  "evict_one sh =
     (if cells (sh_recency sh) = [] then None
      else let victim = snd (last (cells (sh_recency sh)))
           in Some (sh\<lparr>sh_recency := sl_pop_back (sh_recency sh),
                       sh_recency_index := AList.delete victim (sh_recency_index sh),
                       sh_entries := AList.delete victim (sh_entries sh)\<rparr>))"

text \<open>
  The first half of \<open>reserve\<close>: the entry of \<open>iid\<close>, created if absent, with whether an eviction made
  room; \<open>None\<close> when the store is full.
\<close>

definition find_or_create ::
  "PolicyConfig \<Rightarrow> u64 \<Rightarrow> ItemId \<Rightarrow> u64 \<Rightarrow> EShard \<Rightarrow> (bool \<times> ExposureEntry \<times> EShard) option" where
  "find_or_create config capacity iid now_ms sh =
     (case map_of (sh_entries sh) iid of
        Some entry \<Rightarrow> Some (False, entry, sh)
      | None \<Rightarrow>
          let entry = fresh_entry\<lparr>window_index :=
                (if 0 <s frequency_window config then now_ms div frequency_window config else 0)\<rparr>;
              emplace = (\<lambda>sh. sh\<lparr>sh_entries := umap_emplace iid entry (sh_entries sh)\<rparr>)
          in if unat capacity \<le> length (sh_entries sh)
             then (if \<not> fail_open_when_full config then None
                   else case evict_one sh of
                     None \<Rightarrow> None
                   | Some sh \<Rightarrow> Some (True, entry, emplace sh))
             else Some (False, entry, emplace sh))"

definition set_entry :: "ItemId \<Rightarrow> ExposureEntry \<Rightarrow> EShard \<Rightarrow> EShard" where
  "set_entry iid entry sh = sh\<lparr>sh_entries := AList.update iid entry (sh_entries sh)\<rparr>"

definition reserve_shard ::
  "PolicyConfig \<Rightarrow> u64 \<Rightarrow> ItemId \<Rightarrow> u64 \<Rightarrow> EShard \<Rightarrow> Decision \<times> bool \<times> EShard" where
  "reserve_shard config capacity iid now_ms sh =
     (case find_or_create config capacity iid now_ms sh of
        None \<Rightarrow> (StoreFull, False, sh)
      | Some (evicted, entry, sh) \<Rightarrow>
          if 0 < exposure_cap config \<and> exposure_cap config \<le> lifetime_shows entry
          then (ExposureCapReached, evicted, sh)
          else
            let (entry, limited) =
              (if 0 < frequency_limit config then
                 let (entry, estimate) = advance_and_estimate config entry now_ms
                 in if u32_double (frequency_limit config) < estimate + 1 then (entry, True)
                    else (entry\<lparr>current := current entry + 1\<rparr>, False)
               else (entry, False))
            in if limited then (FrequencyLimited, evicted, set_entry iid entry sh)
               else (Allowed, evicted,
                     touch_recency config iid
                       (set_entry iid (entry\<lparr>lifetime_shows := lifetime_shows entry + 1\<rparr>) sh)))"

definition check_shard :: "PolicyConfig \<Rightarrow> u64 \<Rightarrow> ItemId \<Rightarrow> u64 \<Rightarrow> EShard \<Rightarrow> Decision" where
  "check_shard config capacity iid now_ms sh =
     (case map_of (sh_entries sh) iid of
        None \<Rightarrow> (if unat capacity \<le> length (sh_entries sh) \<and> \<not> fail_open_when_full config
                 then StoreFull else Allowed)
      | Some entry \<Rightarrow>
          if 0 < exposure_cap config \<and> exposure_cap config \<le> lifetime_shows entry
          then ExposureCapReached
          else if 0 < frequency_limit config \<and>
                  u32_double (frequency_limit config)
                    < estimate_without_advancing config entry now_ms + 1
          then FrequencyLimited
          else Allowed)"

definition forget_shard :: "ItemId \<Rightarrow> EShard \<Rightarrow> EShard" where
  "forget_shard iid sh =
     (let sh = sh\<lparr>sh_entries := AList.delete iid (sh_entries sh)\<rparr> in
      case map_of (sh_recency_index sh) iid of
        None \<Rightarrow> sh
      | Some it \<Rightarrow> sh\<lparr>sh_recency := sl_erase it (sh_recency sh),
                      sh_recency_index := AList.delete iid (sh_recency_index sh)\<rparr>)"

definition clear_shard :: "EShard \<Rightarrow> EShard" where
  "clear_shard sh = sh\<lparr>sh_entries := [], sh_recency := sl_clear (sh_recency sh), sh_recency_index := []\<rparr>"

subsection \<open>Operations on the store\<close>

definition count_decision :: "Decision \<Rightarrow> bool \<Rightarrow> ExposureStore \<Rightarrow> ExposureStore" where
  "count_decision d evicted st =
     (let st = (if evicted then st\<lparr>es_evicted := es_evicted st + 1\<rparr> else st) in
      case d of
        Allowed \<Rightarrow> st\<lparr>es_allowed := es_allowed st + 1\<rparr>
      | ExposureCapReached \<Rightarrow> st\<lparr>es_exposure_blocked := es_exposure_blocked st + 1\<rparr>
      | FrequencyLimited \<Rightarrow> st\<lparr>es_frequency_blocked := es_frequency_blocked st + 1\<rparr>
      | StoreFull \<Rightarrow> st\<lparr>es_store_full_blocked := es_store_full_blocked st + 1\<rparr>)"

definition reserve :: "ItemId \<Rightarrow> Timestamp \<Rightarrow> ExposureStore \<Rightarrow> Decision \<times> ExposureStore" where
  "reserve iid now st =
     (let now_ms = es_to_millis now;
          f = reserve_shard (es_config st) (es_per_shard_capacity st) iid now_ms;
          (d, evicted, sh) = f (es_shard_for iid st);
          st = st\<lparr>es_shards := at_shard (es_shard_index iid st) (\<lambda>_. sh) (es_shards st)\<rparr>
      in (d, count_decision d evicted st))"

definition check :: "ItemId \<Rightarrow> Timestamp \<Rightarrow> ExposureStore \<Rightarrow> Decision" where
  "check iid now st =
     check_shard (es_config st) (es_per_shard_capacity st) iid (es_to_millis now) (es_shard_for iid st)"

definition forget :: "ItemId \<Rightarrow> ExposureStore \<Rightarrow> ExposureStore" where
  "forget iid st =
     st\<lparr>es_shards := at_shard (es_shard_index iid st) (forget_shard iid) (es_shards st)\<rparr>"

definition es_clear :: "ExposureStore \<Rightarrow> ExposureStore" where
  "es_clear st = st\<lparr>es_shards := map clear_shard (es_shards st)\<rparr>"

definition tracked :: "ExposureStore \<Rightarrow> nat" where
  "tracked st = (\<Sum>sh\<leftarrow>es_shards st. length (sh_entries sh))"

definition es_metrics :: "ExposureStore \<Rightarrow> PolicyMetrics" where
  "es_metrics st =
     \<lparr>pm_allowed = es_allowed st, pm_exposure_blocked = es_exposure_blocked st,
      pm_frequency_blocked = es_frequency_blocked st,
      pm_store_full_blocked = es_store_full_blocked st, pm_evicted = es_evicted st,
      pm_tracked = of_nat (tracked st)\<rparr>"

subsection \<open>Invariants\<close>

definition entry_ok :: "PolicyConfig \<Rightarrow> ExposureEntry \<Rightarrow> bool" where
  "entry_ok config e \<longleftrightarrow>
     (0 < exposure_cap config \<longrightarrow> lifetime_shows e \<le> exposure_cap config) \<and>
     (0 < frequency_limit config \<and> frequency_window config \<noteq> 0 \<longrightarrow>
        current e \<le> frequency_limit config \<and> previous e \<le> frequency_limit config)"

definition eshard_ok :: "PolicyConfig \<Rightarrow> u64 \<Rightarrow> EShard \<Rightarrow> bool" where
  "eshard_ok config capacity sh \<longleftrightarrow>
     umap_wf (sh_entries sh) \<and> length (sh_entries sh) \<le> unat capacity \<and>
     linked (\<lambda>x. x) (sh_recency sh) (sh_recency_index sh) \<and>
     (fail_open_when_full config \<longrightarrow> set (sl_list (sh_recency sh)) = fst ` set (sh_entries sh)) \<and>
     (\<not> fail_open_when_full config \<longrightarrow> sl_list (sh_recency sh) = []) \<and>
     (\<forall>p\<in>set (sh_entries sh). entry_ok config (snd p))"

definition eshard_keys :: "EShard \<Rightarrow> ItemId set" where
  "eshard_keys sh = fst ` set (sh_entries sh)"

definition es_inv :: "ExposureStore \<Rightarrow> bool" where
  "es_inv st \<longleftrightarrow>
     has_single_bit (es_shard_count st) \<and> es_mask st = es_shard_count st - 1 \<and>
     es_per_shard_capacity st = max_tracked_items (es_config st) div es_shard_count st \<and>
     0 < es_per_shard_capacity st \<and>
     shards_wf (masked_index (es_mask st)) (Suc (unat (es_mask st))) eshard_keys
       (eshard_ok (es_config st) (es_per_shard_capacity st)) (es_shards st)"

interpretation esa: shard_array "masked_index m" "Suc (unat m)" eshard_keys "eshard_ok config capacity"
  "\<lambda>sh. length (sh_entries sh)" "unat capacity" for m config capacity
  by unfold_locales (auto simp: masked_index_le eshard_ok_def)

subsection \<open>The estimate\<close>

lemma unat_u64: "unat (w :: u64) < 2 ^ 64"
  using unsigned_less [of w, where ?'a = nat] by simp

lemma unat_u32: "unat (w :: u32) < 2 ^ 32"
  using unsigned_less [of w, where ?'a = nat] by simp

lemma u32_double_facts:
  "is_finite (u32_double w)" "dval (u32_double w) = of_nat (unat w)"
  using unat_u32 [of w] by (simp_all add: u32_double_def double_of_nat_finite dval_double_of_nat)

lemma weight_unit:
  assumes "w \<noteq> 0" and "r < w"
  defines "q \<equiv> 1 - u64_double r / u64_double w"
  shows "is_finite q \<and> 0 \<le> dval q \<and> dval q \<le> 1"
proof -
  let ?r = "u64_double r" and ?w = "u64_double w"
  have fin: "is_finite ?r" "is_finite ?w"
    using unat_u64 by (simp_all add: u64_double_def double_of_nat_finite)
  have "1 \<le> unat w" using assms(1) by (simp add: unat_gt_0 Suc_leI)
  from double_of_nat_mono [OF this unat_u64] have w: "1 \<le> dval ?w"
    unfolding u64_double_def double_of_nat_1 by simp
  have "unat r \<le> unat w" using assms(2) by (simp add: word_less_nat_alt)
  from double_of_nat_mono [OF this unat_u64] have le: "dval ?r \<le> dval ?w" by (simp add: u64_double_def)
  have r: "0 \<le> dval ?r"
    using double_of_nat_mono [OF le0 unat_u64, of r] by (simp add: u64_double_def double_of_nat_0)
  have "dval 0 \<le> dval ?r / dval ?w" "dval ?r / dval ?w \<le> dval 1"
    using r le w by simp_all
  note rnd_between [OF zero_double_facts(1) one_double_facts(1) this]
  then have d: "is_finite (?r / ?w)" "0 \<le> dval (?r / ?w)" "dval (?r / ?w) \<le> 1"
    using w fin by (simp_all add: divide_finite)
  have "dval 0 \<le> dval 1 - dval (?r / ?w)" "dval 1 - dval (?r / ?w) \<le> dval 1"
    using d by simp_all
  note rnd_between [OF zero_double_facts(1) one_double_facts(1) this]
  then show ?thesis using d(1) by (simp add: q_def minus_finite)
qed

text \<open>The weighted sum, and the sum plus one, are bracketed by exact integers.\<close>

lemma estimate_bracket:
  fixes p c :: u32
  assumes "is_finite q" and "0 \<le> dval q" and "dval q \<le> 1"
  defines "s \<equiv> u32_double p * q + u32_double c"
  shows "is_finite (s + 1) \<and> of_nat (unat c + 1) \<le> dval (s + 1) \<and>
         dval (s + 1) \<le> of_nat (unat p + unat c + 1)"
proof -
  note p = u32_double_facts [of p] and c = u32_double_facts [of c]
  have small: "unat p < 2 ^ 53" "unat c + 1 < 2 ^ 53" "unat p + unat c < 2 ^ 53"
      "unat p + unat c + 1 < 2 ^ 53" "unat p + unat c < 2 ^ 64" "unat c + 1 < 2 ^ 64"
      "unat p + unat c + 1 < 2 ^ 64"
    using unat_u32 [of p] unat_u32 [of c] by simp_all
  note nd = double_of_nat_finite dval_double_of_nat
  have pn: "0 \<le> dval (u32_double p)" unfolding p(2) by (rule of_nat_0_le_iff)
  have "dval 0 \<le> dval (u32_double p) * dval q" "dval (u32_double p) * dval q \<le> dval (u32_double p)"
    using mult_nonneg_nonneg [OF pn assms(2)] mult_left_le [OF assms(3) pn] by simp_all
  note rnd_between [OF zero_double_facts(1) p(1) this]
  then have m: "is_finite (u32_double p * q)" "0 \<le> dval (u32_double p * q)"
      "dval (u32_double p * q) \<le> of_nat (unat p)"
    using assms p by (simp_all add: times_finite)
  have "dval (u32_double c) \<le> dval (u32_double p * q) + dval (u32_double c)"
    "dval (u32_double p * q) + dval (u32_double c) \<le> dval (double_of_nat (unat p + unat c))"
    using m c small by (simp_all add: nd)
  note rnd_between [OF c(1) double_of_nat_finite [OF small(5)] this]
  then have s: "is_finite s" "of_nat (unat c) \<le> dval s" "dval s \<le> of_nat (unat p + unat c)"
    using m c small by (simp_all add: s_def plus_finite nd)
  have "dval (double_of_nat (unat c + 1)) \<le> dval s + dval 1"
    "dval s + dval 1 \<le> dval (double_of_nat (unat p + unat c + 1))"
    unfolding dval_double_of_nat [OF small(2)] dval_double_of_nat [OF small(4)]
    using s by simp_all
  note rnd_between [OF double_of_nat_finite [OF small(6)] double_of_nat_finite [OF small(7)] this]
  then show ?thesis
    unfolding plus_finite [OF s(1) one_double_facts(1)] dval_double_of_nat [OF small(2)]
      dval_double_of_nat [OF small(4)] by blast
qed

lemma advance_estimate:
  assumes "advance_and_estimate config e now_ms = (e', est)" and "frequency_window config \<noteq> 0"
  shows "is_finite (est + 1) \<and> of_nat (unat (current e') + 1) \<le> dval (est + 1) \<and>
         dval (est + 1) \<le> of_nat (unat (previous e') + unat (current e') + 1)"
proof -
  let ?w = "frequency_window config"
  have "now_ms mod ?w < ?w" using assms(2) by (simp add: word_mod_less_divisor word_gt_0)
  from weight_unit [OF assms(2) this] estimate_bracket assms(1,2)
  show ?thesis unfolding advance_and_estimate_def Let_def by auto
qed

lemma estimate_agree: "estimate_without_advancing config e now_ms = snd (advance_and_estimate config e now_ms)"
  by (simp add: estimate_without_advancing_def advance_and_estimate_def Let_def)

lemma advance_shows [simp]: "lifetime_shows (fst (advance_and_estimate config e now_ms)) = lifetime_shows e"
  by (simp add: advance_and_estimate_def Let_def)

lemma frequency_gate:
  assumes "advance_and_estimate config e now_ms = (e', est)" and "frequency_window config \<noteq> 0"
    and "\<not> u32_double (frequency_limit config) < est + 1"
  shows "unat (current e') < unat (frequency_limit config)"
proof -
  note b = advance_estimate [OF assms(1,2)]
  from assms(3) b have "dval (est + 1) \<le> of_nat (unat (frequency_limit config))"
    by (simp add: less_double_finite u32_double_facts not_less)
  with b have "rat_of_nat (unat (current e') + 1) \<le> of_nat (unat (frequency_limit config))"
    using order_trans by blast
  then show ?thesis by (simp only: of_nat_le_iff)
qed

lemma one_plus_zero: "dval (0 + 1) = 1" "is_finite (0 + 1 :: double)"
  using rnd_between [of 1 1 1 False] by (simp_all add: plus_finite)

lemma fresh_admitted:
  assumes "current e = 0" and "previous e = 0" and "0 < frequency_limit config"
  shows "\<not> u32_double (frequency_limit config) < snd (advance_and_estimate config e now_ms) + 1"
proof -
  obtain e' est where a: "advance_and_estimate config e now_ms = (e', est)" by fastforce
  have "dval (est + 1) \<le> 1 \<and> is_finite (est + 1)"
  proof (cases "frequency_window config = 0")
    case True
    with a one_plus_zero show ?thesis by (simp add: advance_and_estimate_def Let_def)
  next
    case False
    have "current e' = 0 \<and> previous e' = 0"
      using a assms(1,2) by (auto simp: advance_and_estimate_def Let_def split: if_splits)
    with advance_estimate [OF a False] show ?thesis by simp
  qed
  moreover have "1 \<le> unat (frequency_limit config)" using assms(3) by (simp add: word_less_nat_alt Suc_leI)
  then have "(1 :: rat) \<le> of_nat (unat (frequency_limit config))" by (metis of_nat_1 of_nat_le_iff)
  ultimately show ?thesis
    using a by (simp add: less_double_finite u32_double_facts)
qed

subsection \<open>One shard\<close>

text \<open>
  The state between the lookup and the touch of \<open>reserve\<close>: \<open>iid\<close> has an entry, and under
  fail-open every tracked item but perhaps \<open>iid\<close> is on the recency list.
\<close>

definition eshard_mid :: "PolicyConfig \<Rightarrow> u64 \<Rightarrow> ItemId \<Rightarrow> EShard \<Rightarrow> bool" where
  "eshard_mid config capacity iid sh \<longleftrightarrow>
     umap_wf (sh_entries sh) \<and> length (sh_entries sh) \<le> unat capacity \<and>
     linked (\<lambda>x. x) (sh_recency sh) (sh_recency_index sh) \<and>
     (fail_open_when_full config \<longrightarrow>
        insert iid (set (sl_list (sh_recency sh))) = fst ` set (sh_entries sh)) \<and>
     (\<not> fail_open_when_full config \<longrightarrow> sl_list (sh_recency sh) = []) \<and>
     (\<forall>p\<in>set (sh_entries sh). entry_ok config (snd p)) \<and> iid \<in> fst ` set (sh_entries sh)"

lemma entry_ok_fresh: "entry_ok config (fresh_entry\<lparr>window_index := w\<rparr>)"
  by (simp add: entry_ok_def fresh_entry_def)

lemma delete_keys: "fst ` set (AList.delete k m) = fst ` set m - {k}"
  by (auto simp: umap_delete_filter)

lemma evict_one_spec:
  assumes "eshard_ok config capacity sh" and "fail_open_when_full config" and "sh_entries sh \<noteq> []"
  obtains victim sh' where "evict_one sh = Some sh'" and "victim \<in> fst ` set (sh_entries sh)"
    and "sh_entries sh' = AList.delete victim (sh_entries sh)" and "eshard_ok config capacity sh'"
    and "length (sh_entries sh') < length (sh_entries sh)"
proof -
  have lk: "linked (\<lambda>x. x) (sh_recency sh) (sh_recency_index sh)"
    and rs: "set (sl_list (sh_recency sh)) = fst ` set (sh_entries sh)"
    and wf: "umap_wf (sh_entries sh)"
    using assms by (simp_all add: eshard_ok_def)
  have ne: "cells (sh_recency sh) \<noteq> []"
    using rs assms(3) by (cases "cells (sh_recency sh)") (auto simp: sl_list_def)
  let ?v = "snd (last (cells (sh_recency sh)))"
  note p = linked_pop_back [OF lk ne]
  have last: "?v = last (sl_list (sh_recency sh))" using ne by (simp add: sl_list_def last_map)
  have d: "distinct (sl_list (sh_recency sh))" using linked_distinct [OF lk] by simp
  have nel: "sl_list (sh_recency sh) \<noteq> []" using ne by (simp add: sl_list_def)
  have v: "?v \<in> fst ` set (sh_entries sh)"
    unfolding last rs [symmetric] using nel by (rule last_in_set)
  define sh' where "sh' = sh\<lparr>sh_recency := sl_pop_back (sh_recency sh),
                       sh_recency_index := AList.delete ?v (sh_recency_index sh),
                       sh_entries := AList.delete ?v (sh_entries sh)\<rparr>"
  have e: "evict_one sh = Some sh'" using ne by (simp add: evict_one_def sh'_def Let_def)
  have len: "Suc (length (AList.delete ?v (sh_entries sh))) = length (sh_entries sh)"
    using v by (intro umap_size_delete [OF wf]) (simp add: map_of_eq_None_iff)
  have "set (butlast (sl_list (sh_recency sh))) = set (sl_list (sh_recency sh)) - {?v}"
    unfolding last using d nel by (rule set_butlast_distinct)
  then have "eshard_ok config capacity sh'"
    using assms p len unfolding eshard_ok_def sh'_def
    by (auto simp: delete_keys umap_delete_filter distinct_map_filter)
  with that e v len show ?thesis by (simp add: sh'_def)
qed

lemma emplace_mid:
  assumes "eshard_ok config capacity sh" and "map_of (sh_entries sh) iid = None"
    and "length (sh_entries sh) < unat capacity" and "entry_ok config e"
  shows "eshard_mid config capacity iid (sh\<lparr>sh_entries := umap_emplace iid e (sh_entries sh)\<rparr>)"
  using assms by (auto simp: eshard_ok_def eshard_mid_def umap_emplace_def map_of_eq_None_iff)

lemma ok_mid:
  assumes "eshard_ok config capacity sh" and "map_of (sh_entries sh) iid = Some e"
  shows "eshard_mid config capacity iid sh"
proof -
  have "iid \<in> fst ` set (sh_entries sh)" using map_of_SomeD [OF assms(2)] by force
  with assms(1) show ?thesis by (auto simp: eshard_ok_def eshard_mid_def)
qed

lemma find_or_create_None:
  assumes "eshard_ok config capacity sh" and "0 < capacity"
    and "find_or_create config capacity iid now_ms sh = None"
  shows "\<not> fail_open_when_full config \<and> map_of (sh_entries sh) iid = None \<and>
         unat capacity \<le> length (sh_entries sh)"
proof -
  have "0 < unat capacity" using assms(2) by (simp add: word_less_nat_alt)
  then have "evict_one sh \<noteq> None" if "fail_open_when_full config" "unat capacity \<le> length (sh_entries sh)"
    using evict_one_spec [OF assms(1) that(1)] that(2) by (metis list.size(3) not_le option.distinct(1))
  with assms(3) show ?thesis
    by (auto simp: find_or_create_def Let_def split: option.splits if_splits)
qed

lemma find_or_create_Some:
  assumes "eshard_ok config capacity sh" and "0 < capacity"
    and "find_or_create config capacity iid now_ms sh = Some (ev, e, sh')"
  shows "eshard_mid config capacity iid sh'" and "map_of (sh_entries sh') iid = Some e"
    and "(sh' = sh \<and> map_of (sh_entries sh) iid = Some e) \<or>
         (map_of (sh_entries sh) iid = None \<and> lifetime_shows e = 0 \<and> current e = 0 \<and> previous e = 0)"
    and "j \<noteq> iid \<Longrightarrow> map_of (sh_entries sh') j \<in> {map_of (sh_entries sh) j, None}"
    and "j \<noteq> iid \<Longrightarrow> \<not> fail_open_when_full config \<Longrightarrow> map_of (sh_entries sh') j = map_of (sh_entries sh) j"
proof -
  let ?e = "fresh_entry\<lparr>window_index :=
      (if 0 <s frequency_window config then now_ms div frequency_window config else 0)\<rparr>"
  let ?emp = "\<lambda>sh. sh\<lparr>sh_entries := umap_emplace iid ?e (sh_entries sh)\<rparr>"
  let ?G = "\<lambda>sh'. eshard_mid config capacity iid sh' \<and> map_of (sh_entries sh') iid = Some e \<and>
    ((sh' = sh \<and> map_of (sh_entries sh) iid = Some e) \<or>
     (map_of (sh_entries sh) iid = None \<and> lifetime_shows e = 0 \<and> current e = 0 \<and> previous e = 0)) \<and>
    (j \<noteq> iid \<longrightarrow> map_of (sh_entries sh') j \<in> {map_of (sh_entries sh) j, None}) \<and>
    (j \<noteq> iid \<longrightarrow> \<not> fail_open_when_full config \<longrightarrow> map_of (sh_entries sh') j = map_of (sh_entries sh) j)"
  have cap: "0 < unat capacity" using assms(2) by (simp add: word_less_nat_alt)
  have "?G sh'"
  proof (cases "map_of (sh_entries sh) iid")
    case (Some e0)
    with assms(3) have "e0 = e" "sh' = sh" by (simp_all add: find_or_create_def)
    with Some ok_mid [OF assms(1)] show ?thesis by simp
  next
    case None
    show ?thesis
    proof (cases "unat capacity \<le> length (sh_entries sh)")
      case False
      with None assms(3) have "e = ?e" "sh' = ?emp sh" by (auto simp: find_or_create_def Let_def)
      with False None emplace_mid [OF assms(1) None _ entry_ok_fresh] show ?thesis
        by (simp add: umap_emplace_def fresh_entry_def)
    next
      case True
      with None assms(3) have fo: "fail_open_when_full config"
        by (auto simp: find_or_create_def Let_def split: if_splits)
      from True cap have "sh_entries sh \<noteq> []" by auto
      from evict_one_spec [OF assms(1) fo this] obtain v sh1 where v:
        "evict_one sh = Some sh1" "sh_entries sh1 = AList.delete v (sh_entries sh)"
        "eshard_ok config capacity sh1" "length (sh_entries sh1) < length (sh_entries sh)" by metis
      have n1: "map_of (sh_entries sh1) iid = None" using None v(2) by (simp add: delete_conv')
      have "e = ?e" "sh' = ?emp sh1"
        using True None assms(3) fo v(1) by (auto simp: find_or_create_def Let_def)
      moreover have "length (sh_entries sh1) < unat capacity"
        using v(4) assms(1) by (simp add: eshard_ok_def)
      ultimately show ?thesis
        using emplace_mid [OF v(3) n1 _ entry_ok_fresh] n1 None v(2) fo
        by (auto simp: umap_emplace_def fresh_entry_def delete_conv')
    qed
  qed
  then show "eshard_mid config capacity iid sh'" and "map_of (sh_entries sh') iid = Some e"
    and "(sh' = sh \<and> map_of (sh_entries sh) iid = Some e) \<or>
         (map_of (sh_entries sh) iid = None \<and> lifetime_shows e = 0 \<and> current e = 0 \<and> previous e = 0)"
    and "j \<noteq> iid \<Longrightarrow> map_of (sh_entries sh') j \<in> {map_of (sh_entries sh) j, None}"
    and "j \<noteq> iid \<Longrightarrow> \<not> fail_open_when_full config \<Longrightarrow> map_of (sh_entries sh') j = map_of (sh_entries sh) j"
    by blast+
qed

lemma set_entry_mid:
  assumes "eshard_mid config capacity iid sh" and "entry_ok config e"
  shows "eshard_mid config capacity iid (set_entry iid e sh)"
proof -
  have k: "iid \<in> fst ` set (sh_entries sh)" using assms(1) by (simp add: eshard_mid_def)
  have "map fst (AList.update iid e (sh_entries sh)) = map fst (sh_entries sh)"
    using k by (simp add: update_keys)
  then have "fst ` set (AList.update iid e (sh_entries sh)) = fst ` set (sh_entries sh)"
    and "length (AList.update iid e (sh_entries sh)) = length (sh_entries sh)"
    by (metis set_map, metis length_map)
  moreover have "entry_ok config (snd p)" if "p \<in> set (AList.update iid e (sh_entries sh))" for p
  proof (cases "fst p = iid")
    case True
    have "map_of (AList.update iid e (sh_entries sh)) (fst p) = Some (snd p)"
      using that assms(1) by (simp add: eshard_mid_def distinct_update)
    with True assms(2) show ?thesis by (simp add: update_conv')
  next
    case False
    have "map_of (AList.update iid e (sh_entries sh)) (fst p) = Some (snd p)"
      using that assms(1) by (simp add: eshard_mid_def distinct_update)
    with False have "map_of (sh_entries sh) (fst p) = Some (snd p)" by (simp add: update_conv')
    then have "(fst p, snd p) \<in> set (sh_entries sh)" by (rule map_of_SomeD)
    with assms(1) show ?thesis by (auto simp: eshard_mid_def)
  qed
  ultimately show ?thesis
    using assms(1) by (simp add: eshard_mid_def set_entry_def distinct_update)
qed

lemma touch_recency_ok:
  assumes "eshard_mid config capacity iid sh"
  shows "eshard_ok config capacity (touch_recency config iid sh)"
    and "sh_entries (touch_recency config iid sh) = sh_entries sh"
proof -
  have lk: "linked (\<lambda>x. x) (sh_recency sh) (sh_recency_index sh)"
    using assms by (simp add: eshard_mid_def)
  show e: "sh_entries (touch_recency config iid sh) = sh_entries sh"
    by (simp add: touch_recency_def Let_def split: option.splits)
  show "eshard_ok config capacity (touch_recency config iid sh)"
  proof (cases "fail_open_when_full config")
    case False
    with assms show ?thesis by (simp add: eshard_mid_def eshard_ok_def touch_recency_def)
  next
    case True
    show ?thesis
    proof (cases "map_of (sh_recency_index sh) iid")
      case None
      note p = linked_push_front [OF lk None]
      have "touch_recency config iid sh
          = sh\<lparr>sh_recency := sl_push_front iid (sh_recency sh),
               sh_recency_index := (iid, sl_begin (sl_push_front iid (sh_recency sh))) # sh_recency_index sh\<rparr>"
        using True None by (simp add: touch_recency_def Let_def umap_emplace_def)
      with assms p True show ?thesis by (simp add: eshard_mid_def eshard_ok_def)
    next
      case (Some i)
      then obtain x where x: "map_of (cells (sh_recency sh)) i = Some x" "x = iid"
          "x \<in> set (sl_list (sh_recency sh))"
        using linked_Some [OF lk Some] by blast
      note s = linked_splice [OF lk Some x(1)]
      have "set (sl_list (sl_splice_begin i (sh_recency sh))) = set (sl_list (sh_recency sh))"
        unfolding s(2) using x by auto
      with assms s(1) True Some x show ?thesis
        by (auto simp: eshard_mid_def eshard_ok_def touch_recency_def insert_absorb)
    qed
  qed
qed

text \<open>The whole of \<open>reserve\<close> on the shard of the item.\<close>

definition shows_in :: "EShard \<Rightarrow> ItemId \<Rightarrow> nat" where
  "shows_in sh iid = (case map_of (sh_entries sh) iid of None \<Rightarrow> 0 | Some e \<Rightarrow> unat (lifetime_shows e))"

definition window_count :: "u64 \<Rightarrow> EShard \<Rightarrow> ItemId \<Rightarrow> nat" where
  "window_count w sh iid =
     (case map_of (sh_entries sh) iid of None \<Rightarrow> 0
      | Some e \<Rightarrow> if window_index e = w then unat (current e) else 0)"

text \<open>The frequency test of \<open>reserve\<close> on an entry that is below its lifetime cap.\<close>

definition frequency_step ::
  "PolicyConfig \<Rightarrow> u64 \<Rightarrow> ExposureEntry \<Rightarrow> ExposureEntry \<times> bool" where
  "frequency_step config now_ms entry =
     (if 0 < frequency_limit config then
        let (entry, estimate) = advance_and_estimate config entry now_ms
        in if u32_double (frequency_limit config) < estimate + 1 then (entry, True)
           else (entry\<lparr>current := current entry + 1\<rparr>, False)
      else (entry, False))"

lemma reserve_shard_alt:
  "reserve_shard config capacity iid now_ms sh =
     (case find_or_create config capacity iid now_ms sh of
        None \<Rightarrow> (StoreFull, False, sh)
      | Some (evicted, entry, sh) \<Rightarrow>
          if 0 < exposure_cap config \<and> exposure_cap config \<le> lifetime_shows entry
          then (ExposureCapReached, evicted, sh)
          else case frequency_step config now_ms entry of
            (entry, True) \<Rightarrow> (FrequencyLimited, evicted, set_entry iid entry sh)
          | (entry, False) \<Rightarrow>
              (Allowed, evicted, touch_recency config iid
                 (set_entry iid (entry\<lparr>lifetime_shows := lifetime_shows entry + 1\<rparr>) sh)))"
  unfolding reserve_shard_def frequency_step_def
  by (intro option.case_cong prod.case_cong if_cong refl)
    (auto split: prod.splits bool.splits)

lemma advance_entry_ok:
  assumes "entry_ok config e" and "advance_and_estimate config e now_ms = (e', est)"
  shows "entry_ok config e'"
  using assms by (auto simp: entry_ok_def advance_and_estimate_def Let_def split: if_splits)

lemma advance_window:
  assumes "advance_and_estimate config e now_ms = (e', est)" and "frequency_window config \<noteq> 0"
  shows "window_index e' = now_ms div frequency_window config"
    and "unat (current e') = (if window_index e = now_ms div frequency_window config
                              then unat (current e) else 0)"
  using assms by (auto simp: advance_and_estimate_def Let_def split: if_splits)

lemma unat_Suc_less:
  fixes x y :: "'a::len word"
  assumes "unat x < unat y"
  shows "unat (x + 1) = Suc (unat x)"
proof -
  have "Suc (unat x) < 2 ^ LENGTH('a)"
    using assms unsigned_less [of y, where ?'a = nat] by (rule Suc_le_lessD [OF Suc_leI, THEN le_less_trans [OF Suc_leI]])
  then show ?thesis by (simp add: unat_word_ariths)
qed

lemma frequency_step_spec:
  assumes "frequency_step config now_ms e = (e', limited)" and "entry_ok config e"
  shows "lifetime_shows e' = lifetime_shows e" and "entry_ok config e'"
    and "limited \<longleftrightarrow> 0 < frequency_limit config \<and>
           u32_double (frequency_limit config) < estimate_without_advancing config e now_ms + 1"
    and "0 < frequency_limit config \<Longrightarrow> frequency_window config \<noteq> 0 \<Longrightarrow>
           window_index e' = now_ms div frequency_window config \<and>
           unat (current e') = (if window_index e = now_ms div frequency_window config
                                then unat (current e) else 0) + (if limited then 0 else 1)"
proof -
  obtain e1 est where a: "advance_and_estimate config e now_ms = (e1, est)" by fastforce
  have l: "lifetime_shows e1 = lifetime_shows e" using advance_shows [of config e now_ms] a by simp
  show "lifetime_shows e' = lifetime_shows e"
    using assms(1) a l by (auto simp: frequency_step_def split: if_splits)
  show lim: "limited \<longleftrightarrow> 0 < frequency_limit config \<and>
           u32_double (frequency_limit config) < estimate_without_advancing config e now_ms + 1"
    using assms(1) a by (auto simp: frequency_step_def estimate_agree split: if_splits)
  have gate: "unat (current e1 + 1) = Suc (unat (current e1))"
      "current e1 + 1 \<le> frequency_limit config"
    if "0 < frequency_limit config" "frequency_window config \<noteq> 0" "\<not> limited"
  proof -
    have "unat (current e1) < unat (frequency_limit config)"
      using that a lim by (intro frequency_gate [OF a]) (simp_all add: estimate_agree)
    then show "unat (current e1 + 1) = Suc (unat (current e1))"
        "current e1 + 1 \<le> frequency_limit config"
      by (simp_all add: unat_Suc_less word_le_nat_alt Suc_leI)
  qed
  show "entry_ok config e'"
    using assms a gate(2) advance_entry_ok [OF assms(2) a]
    by (auto simp: frequency_step_def entry_ok_def split: if_splits)
  show "window_index e' = now_ms div frequency_window config \<and>
        unat (current e') = (if window_index e = now_ms div frequency_window config
                                then unat (current e) else 0) + (if limited then 0 else 1)"
    if "0 < frequency_limit config" "frequency_window config \<noteq> 0"
    using assms(1) a that gate(1) advance_window [OF a that(2)]
    by (auto simp: frequency_step_def split: if_splits)
qed

lemma set_entry_view:
  "map_of (sh_entries (set_entry iid e sh)) j = (if j = iid then Some e else map_of (sh_entries sh) j)"
  by (simp add: set_entry_def update_conv')

lemma mid_ok:
  assumes "eshard_mid config capacity iid sh"
    and "fail_open_when_full config \<Longrightarrow> iid \<in> set (sl_list (sh_recency sh))"
  shows "eshard_ok config capacity sh"
  using assms by (auto simp: eshard_mid_def eshard_ok_def insert_absorb)

lemma mid_entry_ok: "eshard_mid config capacity iid sh \<Longrightarrow> map_of (sh_entries sh) j = Some e \<Longrightarrow> entry_ok config e"
  by (auto simp: eshard_mid_def dest: map_of_SomeD)

lemma limited_entry_ok:
  assumes "eshard_ok config capacity sh" and "map_of (sh_entries sh) iid = Some e0" and "entry_ok config e"
  shows "eshard_ok config capacity (set_entry iid e sh)"
proof (rule mid_ok [OF set_entry_mid [OF ok_mid [OF assms(1,2)] assms(3)]])
  have "iid \<in> fst ` set (sh_entries sh)" using map_of_SomeD [OF assms(2)] by force
  then show "fail_open_when_full config \<Longrightarrow> iid \<in> set (sl_list (sh_recency (set_entry iid e sh)))"
    using assms(1) by (simp add: eshard_ok_def set_entry_def)
qed

text \<open>
  What \<open>reserve\<close> does to its shard: it keeps the invariant, decides as \<open>check\<close> would, and its effect
  on the item is either nothing but a window roll or one more show.
\<close>

inductive reserve_effect ::
  "PolicyConfig \<Rightarrow> u64 \<Rightarrow> ItemId \<Rightarrow> u64 \<Rightarrow> EShard \<Rightarrow> Decision \<Rightarrow> EShard \<Rightarrow> bool"
  for config capacity iid now_ms sh where
  full: "reserve_effect config capacity iid now_ms sh StoreFull sh"
  if "\<not> fail_open_when_full config" and "map_of (sh_entries sh) iid = None"
    and "unat capacity \<le> length (sh_entries sh)"
| capped: "reserve_effect config capacity iid now_ms sh ExposureCapReached sh"
  if "map_of (sh_entries sh) iid = Some e" and "0 < exposure_cap config"
    and "exposure_cap config \<le> lifetime_shows e"
| limited: "reserve_effect config capacity iid now_ms sh FrequencyLimited (set_entry iid e' sh)"
  if "map_of (sh_entries sh) iid = Some e" and "entry_ok config e"
    and "\<not> (0 < exposure_cap config \<and> exposure_cap config \<le> lifetime_shows e)"
    and "frequency_step config now_ms e = (e', True)"
| allowed: "reserve_effect config capacity iid now_ms sh Allowed sh'"
  if "entry_ok config e"
    and "map_of (sh_entries sh) iid = Some e \<or>
         map_of (sh_entries sh) iid = None \<and> lifetime_shows e = 0 \<and> current e = 0 \<and>
         (unat capacity \<le> length (sh_entries sh) \<longrightarrow> fail_open_when_full config)"
    and "\<not> (0 < exposure_cap config \<and> exposure_cap config \<le> lifetime_shows e)"
    and "frequency_step config now_ms e = (e', False)"
    and "map_of (sh_entries sh') iid = Some (e'\<lparr>lifetime_shows := lifetime_shows e' + 1\<rparr>)"
    and "\<forall>j. j \<noteq> iid \<longrightarrow> map_of (sh_entries sh') j \<in> {map_of (sh_entries sh) j, None}"
    and "\<not> fail_open_when_full config \<longrightarrow>
         (\<forall>j. j \<noteq> iid \<longrightarrow> map_of (sh_entries sh') j = map_of (sh_entries sh) j)"

lemma entry_ok_Suc:
  assumes "entry_ok config e" and "\<not> (0 < exposure_cap config \<and> exposure_cap config \<le> lifetime_shows e)"
  shows "entry_ok config (e\<lparr>lifetime_shows := lifetime_shows e + 1\<rparr>)"
  using assms by (auto simp: entry_ok_def not_le word_less_nat_alt word_le_nat_alt unat_Suc_less Suc_leI)

lemma fresh_not_limited:
  assumes "current e = 0" and "previous e = 0" and "frequency_step config now_ms e = (e', limited)"
  shows "\<not> limited"
  using fresh_admitted [OF assms(1,2), of config now_ms] assms(3)
  by (auto simp: frequency_step_def split: if_splits prod.splits)

lemma reserve_shard_effect:
  assumes ok: "eshard_ok config capacity sh" and cap: "0 < capacity"
    and r: "reserve_shard config capacity iid now_ms sh = (d, ev, sh')"
  shows "reserve_effect config capacity iid now_ms sh d sh' \<and> eshard_ok config capacity sh'"
proof (cases "find_or_create config capacity iid now_ms sh")
  case None
  with find_or_create_None [OF ok cap None] r ok show ?thesis
    by (auto simp: reserve_shard_def intro: reserve_effect.full)
next
  case (Some t)
  obtain ev0 e sh1 where t: "t = (ev0, e, sh1)" by (cases t)
  note f = find_or_create_Some [OF ok cap Some [unfolded t]]
  have eok: "entry_ok config e" by (rule mid_entry_ok [OF f(1,2)])
  have room: "unat capacity \<le> length (sh_entries sh) \<longrightarrow> fail_open_when_full config"
    if "map_of (sh_entries sh) iid = None"
    using Some that by (auto simp: find_or_create_def Let_def split: if_splits)
  let ?capped = "0 < exposure_cap config \<and> exposure_cap config \<le> lifetime_shows e"
  show ?thesis
  proof (cases ?capped)
    case True
    then have "lifetime_shows e \<noteq> 0" by auto
    with f(3) have "sh1 = sh" "map_of (sh_entries sh) iid = Some e" by auto
    with True Some t r ok show ?thesis
      by (auto simp: reserve_shard_alt intro: reserve_effect.capped)
  next
    case False
    obtain e' limited where s: "frequency_step config now_ms e = (e', limited)" by fastforce
    note fs = frequency_step_spec [OF s eok]
    show ?thesis
    proof (cases limited)
      case True
      with f(3) fresh_not_limited [OF _ _ s] have "sh1 = sh" "map_of (sh_entries sh) iid = Some e" by auto
      moreover from this True False Some t r s have "d = FrequencyLimited" "sh' = set_entry iid e' sh"
        by (auto simp: reserve_shard_alt)
      ultimately show ?thesis
        using True False s eok limited_entry_ok [OF ok _ fs(2)] by (auto intro: reserve_effect.limited)
    next
      case lim: False
      let ?e = "e'\<lparr>lifetime_shows := lifetime_shows e' + 1\<rparr>"
      have d: "d = Allowed" "sh' = touch_recency config iid (set_entry iid ?e sh1)"
        using lim False Some t r s by (auto simp: reserve_shard_alt)
      have "entry_ok config ?e" using fs(1,2) False by (intro entry_ok_Suc) auto
      note m = touch_recency_ok [OF set_entry_mid [OF f(1) this]]
      have "reserve_effect config capacity iid now_ms sh Allowed sh'"
      proof (rule reserve_effect.allowed [OF eok _ False])
        show "frequency_step config now_ms e = (e', False)" using s lim by simp
        show "map_of (sh_entries sh') iid = Some ?e" by (simp add: d(2) m(2) set_entry_view)
        show "map_of (sh_entries sh) iid = Some e \<or>
         map_of (sh_entries sh) iid = None \<and> lifetime_shows e = 0 \<and> current e = 0 \<and>
         (unat capacity \<le> length (sh_entries sh) \<longrightarrow> fail_open_when_full config)"
          using f(3) room by blast
      qed (use f(4,5) in \<open>auto simp: d(2) m(2) set_entry_view\<close>)
      with d m(1) show ?thesis by simp
    qed
  qed
qed

lemma effect_check:
  assumes "reserve_effect config capacity iid now_ms sh d sh'"
  shows "d = check_shard config capacity iid now_ms sh"
  using assms
proof cases
  case (limited e e')
  with frequency_step_spec(3) [OF limited(6,4)] show ?thesis by (auto simp: check_shard_def)
next
  case (allowed e e')
  with frequency_step_spec(3) [OF allowed(5,2)] show ?thesis by (auto simp: check_shard_def)
qed (auto simp: check_shard_def)

lemma effect_not_full: "reserve_effect config capacity iid now_ms sh d sh' \<Longrightarrow> fail_open_when_full config \<Longrightarrow> d \<noteq> StoreFull"
  by (auto elim: reserve_effect.cases)

lemma effect_shows:
  assumes "reserve_effect config capacity iid now_ms sh d sh'" and "0 < exposure_cap config"
  shows "shows_in sh' iid = shows_in sh iid + (if d = Allowed then 1 else 0)"
  using assms(1)
proof cases
  case (limited e e')
  with frequency_step_spec(1) [OF limited(6,4)] show ?thesis by (simp add: shows_in_def set_entry_view)
next
  case (allowed e e')
  have "unat (lifetime_shows e + 1) = Suc (unat (lifetime_shows e))"
    using allowed(4) assms(2) by (intro unat_Suc_less [of _ "exposure_cap config"])
      (auto simp: word_less_nat_alt word_le_nat_alt)
  with allowed frequency_step_spec(1) [OF allowed(5,2)] show ?thesis by (auto simp: shows_in_def)
qed (auto simp: shows_in_def)

lemma effect_window:
  assumes "reserve_effect config capacity iid now_ms sh d sh'" and "0 < frequency_limit config"
    and "frequency_window config \<noteq> 0" and "w = now_ms div frequency_window config"
  shows "window_count w sh' iid = window_count w sh iid + (if d = Allowed then 1 else 0)"
  using assms(1)
proof cases
  case (limited e e')
  with frequency_step_spec(4) [OF limited(6,4)] assms(2-4) show ?thesis
    by (simp add: window_count_def set_entry_view)
next
  case (allowed e e')
  with frequency_step_spec(4) [OF allowed(5,2)] assms(2-4) show ?thesis
    by (auto simp: window_count_def)
qed simp_all

lemma effect_frame:
  assumes "reserve_effect config capacity iid now_ms sh d sh'" and "j \<noteq> iid"
  shows "map_of (sh_entries sh') j \<in> {map_of (sh_entries sh) j, None}"
    and "\<not> fail_open_when_full config \<Longrightarrow> map_of (sh_entries sh') j = map_of (sh_entries sh) j"
  using assms by (auto elim!: reserve_effect.cases simp: set_entry_view)

lemma shows_in_le:
  assumes "eshard_ok config capacity sh" and "0 < exposure_cap config"
  shows "shows_in sh iid \<le> unat (exposure_cap config)"
  using assms by (auto simp: shows_in_def eshard_ok_def entry_ok_def word_le_nat_alt
      split: option.splits dest!: map_of_SomeD)

lemma window_count_le:
  assumes "eshard_ok config capacity sh" and "0 < frequency_limit config" and "frequency_window config \<noteq> 0"
  shows "window_count w sh iid \<le> unat (frequency_limit config)"
  using assms by (auto simp: window_count_def eshard_ok_def entry_ok_def word_le_nat_alt
      split: option.splits dest!: map_of_SomeD)

lemma forget_shard_ok:
  assumes "eshard_ok config capacity sh"
  shows "eshard_ok config capacity (forget_shard iid sh)"
    and "map_of (sh_entries (forget_shard iid sh)) j = (if j = iid then None else map_of (sh_entries sh) j)"
proof -
  have lk: "linked (\<lambda>x. x) (sh_recency sh) (sh_recency_index sh)"
    using assms by (simp add: eshard_ok_def)
  show "map_of (sh_entries (forget_shard iid sh)) j = (if j = iid then None else map_of (sh_entries sh) j)"
    by (simp add: forget_shard_def Let_def delete_conv' split: option.splits)
  have len: "length (filter (\<lambda>p. fst p \<noteq> iid) (sh_entries sh)) \<le> unat capacity"
    using assms by (auto simp: eshard_ok_def intro: order_trans [OF length_filter_le])
  show "eshard_ok config capacity (forget_shard iid sh)"
  proof (cases "map_of (sh_recency_index sh) iid")
    case None
    with linked_None [OF lk, of iid] assms len show ?thesis
      by (auto simp: eshard_ok_def forget_shard_def Let_def delete_keys umap_delete_filter distinct_map_filter)
  next
    case (Some i)
    with linked_erase [OF lk Some] assms len show ?thesis
      by (auto simp: eshard_ok_def forget_shard_def Let_def delete_keys umap_delete_filter distinct_map_filter)
  qed
qed

lemma clear_shard_ok: "eshard_ok config capacity sh \<Longrightarrow> eshard_ok config capacity (clear_shard sh)"
  by (auto simp: eshard_ok_def clear_shard_def intro: linked_clear)

subsection \<open>The whole store\<close>

datatype es_op = EReserve ItemId Timestamp | ECheck ItemId Timestamp | EForget ItemId | EClear

fun es_step :: "es_op \<Rightarrow> ExposureStore \<Rightarrow> Decision option \<times> ExposureStore" where
  "es_step (EReserve iid now) st = (let (d, st') = reserve iid now st in (Some d, st'))"
| "es_step (ECheck iid now) st = (Some (check iid now st), st)"
| "es_step (EForget iid) st = (None, forget iid st)"
| "es_step EClear st = (None, es_clear st)"

text \<open>
  The shows granted to an item since its counters were last dropped, from the history of calls
  and results, latest first.
\<close>

fun shown :: "ItemId \<Rightarrow> (es_op \<times> Decision option) list \<Rightarrow> nat" where
  "shown iid [] = 0"
| "shown iid ((x, r) # h) =
     (case x of
        EReserve j now \<Rightarrow> (if j = iid \<and> r = Some Allowed then 1 else 0) + shown iid h
      | ECheck j now \<Rightarrow> shown iid h
      | EForget j \<Rightarrow> (if j = iid then 0 else shown iid h)
      | EClear \<Rightarrow> 0)"

lemma es_inv_update:
  assumes "es_inv st" and "es_config st' = es_config st" "es_shard_count st' = es_shard_count st"
    and "es_mask st' = es_mask st" "es_per_shard_capacity st' = es_per_shard_capacity st"
    and "shards_wf (masked_index (es_mask st)) (Suc (unat (es_mask st))) eshard_keys
      (eshard_ok (es_config st) (es_per_shard_capacity st)) (es_shards st')"
  shows "es_inv st'"
  using assms(1,6) unfolding es_inv_def assms(2-5) by blast

lemma es_inv_wf:
  "es_inv st \<Longrightarrow> shards_wf (masked_index (es_mask st)) (Suc (unat (es_mask st))) eshard_keys
     (eshard_ok (es_config st) (es_per_shard_capacity st)) (es_shards st)"
  unfolding es_inv_def by blast

lemma es_shard_for_ok:
  "es_inv st \<Longrightarrow> eshard_ok (es_config st) (es_per_shard_capacity st) (es_shard_for iid st)"
  unfolding es_shard_for_def es_shard_index_def by (rule esa.wf_home [OF es_inv_wf])

lemma count_decision_fields [simp]:
  "es_config (count_decision d ev st) = es_config st"
  "es_shard_count (count_decision d ev st) = es_shard_count st"
  "es_mask (count_decision d ev st) = es_mask st"
  "es_per_shard_capacity (count_decision d ev st) = es_per_shard_capacity st"
  "es_shards (count_decision d ev st) = es_shards st"
  by (simp_all add: count_decision_def Let_def split: Decision.splits)

lemma es_at:
  assumes "es_inv st" and "eshard_ok (es_config st) (es_per_shard_capacity st) (f (es_shard_for iid st))"
    and "\<And>j. j \<noteq> iid \<Longrightarrow> map_of (sh_entries (f (es_shard_for iid st))) j
                 \<in> {map_of (sh_entries (es_shard_for iid st)) j, None}"
    and "es_config st' = es_config st" "es_shard_count st' = es_shard_count st"
    and "es_mask st' = es_mask st" "es_per_shard_capacity st' = es_per_shard_capacity st"
    and "es_shards st' = at_shard (es_shard_index iid st) f (es_shards st)"
  shows "es_inv st'"
    and "es_shard_for j st' = (if es_shard_index j st = es_shard_index iid st
                               then f (es_shard_for iid st) else es_shard_for j st)"
proof -
  note wf = es_inv_wf [OF assms(1)]
  have "eshard_keys (f (es_shard_for iid st)) \<subseteq> insert iid (eshard_keys (es_shard_for iid st))"
    using assms(3) unfolding eshard_keys_def dom_map_of_conv_image_fst [symmetric] by fastforce
  then have "shards_wf (masked_index (es_mask st)) (Suc (unat (es_mask st))) eshard_keys
      (eshard_ok (es_config st) (es_per_shard_capacity st)) (at_shard (es_shard_index iid st) f (es_shards st))"
    using esa.wf_at_shard [OF wf, of f iid] assms(2) unfolding es_shard_for_def es_shard_index_def by blast
  then show "es_inv st'" using assms(4-8) by (intro es_inv_update [OF assms(1)]) simp_all
  show "es_shard_for j st' = (if es_shard_index j st = es_shard_index iid st
                               then f (es_shard_for iid st) else es_shard_for j st)"
    using esa.at_shard_same [OF wf, of iid f] esa.at_shard_other [of "es_mask st" j iid f "es_shards st"]
    by (auto simp: assms(6,8) es_shard_for_def es_shard_index_def)
qed

lemma reserve_spec:
  assumes "es_inv st" and "reserve iid now st = (d, st')"
  shows "es_inv st'" and "es_config st' = es_config st"
    and "es_shard_index j st' = es_shard_index j st"
    and "reserve_effect (es_config st) (es_per_shard_capacity st) iid (es_to_millis now)
           (es_shard_for iid st) d (es_shard_for iid st')"
    and "es_shard_index j st \<noteq> es_shard_index iid st \<Longrightarrow> es_shard_for j st' = es_shard_for j st"
proof -
  obtain d1 ev sh where r: "reserve_shard (es_config st) (es_per_shard_capacity st) iid (es_to_millis now)
      (es_shard_for iid st) = (d1, ev, sh)" by (metis prod_cases3)
  have d: "d = d1" and st': "st' = count_decision d ev
      (st\<lparr>es_shards := at_shard (es_shard_index iid st) (\<lambda>_. sh) (es_shards st)\<rparr>)"
    using assms(2) r by (auto simp: reserve_def Let_def)
  have "0 < es_per_shard_capacity st" using assms(1) unfolding es_inv_def by blast
  note e = reserve_shard_effect [OF es_shard_for_ok [OF assms(1)] this r]
  note a = es_at [OF assms(1), where f = "\<lambda>_. sh" and iid = iid and st' = st']
  have fr: "j \<noteq> iid \<Longrightarrow> map_of (sh_entries sh) j \<in> {map_of (sh_entries (es_shard_for iid st)) j, None}" for j
    using e effect_frame(1) by blast
  show "es_inv st'" using e fr by (intro a(1)) (simp_all add: st')
  show "es_config st' = es_config st" "es_shard_index j st' = es_shard_index j st"
    by (simp_all add: st' es_shard_index_def)
  have v: "es_shard_for j st' = (if es_shard_index j st = es_shard_index iid st
                               then sh else es_shard_for j st)" for j
    using e fr by (intro a(2)) (simp_all add: st')
  show "reserve_effect (es_config st) (es_per_shard_capacity st) iid (es_to_millis now)
           (es_shard_for iid st) d (es_shard_for iid st')"
    using e d by (simp add: v)
  show "es_shard_for j st' = es_shard_for j st" if "es_shard_index j st \<noteq> es_shard_index iid st"
    using that by (simp add: v)
qed

lemma forget_spec:
  assumes "es_inv st"
  shows "es_inv (forget iid st)" and "es_config (forget iid st) = es_config st"
    and "shows_in (es_shard_for j (forget iid st)) j = (if j = iid then 0 else shows_in (es_shard_for j st) j)"
proof -
  note f = forget_shard_ok [OF es_shard_for_ok [OF assms]]
  note a = es_at [OF assms, where f = "forget_shard iid" and iid = iid and st' = "forget iid st"]
  show "es_inv (forget iid st)" using f by (intro a(1)) (simp_all add: forget_def)
  show "es_config (forget iid st) = es_config st" by (simp add: forget_def)
  have v: "es_shard_for j (forget iid st) = (if es_shard_index j st = es_shard_index iid st
      then forget_shard iid (es_shard_for iid st) else es_shard_for j st)"
    using f by (intro a(2)) (simp_all add: forget_def)
  show "shows_in (es_shard_for j (forget iid st)) j = (if j = iid then 0 else shows_in (es_shard_for j st) j)"
    unfolding v using f(2) by (auto simp: shows_in_def es_shard_for_def)
qed

lemma es_clear_spec:
  assumes "es_inv st"
  shows "es_inv (es_clear st)" and "es_config (es_clear st) = es_config st"
    and "shows_in (es_shard_for j (es_clear st)) j = 0"
proof -
  note wf = es_inv_wf [OF assms]
  have "shards_wf (masked_index (es_mask st)) (Suc (unat (es_mask st))) eshard_keys
     (eshard_ok (es_config st) (es_per_shard_capacity st)) (map clear_shard (es_shards st))"
    using wf unfolding shards_wf_def by (auto simp: clear_shard_ok) (simp add: eshard_keys_def clear_shard_def)
  then show "es_inv (es_clear st)" by (intro es_inv_update [OF assms]) (simp_all add: es_clear_def)
  show "es_config (es_clear st) = es_config st" by (simp add: es_clear_def)
  have "es_shard_index j st < length (es_shards st)"
    using wf masked_index_le unfolding shards_wf_def es_shard_index_def by simp
  then show "shows_in (es_shard_for j (es_clear st)) j = 0"
    by (simp add: es_shard_for_def es_shard_index_def es_clear_def shows_in_def clear_shard_def)
qed

lemma es_make_spec:
  assumes "es_make config n = Inr st"
  shows "es_inv st" and "es_config st = config" and "shows_in (es_shard_for j st) j = 0"
proof -
  have n: "has_single_bit n" "n \<noteq> 0" "n \<le> max_tracked_items config"
    and st: "es_config st = config" "es_shard_count st = n" "es_mask st = n - 1"
      "es_per_shard_capacity st = max_tracked_items config div n"
      "es_shards st = replicate (unat n) empty_shard"
    using assms by (auto simp: es_make_def split: if_splits)
  have "0 < unat (max_tracked_items config div n)"
    using n(2,3) by (simp add: unat_div word_le_nat_alt div_greater_zero_iff unat_gt_0)
  then have "0 < max_tracked_items config div n" by (simp add: word_less_nat_alt)
  moreover have "eshard_ok config c empty_shard" for c by (simp add: eshard_ok_def empty_shard_def)
  ultimately show "es_inv st"
    using n st single_bit_count [OF n(1)]
    by (simp add: es_inv_def shards_wf_def eshard_keys_def empty_shard_def)
  show "es_config st = config" by (rule st(1))
  have "es_shard_index j st < unat n"
    using masked_index_le [of "n - 1"] single_bit_count [OF n(1)] by (simp add: st es_shard_index_def)
  then show "shows_in (es_shard_for j st) j = 0"
    by (simp add: es_shard_for_def st empty_shard_def shows_in_def)
qed

lemma reserve_frame:
  assumes "es_inv st" and "reserve iid now st = (d, st')" and "\<not> fail_open_when_full (es_config st)" and "j \<noteq> iid"
  shows "map_of (sh_entries (es_shard_for j st')) j = map_of (sh_entries (es_shard_for j st)) j"
proof (cases "es_shard_index j st = es_shard_index iid st")
  case True
  note r = reserve_spec [OF assms(1,2)]
  have "es_shard_for j st = es_shard_for iid st" "es_shard_for j st' = es_shard_for iid st'"
    using True r(3) [of j] r(3) [of iid] by (simp_all add: es_shard_for_def)
  with effect_frame(2) [OF r(4) assms(4,3)] show ?thesis by simp
next
  case False
  then show ?thesis using reserve_spec(5) [OF assms(1,2)] by simp
qed

lemma reserve_shows:
  assumes "es_inv st" and "reserve iid now st = (d, st')" and "\<not> fail_open_when_full (es_config st)"
    and "0 < exposure_cap (es_config st)"
  shows "shows_in (es_shard_for j st') j
       = shows_in (es_shard_for j st) j + (if j = iid \<and> d = Allowed then 1 else 0)"
proof (cases "j = iid")
  case True
  with effect_shows [OF reserve_spec(4) [OF assms(1,2)] assms(4)] show ?thesis by simp
next
  case False
  with reserve_frame [OF assms(1-3)] show ?thesis by (simp add: shows_in_def)
qed

lemma es_step_inv:
  assumes "es_inv st"
  shows "es_inv (snd (es_step x st)) \<and> es_config (snd (es_step x st)) = es_config st"
  using assms by (cases x) (auto simp: forget_spec es_clear_spec split: prod.splits dest: reserve_spec(1,2))

lemma es_run_inv:
  assumes "es_make config n = Inr st"
  shows "es_inv (snd (run_ops es_step ops st)) \<and> es_config (snd (run_ops es_step ops st)) = config"
proof (rule run_ops_invariant)
  show "es_inv st \<and> es_config st = config" using es_make_spec [OF assms] by simp
qed (use es_step_inv in auto)

lemma es_run_shown:
  assumes "es_inv st" and "\<not> fail_open_when_full (es_config st)" and "0 < exposure_cap (es_config st)"
    and "\<And>j. shows_in (es_shard_for j st) j = shown j h"
    and "run_ops es_step ops st = (rs, st')"
  shows "shows_in (es_shard_for iid st') iid = shown iid (rev (zip ops rs) @ h)"
  using assms
proof (induction ops arbitrary: st h rs)
  case Nil
  then show ?case by simp
next
  case (Cons x ops)
  obtain r st1 where 1: "es_step x st = (r, st1)" by fastforce
  obtain rs1 where 2: "run_ops es_step ops st1 = (rs1, st')" and rs: "rs = r # rs1"
    using Cons.prems(5) 1 by (auto split: prod.splits)
  have i: "es_inv st1" "es_config st1 = es_config st"
    using es_step_inv [OF Cons.prems(1), of x] 1 by simp_all
  have "shows_in (es_shard_for j st1) j = shown j ((x, r) # h)" for j
    using 1 Cons.prems(4) [of j] reserve_shows [OF Cons.prems(1) _ Cons.prems(2,3)]
      forget_spec(3) [OF Cons.prems(1)] es_clear_spec(3) [OF Cons.prems(1)]
    by (cases x) (auto split: prod.splits)
  from Cons.IH [OF i(1) _ _ this 2] Cons.prems(2,3) i(2) show ?case by (simp add: rs)
qed

lemma es_run_window:
  assumes "es_inv st" and "\<not> fail_open_when_full (es_config st)"
    and "0 < frequency_limit (es_config st)" and "frequency_window (es_config st) \<noteq> 0"
    and "list_all (\<lambda>x. case x of
           EReserve j t \<Rightarrow> j \<noteq> iid \<or> es_to_millis t div frequency_window (es_config st) = w
         | ECheck j t \<Rightarrow> True | _ \<Rightarrow> False) ops"
    and "run_ops es_step ops st = (rs, st')"
  shows "window_count w (es_shard_for iid st') iid
       = window_count w (es_shard_for iid st) iid + shown iid (rev (zip ops rs))"
  using assms
proof (induction ops arbitrary: st rs)
  case Nil
  then show ?case by simp
next
  case (Cons x ops)
  obtain r st1 where 1: "es_step x st = (r, st1)" by fastforce
  obtain rs1 where 2: "run_ops es_step ops st1 = (rs1, st')" and rs: "rs = r # rs1"
    using Cons.prems(6) 1 by (auto split: prod.splits)
  have i: "es_inv st1" "es_config st1 = es_config st"
    using es_step_inv [OF Cons.prems(1), of x] 1 by simp_all
  have step: "window_count w (es_shard_for iid st1) iid
      = window_count w (es_shard_for iid st) iid + shown iid [(x, r)]"
  proof (cases x)
    case (EReserve j t)
    then obtain d where d: "reserve j t st = (d, st1)" "r = Some d" using 1 by (auto split: prod.splits)
    show ?thesis
    proof (cases "j = iid")
      case True
      with Cons.prems(5) EReserve have "w = es_to_millis t div frequency_window (es_config st)" by simp
      with effect_window [OF reserve_spec(4) [OF Cons.prems(1) d(1)] Cons.prems(3,4)] True EReserve d(2)
      show ?thesis by simp
    next
      case False
      with reserve_frame [OF Cons.prems(1) d(1) Cons.prems(2), of iid] EReserve show ?thesis
        by (simp add: window_count_def)
    qed
  qed (use 1 Cons.prems(5) in auto)
  have app: "shown iid (h @ [(x, r)]) = shown iid h + shown iid [(x, r)]"
    if "\<forall>p\<in>set h. fst p \<noteq> EClear \<and> (\<forall>j. fst p \<noteq> EForget j)" for h
    using that Cons.prems(5) by (induction h) (auto split: es_op.splits)
  have "\<forall>p\<in>set (rev (zip ops rs1)). fst p \<noteq> EClear \<and> (\<forall>j. fst p \<noteq> EForget j)"
    using Cons.prems(5) by (auto simp: list_all_iff split: es_op.splits dest!: set_zip_leftD)
  note app = app [OF this]
  from Cons.IH [OF i(1) _ _ _ _ 2] Cons.prems(2-5) i(2) step app show ?case by (simp add: rs)
qed

subsection \<open>Properties\<close>

text \<open>
  C2. The lifetime cap holds: in a fail-closed store with a cap, whatever sequence of \<open>reserve\<close>,
  \<open>check\<close>, \<open>forget\<close> and \<open>clear\<close> calls runs, an item is never granted more shows than the cap since
  its counters were last dropped.
\<close>

theorem exposure_cap_never_exceeded:
  assumes "es_make config n = Inr st" and "\<not> fail_open_when_full config" and "0 < exposure_cap config"
    and "run_ops es_step ops st = (rs, st')"
  shows "shown iid (rev (zip ops rs)) \<le> unat (exposure_cap config)"
proof -
  note m = es_make_spec [OF assms(1)]
  have "shows_in (es_shard_for iid st') iid = shown iid (rev (zip ops rs) @ [])"
    using m assms by (intro es_run_shown [OF m(1)]) simp_all
  moreover have i: "es_inv st'" "es_config st' = config" using es_run_inv [OF assms(1), of ops] assms(4) by simp_all
  ultimately show ?thesis
    using shows_in_le [OF es_shard_for_ok [OF i(1)], of iid iid] assms(3) by simp
qed

definition demo_config :: PolicyConfig where
  "demo_config = \<lparr>exposure_cap = 2, frequency_limit = 0, frequency_window = 1000,
                  max_tracked_items = 4, fail_open_when_full = False\<rparr>"

theorem exposure_cap_never_exceeded_witness:
  "let st = projr (es_make demo_config 2); ops = [EReserve 7 0, EReserve 7 0, ECheck 7 0, EReserve 7 0];
       rs = fst (run_ops es_step ops st)
   in rs = [Some Allowed, Some Allowed, Some ExposureCapReached, Some ExposureCapReached] \<and>
      shown 7 (rev (zip ops rs)) \<le> 2"
proof -
  let ?m = "es_make demo_config 2"
  let ?ops = "[EReserve 7 0, EReserve 7 0, ECheck 7 0, EReserve 7 0]"
  have m: "?m = Inr (projr ?m)" by code_simp
  obtain rs st' where r: "run_ops es_step ?ops (projr ?m) = (rs, st')" by fastforce
  have "shown 7 (rev (zip ?ops rs)) \<le> unat (exposure_cap demo_config)"
    by (rule exposure_cap_never_exceeded [OF m _ _ r]) (simp_all add: demo_config_def)
  moreover have "fst (run_ops es_step ?ops (projr ?m))
      = [Some Allowed, Some Allowed, Some ExposureCapReached, Some ExposureCapReached]"
    by code_simp
  ultimately show ?thesis using r by (simp add: Let_def demo_config_def del: run_ops.simps)
qed

text \<open>
  C3. The frequency limit holds within a window: in a fail-closed store, after any history, an item
  is granted at most \<open>frequency_limit\<close> shows by reservations whose times lie in one window, however
  the rounding of the estimate falls.
\<close>

theorem frequency_limit_within_window:
  assumes "es_make config n = Inr st" and "\<not> fail_open_when_full config"
    and "0 < frequency_limit config" and "frequency_window config \<noteq> 0"
    and "list_all (\<lambda>x. case x of
           EReserve j t \<Rightarrow> j \<noteq> iid \<or> es_to_millis t div frequency_window config = w
         | ECheck j t \<Rightarrow> True | _ \<Rightarrow> False) ops"
    and "run_ops es_step ops (snd (run_ops es_step before st)) = (rs, st')"
  shows "shown iid (rev (zip ops rs)) \<le> unat (frequency_limit config)"
proof -
  let ?st = "snd (run_ops es_step before st)"
  have i: "es_inv ?st" "es_config ?st = config" using es_run_inv [OF assms(1)] by simp_all
  have "es_inv st' \<and> es_config st' = config"
    using run_ops_invariant [of ops "\<lambda>s. es_inv s \<and> es_config s = config" es_step ?st] es_step_inv i assms(6)
    by simp
  moreover have "window_count w (es_shard_for iid st') iid
      = window_count w (es_shard_for iid ?st) iid + shown iid (rev (zip ops rs))"
    by (rule es_run_window [OF i(1), unfolded i(2), OF assms(2-6)])
  ultimately show ?thesis
    using window_count_le [OF es_shard_for_ok, of st' w iid iid] assms(3,4) by simp
qed

theorem frequency_limit_within_window_witness:
  "let config = demo_config\<lparr>frequency_limit := 1\<rparr>; st = projr (es_make config 2);
       ops = [EReserve 7 5, EReserve 7 900];
       rs = fst (run_ops es_step ops (snd (run_ops es_step [ECheck 7 0] st)))
   in shown 7 (rev (zip ops rs)) \<le> 1"
proof -
  let ?c = "demo_config\<lparr>frequency_limit := 1\<rparr>"
  let ?m = "es_make ?c 2"
  let ?ops = "[EReserve 7 5, EReserve 7 900]"
  let ?st = "snd (run_ops es_step [ECheck 7 0] (projr ?m))"
  have m: "?m = Inr (projr ?m)" by code_simp
  obtain rs st' where r: "run_ops es_step ?ops ?st = (rs, st')" by fastforce
  have "shown 7 (rev (zip ?ops rs)) \<le> unat (frequency_limit ?c)"
    by (rule frequency_limit_within_window [OF m _ _ _ _ r, where w = 0])
      (simp_all add: demo_config_def es_to_millis_def to_epoch_millis_def)
  then show ?thesis using r by (simp add: Let_def demo_config_def del: run_ops.simps)
qed

text \<open>
  C15. The dry run tells the truth: in every reachable store \<open>check\<close> returns exactly the decision
  that \<open>reserve\<close> would make at the same instant.
\<close>

theorem check_agrees_with_reserve:
  assumes "es_make config n = Inr st" and "st' = snd (run_ops es_step ops st)"
  shows "fst (reserve iid now st') = check iid now st'"
proof -
  have i: "es_inv st'" using es_run_inv [OF assms(1)] assms(2) by simp
  obtain d st'' where r: "reserve iid now st' = (d, st'')" by fastforce
  show ?thesis
    using effect_check [OF reserve_spec(4) [OF i r]] by (simp add: r check_def)
qed

theorem check_agrees_with_reserve_witness:
  "let st = snd (run_ops es_step [EReserve 7 0, EReserve 7 0] (projr (es_make demo_config 2)))
   in fst (reserve 7 1 st) = check 7 1 st \<and> check 7 1 st = ExposureCapReached"
proof -
  let ?m = "es_make demo_config 2"
  let ?st = "snd (run_ops es_step [EReserve 7 0, EReserve 7 0] (projr ?m))"
  have m: "?m = Inr (projr ?m)" by code_simp
  have "check 7 1 ?st = ExposureCapReached" by code_simp
  with check_agrees_with_reserve [OF m refl, of 7 1 "[EReserve 7 0, EReserve 7 0]"]
  show ?thesis by (simp add: Let_def del: run_ops.simps)
qed

text \<open>
  C16. The store stays within its bound, and fail-open keeps serving: after any sequence of calls at
  most \<open>max_tracked_items\<close> items have counters, and a fail-open store never answers \<open>StoreFull\<close>.
\<close>

theorem store_bounded_and_fail_open_serves:
  assumes "es_make config n = Inr st" and "st' = snd (run_ops es_step ops st)"
  shows "tracked st' \<le> unat (max_tracked_items config) \<and>
         (fail_open_when_full config \<longrightarrow> fst (reserve iid now st') \<noteq> StoreFull)"
proof -
  have i: "es_inv st'" and c: "es_config st' = config" using es_run_inv [OF assms(1)] assms(2) by simp_all
  have "Suc (unat (es_mask st')) = unat (es_shard_count st')"
    using i single_bit_count unfolding es_inv_def by simp
  then have "tracked st' \<le> unat (es_shard_count st') * unat (es_per_shard_capacity st')"
    using esa.total_size [OF es_inv_wf [OF i]] unfolding tracked_def by simp
  also have "\<dots> = unat (es_shard_count st') * unat (max_tracked_items config div es_shard_count st')"
    using i c unfolding es_inv_def by simp
  also have "\<dots> \<le> unat (max_tracked_items config)" by (simp add: unat_div)
  finally have t: "tracked st' \<le> unat (max_tracked_items config)" .
  obtain d st'' where r: "reserve iid now st' = (d, st'')" by fastforce
  have "fail_open_when_full config \<longrightarrow> d \<noteq> StoreFull"
    using effect_not_full [OF reserve_spec(4) [OF i r]] c by simp
  with t r show ?thesis by simp
qed

theorem store_bounded_and_fail_open_serves_witness:
  "let config = demo_config\<lparr>max_tracked_items := 1, fail_open_when_full := True\<rparr>;
       st = snd (run_ops es_step [EReserve 7 0, EReserve 8 0] (projr (es_make config 1)))
   in tracked st \<le> 1 \<and> fst (reserve 9 0 st) \<noteq> StoreFull"
proof -
  let ?c = "demo_config\<lparr>max_tracked_items := 1, fail_open_when_full := True\<rparr>"
  let ?m = "es_make ?c 1"
  have m: "?m = Inr (projr ?m)" by code_simp
  from store_bounded_and_fail_open_serves [OF m refl, of "[EReserve 7 0, EReserve 8 0]" 9 0]
  show ?thesis by (simp add: Let_def demo_config_def del: run_ops.simps)
qed

end
