(* ===== verification/Std_Heap.thy ===== *)
theory Std_Heap
  imports Prelude "HOL-Library.Multiset"
begin

section \<open>Binary heaps in a vector (std::push_heap and std::pop_heap)\<close>

text \<open>
  \<open>CandidateSelector\<close> keeps its shortlist as a heap in a \<open>std::vector\<close> through \<open>std::push_heap\<close> and
  \<open>std::pop_heap\<close>. The definitions are the hole-moving algorithms of the C++ library: a value climbs
  from a hole towards the root, and a hole sinks from the root to a leaf before the displaced value
  climbs back. The locale \<open>heap_algorithms\<close> is the contract of the C++ standard; the clients below
  use the contract only, and the interpretation \<open>std\<close> shows that the algorithms meet it for every
  comparator that is a strict weak ordering on the elements.
\<close>

subsection \<open>The algorithms\<close>

function sift_up :: "('a \<Rightarrow> 'a \<Rightarrow> bool) \<Rightarrow> 'a list \<Rightarrow> nat \<Rightarrow> 'a \<Rightarrow> 'a list" where
  "sift_up lt xs hole v =
     (if 0 < hole \<and> lt (xs ! ((hole - 1) div 2)) v
      then sift_up lt (xs[hole := xs ! ((hole - 1) div 2)]) ((hole - 1) div 2) v
      else xs[hole := v])"
  by pat_completeness auto
termination by (relation "measure (\<lambda>(lt, xs, hole, v). hole)") auto

text \<open>The child of a hole that is not below its sibling.\<close>

definition larger_child :: "('a \<Rightarrow> 'a \<Rightarrow> bool) \<Rightarrow> 'a list \<Rightarrow> nat \<Rightarrow> nat" where
  "larger_child lt xs hole =
     (let right = 2 * (hole + 1) in if lt (xs ! right) (xs ! (right - 1)) then right - 1 else right)"

lemma larger_child_cases: "larger_child lt xs hole \<in> {2 * hole + 1, 2 * hole + 2}"
  by (simp add: larger_child_def Let_def)

function sift_down :: "('a \<Rightarrow> 'a \<Rightarrow> bool) \<Rightarrow> 'a list \<Rightarrow> nat \<Rightarrow> nat \<Rightarrow> 'a list \<times> nat" where
  "sift_down lt xs hole len =
     (if hole < (len - 1) div 2
      then sift_down lt (xs[hole := xs ! larger_child lt xs hole]) (larger_child lt xs hole) len
      else if even len \<and> hole = (len - 2) div 2
      then (xs[hole := xs ! (2 * hole + 1)], 2 * hole + 1)
      else (xs, hole))"
  by pat_completeness auto
termination
proof (relation "measure (\<lambda>(lt, xs, hole, len). len - hole)", goal_cases)
  case (2 lt xs hole len)
  then show ?case using larger_child_cases [of lt xs hole] by auto
qed simp

definition std_push_heap :: "('a \<Rightarrow> 'a \<Rightarrow> bool) \<Rightarrow> 'a list \<Rightarrow> 'a list" where
  "std_push_heap lt xs = (if xs = [] then [] else sift_up lt xs (length xs - 1) (last xs))"

definition std_pop_heap :: "('a \<Rightarrow> 'a \<Rightarrow> bool) \<Rightarrow> 'a list \<Rightarrow> 'a list" where
  "std_pop_heap lt xs =
     (if 1 < length xs
      then let n = length xs - 1;
               (ys, hole) = sift_down lt (xs[n := xs ! 0]) 0 n
           in sift_up lt ys hole (xs ! n)
      else xs)"

definition is_heap :: "('a \<Rightarrow> 'a \<Rightarrow> bool) \<Rightarrow> 'a list \<Rightarrow> bool" where
  "is_heap lt xs \<longleftrightarrow> (\<forall>i < length xs. 0 < i \<longrightarrow> \<not> lt (xs ! ((i - 1) div 2)) (xs ! i))"

text \<open>The requirement of the standard on a comparator, restricted to the elements compared.\<close>

definition strict_weak_on :: "('a \<Rightarrow> 'a \<Rightarrow> bool) \<Rightarrow> 'a set \<Rightarrow> bool" where
  "strict_weak_on lt A \<longleftrightarrow>
     (\<forall>x \<in> A. \<forall>y \<in> A. lt x y \<longrightarrow> \<not> lt y x)
   \<and> (\<forall>x \<in> A. \<forall>y \<in> A. \<forall>z \<in> A. \<not> lt x y \<longrightarrow> \<not> lt y z \<longrightarrow> \<not> lt x z)"

declare sift_up.simps [simp del] sift_down.simps [simp del]

lemma set_update_nth: "c < length ys \<Longrightarrow> set (ys[h := ys ! c]) \<subseteq> set ys"
  by (rule subset_trans [OF set_update_subset_insert]) simp

lemma strict_weak_on_mono: "strict_weak_on lt B \<Longrightarrow> A \<subseteq> B \<Longrightarrow> strict_weak_on lt A"
  unfolding strict_weak_on_def subset_iff by (intro conjI ballI impI; elim conjE; blast)

lemma mset_butlast_last: "xs \<noteq> [] \<Longrightarrow> mset xs = add_mset (last xs) (mset (butlast xs))"
  by (induction xs rule: rev_induct) auto

lemma update_last: "xs \<noteq> [] \<Longrightarrow> xs[length xs - 1 := c] = butlast xs @ [c]"
  by (induction xs rule: rev_induct) auto

subsection \<open>The contract\<close>

locale heap_algorithms =
  fixes push pop :: "('a \<Rightarrow> 'a \<Rightarrow> bool) \<Rightarrow> 'a list \<Rightarrow> 'a list"
    and heap :: "('a \<Rightarrow> 'a \<Rightarrow> bool) \<Rightarrow> 'a list \<Rightarrow> bool"
  assumes heap_Nil: "heap lt []"
    and push_perm: "mset (push lt xs) = mset xs"
    and pop_perm: "mset (pop lt xs) = mset xs"
    and push_heap: "strict_weak_on lt (insert x (set xs)) \<Longrightarrow> heap lt xs \<Longrightarrow> heap lt (push lt (xs @ [x]))"
    and pop_heap: "strict_weak_on lt (set xs) \<Longrightarrow> heap lt xs \<Longrightarrow> heap lt (butlast (pop lt xs))"
    and pop_last: "xs \<noteq> [] \<Longrightarrow> last (pop lt xs) = hd xs"
    and heap_root: "strict_weak_on lt (set xs) \<Longrightarrow> heap lt xs \<Longrightarrow> x \<in> set xs \<Longrightarrow> \<not> lt (hd xs) x"
begin

lemma length_push [simp]: "length (push lt xs) = length xs"
  by (metis push_perm size_mset)

lemma length_pop [simp]: "length (pop lt xs) = length xs"
  by (metis pop_perm size_mset)

lemma set_push [simp]: "set (push lt xs) = set xs"
  by (metis push_perm set_mset_mset)

lemma pop_nonempty: "xs \<noteq> [] \<Longrightarrow> pop lt xs \<noteq> []"
  using length_pop [of lt xs] by (metis length_0_conv)

text \<open>Replacing the root: pop, overwrite the last slot, push.\<close>

lemma mset_butlast_pop:
  assumes "xs \<noteq> []"
  shows "mset (butlast (pop lt xs)) = mset xs - {#hd xs#}"
proof -
  have "mset (pop lt xs) = add_mset (last (pop lt xs)) (mset (butlast (pop lt xs)))"
    using pop_nonempty [OF assms] by (rule mset_butlast_last)
  then show ?thesis using pop_perm [of lt xs] pop_last [OF assms, of lt] by simp
qed

lemma replace_root:
  assumes "xs \<noteq> []" "strict_weak_on lt (insert c (set xs))" "heap lt xs"
  defines "ys \<equiv> push lt ((pop lt xs)[length xs - 1 := c])"
  shows "mset ys = add_mset c (mset xs - {#hd xs#})" "heap lt ys"
proof -
  have "(pop lt xs)[length xs - 1 := c] = butlast (pop lt xs) @ [c]"
    using update_last [OF pop_nonempty [OF assms(1), of lt], of c] by simp
  then have ys: "ys = push lt (butlast (pop lt xs) @ [c])" by (simp add: ys_def)
  then show "mset ys = add_mset c (mset xs - {#hd xs#})"
    by (simp add: push_perm mset_butlast_pop [OF assms(1)])
  have sub: "set (butlast (pop lt xs)) \<subseteq> set xs"
    by (metis in_set_butlastD pop_perm set_mset_mset subsetI)
  have "strict_weak_on lt (set xs)" using assms(2) by (rule strict_weak_on_mono) blast
  then have "heap lt (butlast (pop lt xs))" using pop_heap assms(3) by blast
  moreover have "strict_weak_on lt (insert c (set (butlast (pop lt xs))))"
    using assms(2) by (rule strict_weak_on_mono) (use sub in blast)
  ultimately show "heap lt ys" unfolding ys by (rule push_heap [rotated])
qed

end

subsection \<open>The algorithms meet the contract\<close>

text \<open>A heap of the first \<open>n\<close> cells except for a hole: the cells around the hole are in order.\<close>

definition hole_heap :: "('a \<Rightarrow> 'a \<Rightarrow> bool) \<Rightarrow> 'a list \<Rightarrow> nat \<Rightarrow> nat \<Rightarrow> bool" where
  "hole_heap lt xs hole n \<longleftrightarrow>
     (\<forall>i < n. 0 < i \<and> i \<noteq> hole \<and> (i - 1) div 2 \<noteq> hole \<longrightarrow> \<not> lt (xs ! ((i - 1) div 2)) (xs ! i))
   \<and> (\<forall>i < n. 0 < i \<and> (i - 1) div 2 = hole \<and> 0 < hole \<longrightarrow> \<not> lt (xs ! ((hole - 1) div 2)) (xs ! i))"

lemma length_sift_up [simp]: "length (sift_up lt xs hole v) = length xs"
  by (induction lt xs hole v rule: sift_up.induct) (subst sift_up.simps, simp)

lemma nth_sift_up: "hole < n \<Longrightarrow> sift_up lt xs hole v ! n = xs ! n"
  by (induction lt xs hole v rule: sift_up.induct) (subst sift_up.simps, auto)

text \<open>Moving the hole permutes the vector with the value in the hole.\<close>

lemma mset_move_hole:
  assumes "i < length xs" "j < length xs" "i \<noteq> j"
  shows "mset ((xs[i := xs ! j])[j := v]) = mset (xs[i := v])"
proof -
  have "(xs[i := xs ! j])[j := v] = (xs[i := v])[i := (xs[i := v]) ! j, j := (xs[i := v]) ! i]"
    using assms by simp
  also have "mset \<dots> = mset (xs[i := v])" using assms by (intro mset_swap) auto
  finally show ?thesis .
qed

lemma mset_sift_up:
  "hole < length xs \<Longrightarrow> mset (sift_up lt xs hole v) = mset (xs[hole := v])"
proof (induction lt xs hole v rule: sift_up.induct)
  case (1 lt xs hole v)
  let ?p = "(hole - 1) div 2"
  show ?case
  proof (cases "0 < hole \<and> lt (xs ! ?p) v")
    case True
    then have p: "?p < hole" "?p < length xs" using 1(2) by auto
    show ?thesis using 1 True p mset_move_hole [of hole xs ?p v] by (subst sift_up.simps) simp
  qed (subst sift_up.simps, auto)
qed

text \<open>One lemma for the induction over the path of the sinking hole.\<close>

lemma sift_down_induct [consumes 1, case_names step odd stop]:
  assumes "hole < len"
    and step: "\<And>xs hole child. hole < child \<Longrightarrow> child < len \<Longrightarrow> (child - 1) div 2 = hole \<Longrightarrow>
            2 * hole + 2 < len \<Longrightarrow> child = larger_child lt xs hole \<Longrightarrow>
            P (xs[hole := xs ! child]) child (sift_down lt (xs[hole := xs ! child]) child len) \<Longrightarrow>
            P xs hole (sift_down lt (xs[hole := xs ! child]) child len)"
    and odd: "\<And>xs hole. len = 2 * hole + 2 \<Longrightarrow> P xs hole (xs[hole := xs ! (2 * hole + 1)], 2 * hole + 1)"
    and stop: "\<And>xs hole. hole < len \<Longrightarrow> len < 2 * hole + 2 \<Longrightarrow> P xs hole (xs, hole)"
  shows "P xs hole (sift_down lt xs hole len)"
  using assms(1)
proof (induction "len - hole" arbitrary: xs hole rule: less_induct)
  case less
  let ?c = "larger_child lt xs hole"
  have c: "hole < ?c" "(?c - 1) div 2 = hole" "?c \<le> 2 * hole + 2"
    using larger_child_cases [of lt xs hole] by auto
  consider "2 * hole + 2 < len" | "len = 2 * hole + 2" | "len < 2 * hole + 2" by linarith
  then show ?case
  proof cases
    case 1
    then have "?c < len" "hole < (len - 1) div 2" using c(3) by auto
    moreover from this have "len - ?c < len - hole" using c(1) by linarith
    ultimately show ?thesis
      using step [OF c(1) _ c(2) 1 refl] less(1) by (subst sift_down.simps) simp
  next
    case 2
    then show ?thesis using odd [of hole xs] by (subst sift_down.simps) simp
  next
    case 3
    then have "\<not> hole < (len - 1) div 2" "\<not> (even len \<and> hole = (len - 2) div 2)" using less(2) by presburger+
    then have "sift_down lt xs hole len = (xs, hole)" by (subst sift_down.simps) (simp only: if_False)
    then show ?thesis using stop [OF less(2) 3] by simp
  qed
qed

lemma sift_down_hole: "hole < len \<Longrightarrow> snd (sift_down lt xs hole len) < len"
  by (rule sift_down_induct [where P = "\<lambda>_ _ r. snd r < len"]) auto

lemma length_sift_down: "hole < len \<Longrightarrow> length (fst (sift_down lt xs hole len)) = length xs"
  by (rule sift_down_induct [where P = "\<lambda>ys _ r. length (fst r) = length ys"]) auto

lemma nth_sift_down: "hole < len \<Longrightarrow> len \<le> n \<Longrightarrow> fst (sift_down lt xs hole len) ! n = xs ! n"
  by (erule sift_down_induct [where P = "\<lambda>ys _ r. fst r ! n = ys ! n"]) auto

lemma mset_sift_down:
  "hole < len \<Longrightarrow> len \<le> length xs \<Longrightarrow>
    mset ((fst (sift_down lt xs hole len))[snd (sift_down lt xs hole len) := v]) = mset (xs[hole := v])"
proof -
  let ?P = "\<lambda>ys hole r. len \<le> length ys \<longrightarrow> mset ((fst r)[snd r := v]) = mset (ys[hole := v])"
  assume "hole < len" "len \<le> length xs"
  moreover from this(1) have "?P xs hole (sift_down lt xs hole len)"
  proof (rule sift_down_induct [where P = ?P])
    fix xs and hole child :: nat
    assume "hole < child" "child < len"
      and IH: "?P (xs[hole := xs ! child]) child (sift_down lt (xs[hole := xs ! child]) child len)"
    then show "?P xs hole (sift_down lt (xs[hole := xs ! child]) child len)"
      using mset_move_hole [of hole xs child v] by simp
  next
    fix xs :: "'a list" and hole assume "len = 2 * hole + 2"
    then show "?P xs hole (xs[hole := xs ! (2 * hole + 1)], 2 * hole + 1)"
      using mset_move_hole [of hole xs "2 * hole + 1" v] by simp
  qed simp
  ultimately show ?thesis by blast
qed

text \<open>Climbing fills the hole and leaves a heap.\<close>

definition heap_upto :: "('a \<Rightarrow> 'a \<Rightarrow> bool) \<Rightarrow> 'a list \<Rightarrow> nat \<Rightarrow> bool" where
  "heap_upto lt xs n \<longleftrightarrow> (\<forall>i < n. 0 < i \<longrightarrow> \<not> lt (xs ! ((i - 1) div 2)) (xs ! i))"

lemma swo_asym: "strict_weak_on lt A \<Longrightarrow> x \<in> A \<Longrightarrow> y \<in> A \<Longrightarrow> lt x y \<Longrightarrow> \<not> lt y x"
  unfolding strict_weak_on_def by blast

lemma swo_trans:
  "strict_weak_on lt A \<Longrightarrow> x \<in> A \<Longrightarrow> y \<in> A \<Longrightarrow> z \<in> A \<Longrightarrow> \<not> lt x y \<Longrightarrow> \<not> lt y z \<Longrightarrow> \<not> lt x z"
  unfolding strict_weak_on_def by blast

lemma hole_heap_climb:
  assumes swo: "strict_weak_on lt A" and mem: "v \<in> A" "set xs \<subseteq> A"
    and hole: "0 < hole" "hole < n" "n \<le> length xs"
    and hh: "hole_heap lt xs hole n"
    and up: "lt (xs ! ((hole - 1) div 2)) v"
  defines "p \<equiv> (hole - 1) div 2" and "ys \<equiv> xs[hole := xs ! ((hole - 1) div 2)]"
  shows "hole_heap lt ys p n" "\<forall>i < n. 0 < i \<and> (i - 1) div 2 = p \<longrightarrow> \<not> lt v (ys ! i)" "set ys \<subseteq> A"
proof -
  have p: "p < hole" "p < length xs" using hole by (auto simp: p_def)
  have A: "i < n \<Longrightarrow> xs ! i \<in> A" for i using mem hole by auto
  have ord: "\<not> lt (xs ! ((i - 1) div 2)) (xs ! i)" if "i < n" "0 < i" "i \<noteq> hole" "(i - 1) div 2 \<noteq> hole" for i
    using hh that unfolding hole_heap_def by blast
  have skip: "\<not> lt (xs ! p) (xs ! i)" if "i < n" "0 < i" "(i - 1) div 2 = hole" for i
    using hh that hole unfolding hole_heap_def p_def by blast
  have ys: "ys ! i = (if i = hole then xs ! p else xs ! i)" if "i < n" for i
    using that hole by (simp add: ys_def p_def nth_list_update)
  have lt_n: "(i - 1) div 2 < n" if "i < n" for i using that by linarith
  have sib: "\<not> lt (xs ! p) (ys ! i)" if "i < n" "0 < i" "(i - 1) div 2 = p" for i
  proof (cases "i = hole")
    case True
    have "\<not> lt (xs ! p) (xs ! p)" using swo_asym [OF swo, of "xs ! p" "xs ! p"] A p hole by fastforce
    then show ?thesis using ys [OF that(1)] True by simp
  next
    case False
    then show ?thesis using ord [OF that(1,2)] that ys [OF that(1)] p by simp
  qed
  have upv: "\<not> lt v (xs ! p)" using swo_asym [OF swo, of "xs ! p" v] up A p hole mem by (simp add: p_def)
  show "set ys \<subseteq> A" using mem hole p by (auto simp: ys_def p_def dest!: set_update_subset_insert [THEN subsetD])
  show "\<forall>i < n. 0 < i \<and> (i - 1) div 2 = p \<longrightarrow> \<not> lt v (ys ! i)"
  proof (intro allI impI)
    fix i assume i: "i < n" "0 < i \<and> (i - 1) div 2 = p"
    then have "ys ! i \<in> A" using ys A p hole by simp
    then show "\<not> lt v (ys ! i)"
      using swo_trans [OF swo mem(1) _ _ upv] A [of p] p hole sib [of i] i by simp
  qed
  show "hole_heap lt ys p n"
    unfolding hole_heap_def
  proof (intro conjI allI impI)
    fix i assume i: "i < n" "0 < i \<and> i \<noteq> p \<and> (i - 1) div 2 \<noteq> p"
    then have ne: "i \<noteq> hole" by (auto simp: p_def)
    show "\<not> lt (ys ! ((i - 1) div 2)) (ys ! i)"
    proof (cases "(i - 1) div 2 = hole")
      case True
      then show ?thesis using skip [of i] i ne ys [OF i(1)] ys [OF hole(2)] by simp
    next
      case False
      then show ?thesis using ord [of i] i ne ys [OF i(1)] ys [OF lt_n [OF i(1)]] by simp
    qed
  next
    fix i assume i: "i < n" "0 < i \<and> (i - 1) div 2 = p \<and> 0 < p"
    let ?g = "(p - 1) div 2"
    have g: "?g < p" using i by linarith
    then have "\<not> lt (xs ! ?g) (xs ! p)" using ord [of p] p hole i by simp
    moreover have "ys ! ?g = xs ! ?g" using ys [of ?g] g p hole by simp
    moreover have "ys ! i \<in> A" using i ys A p hole by simp
    ultimately show "\<not> lt (ys ! ?g) (ys ! i)"
      using swo_trans [OF swo, of "xs ! ?g" "xs ! p" "ys ! i"] A [of ?g] A [of p] sib [of i] i g p hole by simp
  qed
qed

lemma sift_up_heap:
  assumes "strict_weak_on lt A" "v \<in> A" "set xs \<subseteq> A" "hole < n" "n \<le> length xs" "hole_heap lt xs hole n"
    and "\<forall>i < n. 0 < i \<and> (i - 1) div 2 = hole \<longrightarrow> \<not> lt v (xs ! i)"
  shows "heap_upto lt (sift_up lt xs hole v) n"
  using assms
proof (induction lt xs hole v rule: sift_up.induct)
  case (1 lt xs hole v)
  let ?p = "(hole - 1) div 2"
  show ?case
  proof (cases "0 < hole \<and> lt (xs ! ?p) v")
    case True
    then have eq: "sift_up lt xs hole v = sift_up lt (xs[hole := xs ! ?p]) ?p v"
      by (subst sift_up.simps) simp
    have "?p < n" using 1(5) True by linarith
    then show ?thesis unfolding eq
      using 1(1) [OF True 1(2,3)] hole_heap_climb [OF 1(2-4) _ 1(5-7)] True 1(6) by simp
  next
    case False
    then have eq: "sift_up lt xs hole v = xs[hole := v]" by (subst sift_up.simps) auto
    show ?thesis unfolding eq heap_upto_def
    proof (intro allI impI)
      fix i assume i: "i < n" "0 < i"
      then have "(i - 1) div 2 < i" by linarith
      then show "\<not> lt (xs[hole := v] ! ((i - 1) div 2)) (xs[hole := v] ! i)"
        using 1(5-8) False i unfolding hole_heap_def by (auto simp: nth_list_update)
    qed
  qed
qed

text \<open>Sinking keeps a heap around the hole and ends at a leaf.\<close>

lemma hole_heap_sink:
  assumes hh: "hole_heap lt xs hole n" and "hole < child" "child < n" "n \<le> length xs" "(child - 1) div 2 = hole"
    and large: "\<And>i. i < n \<Longrightarrow> 0 < i \<Longrightarrow> (i - 1) div 2 = hole \<Longrightarrow> i \<noteq> child \<Longrightarrow> \<not> lt (xs ! child) (xs ! i)"
  shows "hole_heap lt (xs[hole := xs ! child]) child n"
proof -
  let ?ys = "xs[hole := xs ! child]"
  have ord: "\<not> lt (xs ! ((i - 1) div 2)) (xs ! i)" if "i < n" "0 < i" "i \<noteq> hole" "(i - 1) div 2 \<noteq> hole" for i
    using hh that unfolding hole_heap_def by blast
  have skip: "\<not> lt (xs ! ((hole - 1) div 2)) (xs ! child)" if "0 < hole"
    using hh that assms unfolding hole_heap_def by (metis gr_zeroI less_nat_zero_code)
  have ys: "?ys ! i = (if i = hole then xs ! child else xs ! i)" if "i < n" for i
    using that assms by (simp add: nth_list_update)
  have par: "(i - 1) div 2 < n" "0 < i \<Longrightarrow> (i - 1) div 2 < i" if "i < n" for i using that by linarith+
  show ?thesis
    unfolding hole_heap_def
  proof (intro conjI allI impI)
    fix i assume i: "i < n" "0 < i \<and> i \<noteq> child \<and> (i - 1) div 2 \<noteq> child"
    show "\<not> lt (?ys ! ((i - 1) div 2)) (?ys ! i)"
    proof -
      note y = ys [OF i(1)] ys [OF par(1) [OF i(1)]]
      consider "i = hole" | "i \<noteq> hole" "(i - 1) div 2 = hole" | "i \<noteq> hole" "(i - 1) div 2 \<noteq> hole" by blast
      then show ?thesis
      proof cases
        case 1
        then have "(i - 1) div 2 \<noteq> hole" using par(2) [OF i(1)] i(2) by linarith
        then show ?thesis using skip y 1 i by simp
      next
        case 2
        then show ?thesis using large [OF i(1)] y i by simp
      next
        case 3
        then show ?thesis using ord [OF i(1)] y i by simp
      qed
    qed
  next
    fix i assume i: "i < n" "0 < i \<and> (i - 1) div 2 = child \<and> 0 < child"
    then have "child < i" using par(2) [OF i(1)] by simp
    then have "?ys ! i = xs ! i" "?ys ! hole = xs ! child" "\<not> lt (xs ! child) (xs ! i)"
      using ys [OF i(1)] ys [of hole] ord [OF i(1)] i assms(2,3) by auto
    then show "\<not> lt (?ys ! ((child - 1) div 2)) (?ys ! i)" using assms(5) by simp
  qed
qed

lemma larger_child_large:
  assumes "strict_weak_on lt (set xs)" "2 * hole + 2 < length xs"
    and "0 < i" "(i - 1) div 2 = hole" "i \<noteq> larger_child lt xs hole"
  shows "\<not> lt (xs ! larger_child lt xs hole) (xs ! i)"
proof -
  have "i = 2 * hole + 1 \<or> i = 2 * hole + 2" using assms(3,4) by presburger
  moreover have "xs ! (2 * hole + 1) \<in> set xs" "xs ! (2 * hole + 2) \<in> set xs" using assms(2) by auto
  moreover have "larger_child lt xs hole =
      (if lt (xs ! (2 * hole + 2)) (xs ! (2 * hole + 1)) then 2 * hole + 1 else 2 * hole + 2)"
    by (simp add: larger_child_def)
  ultimately show ?thesis using assms(5) swo_asym [OF assms(1)] by (metis (full_types))
qed

lemma sift_down_heap:
  assumes "strict_weak_on lt A" "set xs \<subseteq> A" "hole < n" "n \<le> length xs" "hole_heap lt xs hole n"
  shows "hole_heap lt (fst (sift_down lt xs hole n)) (snd (sift_down lt xs hole n)) n
       \<and> n \<le> 2 * snd (sift_down lt xs hole n) + 1"
proof -
  let ?P = "\<lambda>ys h r. set ys \<subseteq> A \<and> n \<le> length ys \<and> hole_heap lt ys h n \<longrightarrow>
              hole_heap lt (fst r) (snd r) n \<and> n \<le> 2 * snd r + 1"
  from assms(3) have "?P xs hole (sift_down lt xs hole n)"
  proof (rule sift_down_induct [where P = ?P])
    fix xs hole child
    assume c: "hole < child" "child < n" "(child - 1) div 2 = hole" "2 * hole + 2 < n" "child = larger_child lt xs hole"
      and IH: "?P (xs[hole := xs ! child]) child (sift_down lt (xs[hole := xs ! child]) child n)"
    show "?P xs hole (sift_down lt (xs[hole := xs ! child]) child n)"
    proof
      assume h: "set xs \<subseteq> A \<and> n \<le> length xs \<and> hole_heap lt xs hole n"
      then have swo: "strict_weak_on lt (set xs)" using strict_weak_on_mono [OF assms(1)] by blast
      have "hole_heap lt (xs[hole := xs ! child]) child n"
        using hole_heap_sink [of lt xs hole n child] larger_child_large [OF swo] c h by simp
      moreover have "set (xs[hole := xs ! child]) \<subseteq> A"
        using h c set_update_nth [of child xs hole] by auto
      ultimately show "hole_heap lt (fst (sift_down lt (xs[hole := xs ! child]) child n))
            (snd (sift_down lt (xs[hole := xs ! child]) child n)) n
          \<and> n \<le> 2 * snd (sift_down lt (xs[hole := xs ! child]) child n) + 1"
        using IH h by simp
    qed
  next
    fix xs hole assume n: "n = 2 * hole + 2"
    have "i = 2 * hole + 1" if "i < n" "0 < i" "(i - 1) div 2 = hole" for i using n that by presburger
    then show "?P xs hole (xs[hole := xs ! (2 * hole + 1)], 2 * hole + 1)"
      using hole_heap_sink [of lt xs hole n "2 * hole + 1"] n by simp
  qed simp
  then show ?thesis using assms by blast
qed

subsection \<open>The interpretation\<close>

lemma is_heap_upto: "is_heap lt xs = heap_upto lt xs (length xs)"
  by (simp add: is_heap_def heap_upto_def)

lemma std_push_mset: "mset (std_push_heap lt xs) = mset xs"
proof (cases "xs = []")
  case False
  then have "xs[length xs - 1 := last xs] = xs" using update_last append_butlast_last_id by fastforce
  then show ?thesis using False mset_sift_up [of "length xs - 1" xs lt "last xs"] by (simp add: std_push_heap_def)
qed (simp add: std_push_heap_def)

lemma std_push_heap_heap:
  assumes "strict_weak_on lt (insert x (set xs))" "is_heap lt xs"
  shows "is_heap lt (std_push_heap lt (xs @ [x]))"
proof -
  have "hole_heap lt (xs @ [x]) (length xs) (length xs + 1)"
    unfolding hole_heap_def
  proof (intro conjI allI impI)
    fix i assume i: "i < length xs + 1" "0 < i \<and> i \<noteq> length xs \<and> (i - 1) div 2 \<noteq> length xs"
    then have "i < length xs" "(i - 1) div 2 < length xs" by linarith+
    then show "\<not> lt ((xs @ [x]) ! ((i - 1) div 2)) ((xs @ [x]) ! i)"
      using assms(2) i unfolding is_heap_def by (simp add: nth_append)
  next
    fix i assume "i < length xs + 1" "0 < i \<and> (i - 1) div 2 = length xs \<and> 0 < length xs"
    then show "\<not> lt ((xs @ [x]) ! ((length xs - 1) div 2)) ((xs @ [x]) ! i)" by linarith
  qed
  moreover have "\<not> (i < length xs + 1 \<and> (i - 1) div 2 = length xs \<and> 0 < i)" for i by linarith
  ultimately have "heap_upto lt (sift_up lt (xs @ [x]) (length xs) x) (length xs + 1)"
    by (intro sift_up_heap [OF assms(1)]) (simp_all, blast?)
  then show ?thesis by (simp add: std_push_heap_def is_heap_upto)
qed

lemma set_sift_down:
  "hole < n \<Longrightarrow> n \<le> length xs \<Longrightarrow> set (fst (sift_down lt xs hole n)) \<subseteq> set xs"
proof -
  let ?P = "\<lambda>ys h r. n \<le> length ys \<longrightarrow> set (fst r) \<subseteq> set ys"
  assume "hole < n" "n \<le> length xs"
  moreover from this(1) have "?P xs hole (sift_down lt xs hole n)"
  proof (rule sift_down_induct [where P = ?P])
    fix xs hole child
    assume "child < n" "?P (xs[hole := xs ! child]) child (sift_down lt (xs[hole := xs ! child]) child n)"
    then show "?P xs hole (sift_down lt (xs[hole := xs ! child]) child n)"
      using set_update_nth [of child xs hole] by (metis length_list_update order_less_le_trans subset_trans)
  next
    fix xs hole assume "n = 2 * hole + 2"
    then show "?P xs hole (xs[hole := xs ! (2 * hole + 1)], 2 * hole + 1)"
      using set_update_nth [of "2 * hole + 1" xs hole] by simp
  qed simp
  ultimately show ?thesis by blast
qed

lemma std_pop_facts:
  fixes lt :: "'a \<Rightarrow> 'a \<Rightarrow> bool"
  assumes "1 < length xs"
  defines "n \<equiv> length xs - 1"
  defines "r \<equiv> sift_down lt (xs[n := xs ! 0]) 0 n"
  shows "std_pop_heap lt xs = sift_up lt (fst r) (snd r) (xs ! n)"
    "snd r < n" "length (fst r) = length xs" "fst r ! n = xs ! 0" "set (fst r) \<subseteq> set xs"
    "mset ((fst r)[snd r := xs ! n]) = mset xs"
proof -
  have n: "0 < n" "n < length xs" "n \<le> length (xs[n := xs ! 0])" using assms(1) by (auto simp: n_def)
  show "std_pop_heap lt xs = sift_up lt (fst r) (snd r) (xs ! n)"
    using assms(1) by (simp add: std_pop_heap_def r_def n_def Let_def case_prod_beta)
  show "snd r < n" "length (fst r) = length xs"
    using sift_down_hole [OF n(1)] length_sift_down [OF n(1), of lt "xs[n := xs ! 0]"] by (auto simp: r_def)
  show "fst r ! n = xs ! 0" using nth_sift_down [OF n(1) order_refl, of lt "xs[n := xs ! 0]"] n by (simp add: r_def)
  have "set (xs[n := xs ! 0]) \<subseteq> set xs"
    using n by (intro set_update_nth) linarith
  then show "set (fst r) \<subseteq> set xs" using set_sift_down [OF n(1,3), of lt] unfolding r_def by blast
  have "mset ((fst r)[snd r := xs ! n]) = mset (xs[n := xs ! 0, 0 := xs ! n])"
    unfolding r_def using n by (intro mset_sift_down) auto
  also have "\<dots> = mset xs" using n by (intro mset_swap) auto
  finally show "mset ((fst r)[snd r := xs ! n]) = mset xs" .
qed

lemma std_pop_mset: "mset (std_pop_heap lt xs) = mset xs"
proof (cases "1 < length xs")
  case True
  note f = std_pop_facts [OF True, of lt]
  show ?thesis unfolding f(1) using mset_sift_up f(2,3,6) by (metis diff_le_self order_less_le_trans)
qed (simp add: std_pop_heap_def)

lemma std_pop_last:
  assumes "xs \<noteq> []"
  shows "last (std_pop_heap lt xs) = hd xs"
proof (cases "1 < length xs")
  case True
  note f = std_pop_facts [OF True, of lt]
  have "std_pop_heap lt xs ! (length xs - 1) = xs ! 0"
    unfolding f(1) nth_sift_up [OF f(2)] by (rule f(4))
  moreover have "length (std_pop_heap lt xs) = length xs" by (metis std_pop_mset size_mset)
  ultimately show ?thesis using assms by (metis hd_conv_nth last_conv_nth length_0_conv)
next
  case False
  then have "xs = [hd xs]" using assms by (cases xs) (auto simp: not_less Suc_le_eq)
  then show ?thesis using False by (metis last.simps std_pop_heap_def)
qed

lemma std_pop_heap_heap:
  assumes swo: "strict_weak_on lt (set xs)" and heap: "is_heap lt xs"
  shows "is_heap lt (butlast (std_pop_heap lt xs))"
proof (cases "1 < length xs")
  case True
  let ?n = "length xs - 1"
  let ?ys = "xs[?n := xs ! 0]" and ?r = "sift_down lt (xs[?n := xs ! 0]) 0 ?n"
  note f = std_pop_facts [OF True, of lt]
  have len: "length (std_pop_heap lt xs) = length xs" by (metis std_pop_mset size_mset)
  have "hole_heap lt ?ys 0 ?n"
    unfolding hole_heap_def
  proof (intro conjI allI impI)
    fix i assume i: "i < ?n" "0 < i \<and> i \<noteq> 0 \<and> (i - 1) div 2 \<noteq> 0"
    moreover from this have "(i - 1) div 2 \<noteq> ?n" by linarith
    ultimately show "\<not> lt (?ys ! ((i - 1) div 2)) (?ys ! i)"
      using heap unfolding is_heap_def by simp
  qed simp
  moreover have "set ?ys \<subseteq> set xs"
    using True by (intro set_update_nth) linarith
  ultimately have hh: "hole_heap lt (fst ?r) (snd ?r) ?n" "?n \<le> 2 * snd ?r + 1"
    using sift_down_heap [OF swo, of ?ys 0 ?n] True by auto
  have leaf: "\<not> (i < ?n \<and> 0 < i \<and> (i - 1) div 2 = snd ?r)" for i using hh(2) by linarith
  have "xs ! ?n \<in> set xs" using True by simp
  moreover have "?n \<le> length (fst ?r)" using f(3) by simp
  moreover have "\<forall>i < ?n. 0 < i \<and> (i - 1) div 2 = snd ?r \<longrightarrow> \<not> lt (xs ! ?n) (fst ?r ! i)"
    using leaf by blast
  ultimately have "heap_upto lt (std_pop_heap lt xs) ?n"
    unfolding f(1) by (intro sift_up_heap [OF swo _ f(5) f(2) _ hh(1)])
  moreover have "(i - 1) div 2 < ?n" if "i < ?n" for i using that by linarith
  ultimately show ?thesis
    using len unfolding is_heap_def heap_upto_def by (simp add: nth_butlast)
next
  case False
  then show ?thesis by (simp add: std_pop_heap_def is_heap_def)
qed

lemma is_heap_root:
  assumes swo: "strict_weak_on lt (set xs)" and heap: "is_heap lt xs" and "i < length xs"
  shows "\<not> lt (xs ! 0) (xs ! i)"
  using assms(3)
proof (induction i rule: less_induct)
  case (less i)
  show ?case
  proof (cases "i = 0")
    case True
    then show ?thesis using swo_asym [OF swo] less(2) by (metis nth_mem)
  next
    case False
    then have p: "(i - 1) div 2 < i" by linarith
    then have "\<not> lt (xs ! 0) (xs ! ((i - 1) div 2))" "\<not> lt (xs ! ((i - 1) div 2)) (xs ! i)"
      using less heap False unfolding is_heap_def by auto
    then show ?thesis using swo_trans [OF swo, of "xs ! 0" "xs ! ((i - 1) div 2)" "xs ! i"] less(2) p
      by (metis length_pos_if_in_set less_trans nth_mem)
  qed
qed

interpretation std: heap_algorithms std_push_heap std_pop_heap is_heap
proof
  show "is_heap lt []" for lt :: "'a \<Rightarrow> 'a \<Rightarrow> bool" by (simp add: is_heap_def)
  show "\<not> lt (hd xs) x" if "strict_weak_on lt (set xs)" "is_heap lt xs" "x \<in> set xs"
    for lt :: "'a \<Rightarrow> 'a \<Rightarrow> bool" and xs x
    using is_heap_root [OF that(1,2)] that(3) by (metis hd_conv_nth in_set_conv_nth length_pos_if_in_set length_greater_0_conv)
qed (auto intro: std_push_mset std_pop_mset std_push_heap_heap std_pop_heap_heap std_pop_last)

end
