(* ===== verification/Scorer.thy ===== *)
theory Scorer
  imports Rank_Types Std_Heap "HOL-Library.Product_Lexorder"
begin

section \<open>Candidate selection (include/lrd/rank/scorer.hpp, src/rank/scorer.cpp)\<close>

text \<open>
  Eligibility and relevance of an item, the bounded heap \<open>CandidateSelector\<close> keeps while it scans the
  inventory, and the greedy re-rank that consults the policy before it takes a candidate. The
  transcendental functions of the C library are the fields of a record \<open>libm\<close>, because their last
  bit is not specified. The \<open>accept\<close> hook is a state-passing function, and None is the empty
  \<open>std::function\<close>. A \<open>size_t\<close> product wraps, as in the code.
\<close>

record libm =
  libm_exp :: "double \<Rightarrow> double"
  libm_pow :: "double \<Rightarrow> double \<Rightarrow> double"

record ScoringConfig =
  default_affinity :: double
  recency_half_life :: "64 word"
  category_repeat_factor :: double
  advertiser_repeat_factor :: double
  overfetch :: u64
  min_score :: double

definition default_scoring :: ScoringConfig where
  "default_scoring =
     \<lparr> default_affinity = dlit (1 / 10), recency_half_life = 24 * 7 * 60 * 60 * 1000,
       category_repeat_factor = dlit (1 / 2), advertiser_repeat_factor = dlit (3 / 10),
       overfetch = 4, min_score = 0 \<rparr>"

text \<open>\<open>std::numbers::ln2\<close>.\<close>

definition ln2 :: double where
  "ln2 = Dbl 0x3FE62E42FEFA39EF"

definition recency_multiplier :: "libm \<Rightarrow> 64 word \<Rightarrow> 64 word \<Rightarrow> double" where
  "recency_multiplier m age half_life =
     (if sint half_life \<le> 0 then 1
      else let age_ms = dmax 0 (double_of_int (sint age));
               half_life_ms = double_of_int (sint half_life)
           in libm_exp m (((- ln2) * age_ms) / half_life_ms))"

definition is_eligible :: "Item \<Rightarrow> UserSignal \<Rightarrow> Timestamp \<Rightarrow> bool" where
  "is_eligible item signal now =
     (if base_score item \<le> 0 then False
      else if \<not> never_expires item \<and> sint (expires_at item) \<le> sint now then False
      else if excludes signal (category item) then False
      else True)"

definition base_relevance :: "libm \<Rightarrow> Item \<Rightarrow> UserSignal \<Rightarrow> ScoringConfig \<Rightarrow> Timestamp \<Rightarrow> double" where
  "base_relevance m item signal config now =
     (let affinity = affinity_for signal (category item) (default_affinity config);
          age = now - created_at item;
          recency = recency_multiplier m age (recency_half_life config)
      in (base_score item * affinity) * recency)"

record Candidate =
  cd_relevance :: double
  cd_id :: ItemId
  cd_category :: cstring
  cd_advertiser :: cstring

record CandidateSelector =
  sel_config :: ScoringConfig
  sel_signal :: UserSignal
  sel_now :: Timestamp
  sel_count :: u64
  sel_limit :: u64
  shortlist :: "Candidate list"
  considered :: u64
  eligible :: u64

definition selector_make :: "ScoringConfig \<Rightarrow> UserSignal \<Rightarrow> Timestamp \<Rightarrow> u64 \<Rightarrow> CandidateSelector" where
  "selector_make config signal now n =
     \<lparr> sel_config = config, sel_signal = signal, sel_now = now, sel_count = n,
       sel_limit = (if n = 0 then 0 else n * max (overfetch config) 1),
       shortlist = [], considered = 0, eligible = 0 \<rparr>"

definition worse :: "Candidate \<Rightarrow> Candidate \<Rightarrow> bool" where
  "worse a b =
     (if \<not> deq (cd_relevance a) (cd_relevance b) then cd_relevance a < cd_relevance b
      else cd_id a < cd_id b)"

text \<open>The comparator of the heap calls: the lambda swaps the arguments of \<^const>\<open>worse\<close>.\<close>

definition heap_less :: "Candidate \<Rightarrow> Candidate \<Rightarrow> bool" where
  "heap_less a b = worse b a"

definition consider_item :: "libm \<Rightarrow> Item \<Rightarrow> CandidateSelector \<Rightarrow> CandidateSelector" where
  "consider_item m item sel0 =
     (let sel = sel0\<lparr>considered := considered sel0 + 1\<rparr> in
      if \<not> is_eligible item (sel_signal sel) (sel_now sel) then sel
      else
        let sel = sel\<lparr>eligible := eligible sel + 1\<rparr>;
            relevance = base_relevance m item (sel_signal sel) (sel_config sel) (sel_now sel)
        in
        if relevance \<le> min_score (sel_config sel) then sel
        else
          let candidate = \<lparr> cd_relevance = relevance, cd_id = item_id item,
                            cd_category = category item, cd_advertiser = advertiser item \<rparr>
          in
          if length (shortlist sel) < unat (sel_limit sel)
          then sel\<lparr>shortlist := std_push_heap heap_less (shortlist sel @ [candidate])\<rparr>
          else if sel_limit sel = 0 then sel
          else if \<not> worse candidate (hd (shortlist sel))
          then let popped = std_pop_heap heap_less (shortlist sel);
                   replaced = popped[length popped - 1 := candidate]
               in sel\<lparr>shortlist := std_push_heap heap_less replaced\<rparr>
          else sel)"

definition retained :: "CandidateSelector \<Rightarrow> nat" where
  "retained sel = length (shortlist sel)"

type_synonym repeat_counts = "(cstring \<times> int) list"

fun count_of :: "repeat_counts \<Rightarrow> cstring \<Rightarrow> int" where
  "count_of [] key = 0"
| "count_of (entry # counts) key = (if fst entry = key then snd entry else count_of counts key)"

fun increment :: "repeat_counts \<Rightarrow> cstring \<Rightarrow> repeat_counts" where
  "increment [] key = [(key, 1)]"
| "increment (entry # counts) key =
     (if fst entry = key then (fst entry, snd entry + 1) # counts else entry # increment counts key)"

text \<open>The score of a candidate given how often its category and advertiser have been picked.\<close>

definition adjusted_score :: "libm \<Rightarrow> ScoringConfig \<Rightarrow> repeat_counts \<Rightarrow> repeat_counts \<Rightarrow> Candidate \<Rightarrow> double" where
  "adjusted_score m config category_counts advertiser_counts candidate =
     (let category_penalty = libm_pow m (category_repeat_factor config)
            (double_of_int (count_of category_counts (cd_category candidate)));
          advertiser_penalty = libm_pow m (advertiser_repeat_factor config)
            (double_of_int (count_of advertiser_counts (cd_advertiser candidate)))
      in (cd_relevance candidate * category_penalty) * advertiser_penalty)"

text \<open>One iteration of the inner loop; the vector \<open>taken\<close> is a predicate on its indices.\<close>

definition scan_step ::
  "(Candidate \<Rightarrow> double) \<Rightarrow> Candidate list \<Rightarrow> (nat \<Rightarrow> bool) \<Rightarrow> nat \<Rightarrow> nat \<times> double \<Rightarrow> nat \<times> double" where
  "scan_step score cands taken i best =
     (let (best_index, best_adjusted) = best in
      if taken i then best
      else
        let candidate = cands ! i; adjusted = score candidate in
        if best_index = length cands \<or> best_adjusted < adjusted
           \<or> deq adjusted best_adjusted \<and> cd_id candidate < cd_id (cands ! best_index)
        then (i, adjusted)
        else best)"

definition scan_best ::
  "(Candidate \<Rightarrow> double) \<Rightarrow> Candidate list \<Rightarrow> (nat \<Rightarrow> bool) \<Rightarrow> nat \<times> double" where
  "scan_best score cands taken =
     fold (scan_step score cands taken) [0..<length cands] (length cands, 0)"

type_synonym 's accept_fn = "(ItemId \<Rightarrow> 's \<Rightarrow> bool \<times> 's) option"

definition consult :: "'s accept_fn \<Rightarrow> ItemId \<Rightarrow> 's \<Rightarrow> bool \<times> 's" where
  "consult accept iid s = (case accept of None \<Rightarrow> (True, s) | Some f \<Rightarrow> f iid s)"

lemma scan_best_range:
  fixes score cands taken
  defines "r \<equiv> scan_best score cands taken"
  shows "fst r = length cands \<and> (\<forall>i < length cands. taken i)
       \<or> fst r < length cands \<and> \<not> taken (fst r) \<and> snd r = score (cands ! fst r)"
proof -
  let ?R = "\<lambda>n r. fst r = length cands \<and> (\<forall>i < n. taken i)
       \<or> fst r < length cands \<and> \<not> taken (fst r) \<and> snd r = score (cands ! fst r)"
  have "n \<le> length cands \<Longrightarrow> ?R n (fold (scan_step score cands taken) [0..<n] (length cands, 0))" for n
  proof (induction n)
    case (Suc n)
    let ?b = "fold (scan_step score cands taken) [0..<n] (length cands, 0)"
    have "?R n ?b" using Suc by simp
    moreover have "?R n b \<Longrightarrow> ?R (Suc n) (scan_step score cands taken n b)" for b
      using Suc.prems by (cases b) (auto simp: scan_step_def Let_def less_Suc_eq)
    ultimately show ?case by simp
  qed simp
  then show ?thesis by (simp add: r_def scan_best_def)
qed

lemma untaken_less:
  assumes "b < n" "\<not> taken b"
  shows "card {j. j < n \<and> \<not> (taken(b := True)) j} < card {j. j < (n::nat) \<and> \<not> taken j}"
proof -
  have "finite {j. j < n \<and> \<not> taken j}" by (rule finite_subset [of _ "{..<n}"]) auto
  then show ?thesis using assms by (intro psubset_card_mono) auto
qed

lemma scan_best_untaken:
  assumes "(b, adj) = scan_best score cands taken" "b \<noteq> length cands"
  shows "b < length cands" "\<not> taken b" "adj = score (cands ! b)"
    "card {j. j < length cands \<and> \<not> (taken(b := True)) j} < card {j. j < length cands \<and> \<not> taken j}"
proof -
  have "b = fst (scan_best score cands taken)" "adj = snd (scan_best score cands taken)"
    using assms(1) by (metis fst_conv, metis snd_conv)
  with assms(2) show *: "b < length cands" "\<not> taken b" "adj = score (cands ! b)"
    using scan_best_range [of score cands taken] by auto
  then show "card {j. j < length cands \<and> \<not> (taken(b := True)) j} < card {j. j < length cands \<and> \<not> taken j}"
    by (intro untaken_less)
qed

function select_loop ::
  "libm \<Rightarrow> ScoringConfig \<Rightarrow> u64 \<Rightarrow> Candidate list \<Rightarrow> 's accept_fn \<Rightarrow> (nat \<Rightarrow> bool) \<Rightarrow> RankedItem list
   \<Rightarrow> repeat_counts \<Rightarrow> repeat_counts \<Rightarrow> 's \<Rightarrow> RankedItem list \<times> 's" where
  "select_loop m config n cands accept taken chosen category_counts advertiser_counts s =
     (if length chosen < unat n
      then
        let (best_index, best_adjusted) =
              scan_best (adjusted_score m config category_counts advertiser_counts) cands taken
        in
        if best_index = length cands then (chosen, s)
        else
          let winner = cands ! best_index;
              taken' = taken(best_index := True);
              (ok, s') = consult accept (cd_id winner) s
          in
          if \<not> ok
          then select_loop m config n cands accept taken' chosen category_counts advertiser_counts s'
          else select_loop m config n cands accept taken'
                 (chosen @ [\<lparr> ri_id = cd_id winner, ri_score = best_adjusted,
                              ri_category = cd_category winner, ri_advertiser = cd_advertiser winner \<rparr>])
                 (increment category_counts (cd_category winner))
                 (increment advertiser_counts (cd_advertiser winner)) s'
      else (chosen, s))"
  by pat_completeness auto

termination
  by (relation "measure (\<lambda>(m, config, n, cands, accept, taken, _). card {j. j < length cands \<and> \<not> taken j})")
    (use scan_best_untaken(4) in \<open>auto simp del: fun_upd_apply\<close>)

declare select_loop.simps [simp del]

definition select :: "libm \<Rightarrow> CandidateSelector \<Rightarrow> 's accept_fn \<Rightarrow> 's \<Rightarrow> RankedItem list \<times> 's" where
  "select m sel accept s =
     (if sel_count sel = 0 \<or> shortlist sel = [] then ([], s)
      else select_loop m (sel_config sel) (sel_count sel) (shortlist sel) accept (\<lambda>_. False) [] [] [] s)"

subsection \<open>Retrieval keeps the best candidates\<close>

text \<open>The candidate an item becomes, or None when it is dropped before the heap.\<close>

definition candidate_for :: "libm \<Rightarrow> ScoringConfig \<Rightarrow> UserSignal \<Rightarrow> Timestamp \<Rightarrow> Item \<Rightarrow> Candidate option" where
  "candidate_for m config signal now item =
     (let relevance = base_relevance m item signal config now in
      if is_eligible item signal now \<and> \<not> relevance \<le> min_score config
      then Some \<lparr> cd_relevance = relevance, cd_id = item_id item,
                  cd_category = category item, cd_advertiser = advertiser item \<rparr>
      else None)"

definition candidates :: "libm \<Rightarrow> ScoringConfig \<Rightarrow> UserSignal \<Rightarrow> Timestamp \<Rightarrow> Item list \<Rightarrow> Candidate list" where
  "candidates m config signal now items = List.map_filter (candidate_for m config signal now) items"

definition offer :: "nat \<Rightarrow> Candidate \<Rightarrow> Candidate list \<Rightarrow> Candidate list" where
  "offer limit c sl =
     (if length sl < limit then std_push_heap heap_less (sl @ [c])
      else if limit = 0 \<or> worse c (hd sl) then sl
      else std_push_heap heap_less ((std_pop_heap heap_less sl)[length sl - 1 := c]))"

lemma consider_item_fields [simp]:
  "sel_config (consider_item m item sel) = sel_config sel"
  "sel_signal (consider_item m item sel) = sel_signal sel"
  "sel_now (consider_item m item sel) = sel_now sel"
  "sel_count (consider_item m item sel) = sel_count sel"
  "sel_limit (consider_item m item sel) = sel_limit sel"
  by (simp_all add: consider_item_def Let_def)

lemma consider_item_shortlist:
  "shortlist (consider_item m item sel) =
     (case candidate_for m (sel_config sel) (sel_signal sel) (sel_now sel) item of
        None \<Rightarrow> shortlist sel
      | Some c \<Rightarrow> offer (unat (sel_limit sel)) c (shortlist sel))"
  by (simp add: consider_item_def candidate_for_def offer_def Let_def unat_eq_0)

text \<open>On relevances that are numbers the comparator is the order of (relevance, id) pairs.\<close>

definition ckey :: "Candidate \<Rightarrow> int \<times> ItemId" where
  "ckey c = (dkey (cd_relevance c), cd_id c)"

definition numeric :: "Candidate \<Rightarrow> bool" where
  "numeric c \<longleftrightarrow> \<not> is_nan (cd_relevance c)"

lemma worse_ckey: "numeric a \<Longrightarrow> numeric b \<Longrightarrow> worse a b \<longleftrightarrow> ckey a < ckey b"
  by (auto simp: worse_def ckey_def numeric_def deq_def less_double_def)

lemma heap_less_swo: "\<forall>c \<in> A. numeric c \<Longrightarrow> strict_weak_on heap_less A"
  unfolding strict_weak_on_def heap_less_def
  by (intro conjI ballI impI; simp add: worse_ckey)

definition best_of :: "nat \<Rightarrow> Candidate list \<Rightarrow> Candidate list \<Rightarrow> bool" where
  "best_of limit seen sl \<longleftrightarrow>
     (\<exists>dropped. mset sl + mset dropped = mset seen \<and> length sl = min limit (length seen)
        \<and> (\<forall>c \<in> set sl. \<forall>d \<in> set dropped. \<not> worse c d))"

lemma mset_sum_set: "mset xs + mset ys = mset zs \<Longrightarrow> set zs = set xs \<union> set ys"
  by (metis mset_append set_append set_mset_mset)

lemma offer_best:
  assumes best: "best_of limit seen sl" and heap: "is_heap heap_less sl"
    and num: "\<forall>x \<in> set (seen @ [c]). numeric x"
  shows "best_of limit (seen @ [c]) (offer limit c sl)" "is_heap heap_less (offer limit c sl)"
proof -
  obtain dropped where d: "mset sl + mset dropped = mset seen" "length sl = min limit (length seen)"
      "\<forall>c \<in> set sl. \<forall>d \<in> set dropped. \<not> worse c d"
    using best unfolding best_of_def by blast
  have sets: "set seen = set sl \<union> set dropped" using mset_sum_set [OF d(1)] .
  have swo: "strict_weak_on heap_less (insert c (set sl))" "strict_weak_on heap_less (set sl)"
    using num sets by (auto intro!: heap_less_swo)
  have lens: "length sl + length dropped = length seen" using d(1) by (metis size_mset size_union)
  have key: "worse a b \<longleftrightarrow> ckey a < ckey b" if "a \<in> set (seen @ [c])" "b \<in> set (seen @ [c])" for a b
    using num that by (intro worse_ckey) blast+
  consider (room) "length sl < limit" | (none) "limit = 0" | (weak) "limit \<le> length sl" "0 < limit" "worse c (hd sl)"
    | (strong) "limit \<le> length sl" "0 < limit" "\<not> worse c (hd sl)" by linarith
  then have "best_of limit (seen @ [c]) (offer limit c sl) \<and> is_heap heap_less (offer limit c sl)"
  proof cases
    case room
    then have "dropped = []" "offer limit c sl = std_push_heap heap_less (sl @ [c])"
      using d(2) lens by (auto simp: offer_def)
    then show ?thesis using std.push_heap [OF swo(1) heap] d(1,2) room lens
      by (auto simp: best_of_def std.push_perm intro!: exI [of _ "[]"])
  next
    case none
    then have "sl = []" "offer limit c sl = sl" using d(2) by (auto simp: offer_def)
    then show ?thesis using none heap by (auto simp: best_of_def intro!: exI [of _ "seen @ [c]"])
  next
    case weak
    then have sl: "sl \<noteq> []" "offer limit c sl = sl" by (auto simp: offer_def)
    have "\<not> worse x c" if "x \<in> set sl" for x
    proof -
      have "hd sl \<in> set sl" using sl by simp
      moreover have "\<not> worse x (hd sl)" using std.heap_root [OF swo(2) heap that] by (simp add: heap_less_def)
      ultimately show ?thesis using weak(3) that sets by (simp add: key)
    qed
    then show ?thesis using d sl(2) weak heap lens
      by (auto simp: best_of_def intro!: exI [of _ "dropped @ [c]"])
  next
    case strong
    then have sl: "sl \<noteq> []"
      "offer limit c sl = std_push_heap heap_less ((std_pop_heap heap_less sl)[length sl - 1 := c])"
      by (auto simp: offer_def)
    note r = std.replace_root [OF sl(1) swo(1) heap, folded sl(2)]
    have root: "\<not> worse x (hd sl)" if "x \<in> set sl" for x
      using std.heap_root [OF swo(2) heap that] by (simp add: heap_less_def)
    have hd: "hd sl \<in> set sl" using sl by simp
    have set: "set (offer limit c sl) \<subseteq> insert c (set sl)"
      using r(1) by (metis in_diffD insert_iff set_mset_add_mset_insert set_mset_mset subsetI)
    have "\<not> worse x y" if "x \<in> insert c (set sl)" "y \<in> insert (hd sl) (set dropped)" for x y
    proof -
      have "\<not> worse x (hd sl)" using that(1) root strong(3) by auto
      moreover have "y = hd sl \<or> \<not> worse (hd sl) y" using that(2) d(3) hd by auto
      moreover have "x \<in> set (seen @ [c])" "y \<in> set (seen @ [c])" "hd sl \<in> set (seen @ [c])"
        using that hd sets by auto
      ultimately show ?thesis by (auto simp: key)
    qed
    moreover have "mset (offer limit c sl) + mset (hd sl # dropped) = mset (seen @ [c])"
      using r(1) d(1) hd by (simp flip: d(1))
    moreover have "length (offer limit c sl) = length sl"
      unfolding sl(2) by simp
    ultimately have "best_of limit (seen @ [c]) (offer limit c sl)"
      using set d(2) strong(1) lens unfolding best_of_def by (intro exI [of _ "hd sl # dropped"]) auto
    then show ?thesis using r(2) by simp
  qed
  then show "best_of limit (seen @ [c]) (offer limit c sl)" "is_heap heap_less (offer limit c sl)" by auto
qed

text \<open>One request scans the inventory item by item.\<close>

definition scan :: "libm \<Rightarrow> Item list \<Rightarrow> CandidateSelector \<Rightarrow> CandidateSelector" where
  "scan m items sel = fold (consider_item m) items sel"

lemma scan_fields [simp]:
  "sel_config (scan m items sel) = sel_config sel" "sel_signal (scan m items sel) = sel_signal sel"
  "sel_now (scan m items sel) = sel_now sel" "sel_count (scan m items sel) = sel_count sel"
  "sel_limit (scan m items sel) = sel_limit sel"
  unfolding scan_def by (induction items arbitrary: sel) simp_all

lemma candidates_simps [simp]:
  "candidates m config signal now [] = []"
  "candidates m config signal now (items @ items') =
     candidates m config signal now items @ candidates m config signal now items'"
  "candidates m config signal now [item] =
     (case candidate_for m config signal now item of None \<Rightarrow> [] | Some c \<Rightarrow> [c])"
  by (simp_all add: candidates_def List.map_filter_def split: option.split)

lemma scan_best_of:
  fixes m sel items
  defines "cands \<equiv> candidates m (sel_config sel) (sel_signal sel) (sel_now sel) items"
  assumes "shortlist sel = []" and "\<forall>c \<in> set cands. numeric c"
  shows "best_of (unat (sel_limit sel)) cands (shortlist (scan m items sel))
       \<and> is_heap heap_less (shortlist (scan m items sel))"
  using assms(3) unfolding cands_def
proof (induction items rule: rev_induct)
  case Nil
  then show ?case using assms(2) std.heap_Nil by (simp add: scan_def best_of_def)
next
  case (snoc item items)
  have "scan m (items @ [item]) sel = consider_item m item (scan m items sel)" by (simp add: scan_def)
  then show ?case using snoc offer_best
      [of "unat (sel_limit sel)" "candidates m (sel_config sel) (sel_signal sel) (sel_now sel) items"
        "shortlist (scan m items sel)"]
    by (cases "candidate_for m (sel_config sel) (sel_signal sel) (sel_now sel) item")
      (simp_all add: consider_item_shortlist)
qed

text \<open>The counters of the selector.\<close>

lemma scan_counters:
  "considered (scan m items sel) = considered sel + of_nat (length items)"
  "eligible (scan m items sel) =
     eligible sel + of_nat (length (filter (\<lambda>item. is_eligible item (sel_signal sel) (sel_now sel)) items))"
  unfolding scan_def by (induction items arbitrary: sel) (simp_all add: consider_item_def Let_def)

subsection \<open>The greedy re-rank\<close>

definition ranked :: "double \<Rightarrow> Candidate \<Rightarrow> RankedItem" where
  "ranked adjusted c =
     \<lparr> ri_id = cd_id c, ri_score = adjusted, ri_category = cd_category c, ri_advertiser = cd_advertiser c \<rparr>"

lemma select_loop_unfold:
  "select_loop m config n cands accept taken chosen cc ac s =
     (let (b, adj) = scan_best (adjusted_score m config cc ac) cands taken;
          (ok, s') = consult accept (cd_id (cands ! b)) s;
          w = cands ! b
      in if length chosen < unat n \<and> b \<noteq> length cands
         then if ok
              then select_loop m config n cands accept (taken(b := True)) (chosen @ [ranked adj w])
                     (increment cc (cd_category w)) (increment ac (cd_advertiser w)) s'
              else select_loop m config n cands accept (taken(b := True)) chosen cc ac s'
         else (chosen, s))"
  by (subst select_loop.simps) (simp add: Let_def case_prod_beta ranked_def)

lemma select_loop_cases [consumes 0, case_names stop accept reject]:
  obtains
    (stop) "length chosen < unat n \<longrightarrow> (\<forall>i < length cands. taken i)"
      "select_loop m config n cands accept taken chosen cc ac s = (chosen, s)"
  | (accept) b s' where "length chosen < unat n" "b < length cands" "\<not> taken b"
      "scan_best (adjusted_score m config cc ac) cands taken = (b, adjusted_score m config cc ac (cands ! b))"
      "consult accept (cd_id (cands ! b)) s = (True, s')"
      "select_loop m config n cands accept taken chosen cc ac s =
         select_loop m config n cands accept (taken(b := True))
           (chosen @ [ranked (adjusted_score m config cc ac (cands ! b)) (cands ! b)])
           (increment cc (cd_category (cands ! b))) (increment ac (cd_advertiser (cands ! b))) s'"
  | (reject) b s' where "length chosen < unat n" "b < length cands" "\<not> taken b"
      "scan_best (adjusted_score m config cc ac) cands taken = (b, adjusted_score m config cc ac (cands ! b))"
      "consult accept (cd_id (cands ! b)) s = (False, s')"
      "select_loop m config n cands accept taken chosen cc ac s =
         select_loop m config n cands accept (taken(b := True)) chosen cc ac s'"
proof -
  obtain b adj where b: "scan_best (adjusted_score m config cc ac) cands taken = (b, adj)" by fastforce
  obtain ok s' where c: "consult accept (cd_id (cands ! b)) s = (ok, s')" by fastforce
  note u = select_loop_unfold [of m config n cands accept taken chosen cc ac s, unfolded b c Let_def prod.case]
  show ?thesis
  proof (cases "length chosen < unat n \<and> b \<noteq> length cands")
    case True
    note f = scan_best_untaken [OF b [symmetric]]
    show ?thesis
      using True f(1-3) b c u that(2) [of b s'] that(3) [of b s'] by (cases ok) simp_all
  next
    case False
    then have "length chosen < unat n \<longrightarrow> (\<forall>i < length cands. taken i)"
      using scan_best_range [of "adjusted_score m config cc ac" cands taken] b by auto
    moreover have "select_loop m config n cands accept taken chosen cc ac s = (chosen, s)"
      unfolding u using False by (simp only: if_False)
    ultimately show ?thesis by (rule that(1))
  qed
qed

lemma select_loop_induct [case_names step]:
  assumes "\<And>taken chosen cc ac s.
      (\<And>b chosen' cc' ac' s'. b < length cands \<Longrightarrow> \<not> taken b \<Longrightarrow> P (taken(b := True)) chosen' cc' ac' s') \<Longrightarrow>
      P taken chosen cc ac s"
  shows "P taken chosen cc ac s"
proof (induction "card {j. j < length cands \<and> \<not> taken j}" arbitrary: taken chosen cc ac s rule: less_induct)
  case less
  have "P (taken(b := True)) chosen' cc' ac' s'" if "b < length cands" "\<not> taken b" for b chosen' cc' ac' s'
    using less untaken_less [of b _ taken, OF that] by blast
  then show ?case by (rule assms)
qed

text \<open>
  What a run of the loop asks and takes: \<open>asked\<close> are the shortlist positions in the order they are
  consulted, \<open>answers\<close> what the hook said.
\<close>

definition cshape :: "Candidate \<Rightarrow> ItemId \<times> cstring \<times> cstring" where
  "cshape c = (cd_id c, cd_category c, cd_advertiser c)"

definition rshape :: "RankedItem \<Rightarrow> ItemId \<times> cstring \<times> cstring" where
  "rshape r = (ri_id r, ri_category r, ri_advertiser r)"

definition accepted :: "nat list \<Rightarrow> bool list \<Rightarrow> nat list" where
  "accepted asked answers = map fst (filter snd (zip asked answers))"

lemma rshape_ranked [simp]: "rshape (ranked adj c) = cshape c"
  by (simp add: rshape_def ranked_def cshape_def)

lemma accepted_simps [simp]:
  "accepted [] [] = []" "accepted (i # asked) (True # answers) = i # accepted asked answers"
  "accepted (i # asked) (False # answers) = accepted asked answers"
  by (simp_all add: accepted_def)

definition traced ::
  "u64 \<Rightarrow> Candidate list \<Rightarrow> 's accept_fn \<Rightarrow> (nat \<Rightarrow> bool) \<Rightarrow> RankedItem list \<Rightarrow> 's \<Rightarrow> RankedItem list \<times> 's \<Rightarrow> bool" where
  "traced n cands accept taken chosen s result \<longleftrightarrow>
     (\<exists>asked answers.
        distinct asked \<and> (\<forall>i \<in> set asked. i < length cands \<and> \<not> taken i)
      \<and> run_ops (consult accept) (map (\<lambda>i. cd_id (cands ! i)) asked) s = (answers, snd result)
      \<and> map rshape (fst result) = map rshape chosen @ map (\<lambda>i. cshape (cands ! i)) (accepted asked answers)
      \<and> length (fst result) \<le> unat n
      \<and> (length (fst result) = unat n \<or> (\<forall>i < length cands. taken i \<or> i \<in> set asked)))"

lemma traced_step:
  assumes b: "b < length cands" "\<not> taken b" "consult accept (cd_id (cands ! b)) s = (ok, s')"
    and t: "traced n cands accept (taken(b := True))
              (if ok then chosen @ [ranked adj (cands ! b)] else chosen) s' result"
  shows "traced n cands accept taken chosen s result"
proof -
  obtain asked answers where t: "distinct asked" "\<forall>i \<in> set asked. i < length cands \<and> \<not> (taken(b := True)) i"
      "run_ops (consult accept) (map (\<lambda>i. cd_id (cands ! i)) asked) s' = (answers, snd result)"
      "map rshape (fst result) = map rshape (if ok then chosen @ [ranked adj (cands ! b)] else chosen)
         @ map (\<lambda>i. cshape (cands ! i)) (accepted asked answers)"
      "length (fst result) \<le> unat n"
      "length (fst result) = unat n \<or> (\<forall>i < length cands. (taken(b := True)) i \<or> i \<in> set asked)"
    using t unfolding traced_def by blast
  have fresh: "b \<notin> set asked" "\<forall>i \<in> set asked. i < length cands \<and> \<not> taken i"
    using t(2) by (auto split: if_splits)
  have all: "length (fst result) = unat n \<or> (\<forall>i < length cands. taken i \<or> i \<in> set (b # asked))"
    using t(6) by (auto split: if_splits)
  have "map rshape (fst result)
          = map rshape chosen @ map (\<lambda>i. cshape (cands ! i)) (accepted (b # asked) (ok # answers))"
    using t(4) by (cases ok) simp_all
  then show ?thesis
    unfolding traced_def
    by (intro exI [of _ "b # asked"] exI [of _ "ok # answers"]) (use t(1,3,5) all fresh b in auto)
qed

lemma select_loop_trace:
  assumes "length chosen \<le> unat n"
  shows "traced n cands accept taken chosen s (select_loop m config n cands accept taken chosen cc ac s)"
  using assms
proof (induction taken chosen cc ac s rule: select_loop_induct [of cands])
  case (step taken chosen cc ac s)
  show ?case
  proof (cases rule: select_loop_cases [of chosen n cands taken m config accept cc ac s])
    case stop
    then show ?thesis using step.prems
      by (auto simp: traced_def intro!: exI [of _ "[]"])
  next
    case (accept b s')
    show ?thesis unfolding accept(6)
      by (rule traced_step [of b cands taken, OF accept(2,3,5), where adj = "adjusted_score m config cc ac (cands ! b)"]) (use step.IH accept(1-3) in \<open>simp del: fun_upd_apply\<close>)
  next
    case (reject b s')
    show ?thesis unfolding reject(6)
      by (rule traced_step [of b cands taken, OF reject(2,3,5), where adj = 0]) (use step.IH reject(2,3) step.prems in \<open>simp del: fun_upd_apply\<close>)
  qed
qed

lemma select_trace: "traced (sel_count sel) (shortlist sel) accept (\<lambda>_. False) [] s (select m sel accept s)"
proof (cases "sel_count sel = 0 \<or> shortlist sel = []")
  case True
  then show ?thesis by (auto simp: select_def traced_def intro!: exI [of _ "[]"])
next
  case False
  then show ?thesis using select_loop_trace [of "[]"] by (simp add: select_def)
qed

subsection \<open>The slate does not depend on the order of the scan\<close>

definition akey :: "(Candidate \<Rightarrow> double) \<Rightarrow> Candidate \<Rightarrow> int \<times> int" where
  "akey score c = (dkey (score c), - uint (cd_id c))"

lemma scan_step_akey:
  assumes "\<not> is_nan (score (cands ! i))" "b < length cands \<Longrightarrow> \<not> is_nan adj \<and> adj = score (cands ! b)"
    and "b \<le> length cands" "\<not> taken i"
  shows "scan_step score cands taken i (b, adj) =
     (if b = length cands \<or> akey score (cands ! b) < akey score (cands ! i)
      then (i, score (cands ! i)) else (b, adj))"
  using assms
  by (auto simp: scan_step_def akey_def deq_def less_double_def Let_def word_less_def)

lemma scan_best_max:
  assumes num: "\<And>i. i < length cands \<Longrightarrow> \<not> taken i \<Longrightarrow> \<not> is_nan (score (cands ! i))"
    and "i < length cands" "\<not> taken i"
  shows "akey score (cands ! i) \<le> akey score (cands ! fst (scan_best score cands taken))"
proof -
  let ?f = "\<lambda>n. fold (scan_step score cands taken) [0..<n] (length cands, 0)"
  let ?R = "\<lambda>n r. (fst r = length cands \<and> (\<forall>i < n. taken i))
       \<or> (fst r < length cands \<and> \<not> taken (fst r) \<and> snd r = score (cands ! fst r)
          \<and> (\<forall>i < n. \<not> taken i \<longrightarrow> akey score (cands ! i) \<le> akey score (cands ! fst r)))"
  have "n \<le> length cands \<Longrightarrow> ?R n (?f n)" for n
  proof (induction n)
    case (Suc n)
    obtain b adj where b: "?f n = (b, adj)" by fastforce
    then have R: "?R n (b, adj)" using Suc by simp
    have f: "?f (Suc n) = scan_step score cands taken n (b, adj)" using b by simp
    show ?case
    proof (cases "taken n")
      case True
      then have "?f (Suc n) = (b, adj)" using f by (simp add: scan_step_def)
      then show ?thesis using R True by (auto simp: less_Suc_eq)
    next
      case False
      have "?f (Suc n) = (if b = length cands \<or> akey score (cands ! b) < akey score (cands ! n)
          then (n, score (cands ! n)) else (b, adj))"
        unfolding f by (rule scan_step_akey) (use R num Suc.prems False in auto)
      then show ?thesis using R Suc.prems False by (auto simp: less_Suc_eq not_less)
    qed
  qed simp
  then have "?R (length cands) (scan_best score cands taken)" by (simp add: scan_best_def)
  then show ?thesis using assms(2,3) by auto
qed

definition untaken :: "Candidate list \<Rightarrow> (nat \<Rightarrow> bool) \<Rightarrow> Candidate set" where
  "untaken cands taken = {cands ! i | i. i < length cands \<and> \<not> taken i}"

lemma untaken_upd:
  assumes "distinct cands" "b < length cands"
  shows "untaken cands (taken(b := True)) = untaken cands taken - {cands ! b}"
  using assms by (auto simp: untaken_def nth_eq_iff_index_eq)

lemma scan_best_unique:
  assumes num: "\<And>c. c \<in> untaken cands taken \<Longrightarrow> \<not> is_nan (score c)"
    and inj: "inj_on cd_id (untaken cands taken)"
    and same: "untaken cands taken = untaken cands' taken'"
    and b: "scan_best score cands taken = (b, adj)" and b': "scan_best score cands' taken' = (b', adj')"
    and some: "b \<noteq> length cands"
  shows "b' < length cands'" "\<not> taken' b'" "cands' ! b' = cands ! b"
proof -
  have bb: "b < length cands" "\<not> taken b" using scan_best_untaken(1,2) [OF b [symmetric] some] .
  then have "untaken cands' taken' \<noteq> {}" using same unfolding untaken_def by blast
  then have "b' \<noteq> length cands'"
    using scan_best_range [of score cands' taken'] b' by (auto simp: untaken_def)
  then show bb': "b' < length cands'" "\<not> taken' b'" using scan_best_untaken(1,2) [OF b' [symmetric]] by auto
  have mem1: "cands ! b \<in> untaken cands taken" using bb unfolding untaken_def by blast
  have mem2: "cands' ! b' \<in> untaken cands taken" using bb' unfolding same unfolding untaken_def by blast
  note mem = mem1 mem2
  have num': "\<not> is_nan (score (cands' ! i))" if "i < length cands'" "\<not> taken' i" for i
    using num that unfolding same unfolding untaken_def by blast
  have num: "\<not> is_nan (score (cands ! i))" if "i < length cands" "\<not> taken i" for i
    using num that unfolding untaken_def by blast
  obtain i where i: "i < length cands" "\<not> taken i" "cands' ! b' = cands ! i"
    using mem(2) unfolding untaken_def by auto
  obtain j where j: "j < length cands'" "\<not> taken' j" "cands ! b = cands' ! j"
    using mem(1) unfolding same unfolding untaken_def by auto
  have "akey score (cands' ! b') \<le> akey score (cands ! b)"
    unfolding i(3) using scan_best_max [of cands taken score, OF num i(1,2)] b by simp
  moreover have "akey score (cands ! b) \<le> akey score (cands' ! b')"
    unfolding j(3) using scan_best_max [of cands' taken' score, OF num' j(1,2)] b' by simp
  ultimately have "akey score (cands' ! b') = akey score (cands ! b)" by (rule order_antisym)
  then have "cd_id (cands' ! b') = cd_id (cands ! b)"
    unfolding akey_def by (metis prod.inject neg_equal_iff_equal word_of_int_uint)
  then show "cands' ! b' = cands ! b" using inj mem by (meson inj_onD)
qed

lemma select_loop_perm:
  assumes "distinct cands" "distinct cands'" "inj_on cd_id (set cands)"
    and num: "\<And>c cc ac. c \<in> set cands \<Longrightarrow> \<not> is_nan (adjusted_score m config cc ac c)"
    and "untaken cands taken = untaken cands' taken'"
  shows "select_loop m config n cands accept taken chosen cc ac s =
         select_loop m config n cands' accept taken' chosen cc ac s"
  using assms(5)
proof (induction taken chosen cc ac s arbitrary: taken' rule: select_loop_induct [of cands])
  case (step taken chosen cc ac s)
  let ?score = "adjusted_score m config cc ac"
  have sub: "untaken cands taken \<subseteq> set cands" unfolding untaken_def by auto
  obtain b adj b' adj' where b: "scan_best ?score cands taken = (b, adj)"
      "scan_best ?score cands' taken' = (b', adj')" by (metis surj_pair)
  show ?case
  proof (cases "b = length cands")
    case True
    then have "untaken cands taken = {}"
      using scan_best_range [of ?score cands taken] b(1) by (auto simp: untaken_def)
    then have "b' = length cands'"
      using step.prems scan_best_untaken(1,2) [OF b(2) [symmetric]] unfolding untaken_def by blast
    then show ?thesis using True b by (simp add: select_loop_unfold [where taken = taken] select_loop_unfold [where taken = taken'])
  next
    case False
    have bb: "b < length cands" "\<not> taken b" "adj = ?score (cands ! b)"
      using scan_best_untaken(1-3) [OF b(1) [symmetric] False] .
    have bb': "b' < length cands'" "\<not> taken' b'" "cands' ! b' = cands ! b"
      using scan_best_unique [OF _ inj_on_subset [OF assms(3) sub] step.prems b False] num sub by blast+
    have "adj' = adj" using scan_best_untaken(3) [OF b(2) [symmetric]] bb bb' by simp
    moreover have "untaken cands (taken(b := True)) = untaken cands' (taken'(b' := True))"
      using untaken_upd assms(1,2) bb bb' step.prems by simp
    note IH = step.IH [OF bb(1,2) this]
    ultimately show ?thesis using b bb' bb(1) False IH
      by (subst (1 2) select_loop_unfold) (simp add: Let_def case_prod_beta del: fun_upd_apply)
  qed
qed

lemma inj_id_candidates:
  assumes "distinct (map item_id items)"
  shows "distinct (map cd_id (candidates m config signal now items))"
  using assms
proof (induction items rule: rev_induct)
  case (snoc item items)
  have "item_id ` set items \<supseteq> cd_id ` set (candidates m config signal now items)"
    by (auto simp: candidates_def List.map_filter_def candidate_for_def Let_def split: if_splits)
  then show ?case using snoc
    by (auto simp: candidate_for_def Let_def split: option.split if_splits)
qed simp

lemma candidates_perm:
  "mset items = mset items' \<Longrightarrow>
    mset (candidates m config signal now items) = mset (candidates m config signal now items')"
  unfolding candidates_def List.map_filter_def by (metis mset_filter mset_map)

text \<open>The best of a list with distinct ids are determined by their number.\<close>

lemma best_of_unique:
  assumes "best_of limit seen sl" "best_of limit seen' sl'" "mset seen = mset seen'"
    and ids: "distinct (map cd_id seen)" and num: "\<forall>c \<in> set seen. numeric c"
  shows "set sl = set sl'" "distinct (map cd_id sl)" "distinct (map cd_id sl')"
proof -
  obtain d where d: "mset sl + mset d = mset seen" "length sl = min limit (length seen)"
      "\<forall>x \<in> set sl. \<forall>y \<in> set d. \<not> worse x y" using assms(1) unfolding best_of_def by blast
  obtain d' where d': "mset sl' + mset d' = mset seen" "length sl' = min limit (length seen)"
      "\<forall>x \<in> set sl'. \<forall>y \<in> set d'. \<not> worse x y"
    using assms(2,3) unfolding best_of_def by (metis size_mset)
  have dist: "distinct (map cd_id (xs @ ys))" if "mset xs + mset ys = mset seen" for xs ys
    using ids that by (metis mset_append mset_eq_imp_distinct_iff mset_map)
  show ids': "distinct (map cd_id sl)" "distinct (map cd_id sl')"
    using dist [OF d(1)] dist [OF d'(1)] by auto
  have sets: "set seen = set sl \<union> set d" "set seen = set sl' \<union> set d'"
    using mset_sum_set [OF d(1)] mset_sum_set [OF d'(1)] by auto
  have inj: "inj_on cd_id (set seen)" using ids by (simp add: distinct_map)
  have total: "x = y \<or> worse x y \<or> worse y x" if "x \<in> set seen" "y \<in> set seen" for x y
  proof (cases "cd_id x = cd_id y")
    case False
    then have "ckey x \<noteq> ckey y" by (simp add: ckey_def)
    then show ?thesis using worse_ckey num that by (metis linorder_neqE)
  qed (use inj that in \<open>auto dest: inj_onD\<close>)
  have card: "card (set sl) = card (set sl')"
    using d(2) d'(2) ids' by (simp add: distinct_map distinct_card)
  show "set sl = set sl'"
  proof (rule ccontr)
    assume ne: "set sl \<noteq> set sl'"
    have "\<not> set sl \<subseteq> set sl'" "\<not> set sl' \<subseteq> set sl"
      using ne card card_subset_eq [of "set sl'" "set sl"] card_subset_eq [of "set sl" "set sl'"] by auto
    then obtain x y where x: "x \<in> set sl" "x \<notin> set sl'" and y: "y \<in> set sl'" "y \<notin> set sl" by blast
    then have "x \<in> set d'" "y \<in> set d" using sets by auto
    then have "\<not> worse x y" "\<not> worse y x" using d(3) d'(3) x y by auto
    then show False using total [of x y] x y sets by auto
  qed
qed

lemma select_perm:
  assumes "set (shortlist sel) = set (shortlist sel')" "distinct (map cd_id (shortlist sel))"
    "distinct (map cd_id (shortlist sel'))"
    and "\<And>c cc ac. c \<in> set (shortlist sel) \<Longrightarrow> \<not> is_nan (adjusted_score m (sel_config sel) cc ac c)"
    and "sel_config sel' = sel_config sel" "sel_count sel' = sel_count sel"
  shows "select m sel accept s = select m sel' accept s"
proof -
  have "untaken xs (\<lambda>_. False) = set xs" for xs by (auto simp: untaken_def in_set_conv_nth)
  moreover have "shortlist sel = [] \<longleftrightarrow> shortlist sel' = []" using assms(1) by auto
  ultimately show ?thesis
    using assms by (auto simp: select_def distinct_map intro!: select_loop_perm)
qed

lemma set_offer: "set (offer limit c sl) \<subseteq> insert c (set sl)"
proof -
  have pop: "set (std_pop_heap heap_less sl) = set sl" by (metis std.pop_perm set_mset_mset)
  have "set ((std_pop_heap heap_less sl)[length sl - 1 := c]) \<subseteq> insert c (set sl)"
    using set_update_subset_insert [of "std_pop_heap heap_less sl"] pop by fastforce
  then show ?thesis by (auto simp: offer_def)
qed

lemma scan_subset:
  "set (shortlist (scan m items sel)) \<subseteq>
     set (shortlist sel) \<union> set (candidates m (sel_config sel) (sel_signal sel) (sel_now sel) items)"
proof (induction items rule: rev_induct)
  case (snoc item items)
  have "scan m (items @ [item]) sel = consider_item m item (scan m items sel)" by (simp add: scan_def)
  then show ?case using snoc set_offer
    by (fastforce simp: consider_item_shortlist split: option.splits)
qed (simp add: scan_def)

lemma selector_make_fields [simp]:
  "sel_config (selector_make config signal now n) = config"
  "sel_signal (selector_make config signal now n) = signal"
  "sel_now (selector_make config signal now n) = now" "sel_count (selector_make config signal now n) = n"
  "sel_limit (selector_make config signal now n) = (if n = 0 then 0 else n * max (overfetch config) 1)"
  "shortlist (selector_make config signal now n) = []"
  by (simp_all add: selector_make_def)

text \<open>The slate comes from the inventory, and takes each of its items at most once.\<close>

lemma slate_subset:
  "rshape ` set (fst (select m (scan m items (selector_make config signal now n)) accept s))
     \<subseteq> (\<lambda>item. (item_id item, category item, advertiser item)) `
        {item. item \<in> set items \<and> \<not> base_score item \<le> 0
             \<and> (never_expires item \<or> sint now < sint (expires_at item))
             \<and> \<not> excludes signal (category item)
             \<and> \<not> base_relevance m item signal config now \<le> min_score config}"
proof -
  let ?sel = "scan m items (selector_make config signal now n)"
  obtain asked answers where t: "\<forall>i \<in> set asked. i < length (shortlist ?sel)"
      "map rshape (fst (select m ?sel accept s)) = map (\<lambda>i. cshape (shortlist ?sel ! i)) (accepted asked answers)"
    using select_trace [of ?sel accept s m] unfolding traced_def by auto
  have "set (accepted asked answers) \<subseteq> set asked"
    by (auto simp: accepted_def dest: set_zip_leftD)
  then have "rshape ` set (fst (select m ?sel accept s)) \<subseteq> cshape ` set (shortlist ?sel)"
    using t(1) arg_cong [OF t(2), of set] by fastforce
  also have "\<dots> \<subseteq> cshape ` set (candidates m config signal now items)"
    using scan_subset [of m items "selector_make config signal now n"] by auto
  finally show ?thesis
    by (force simp: candidates_def List.map_filter_def candidate_for_def is_eligible_def cshape_def Let_def
        split: if_splits)
qed

lemma offer_submset: "mset (offer limit c sl) \<subseteq># add_mset c (mset sl)"
proof -
  have "mset ((std_pop_heap heap_less sl)[length sl - 1 := c]) \<subseteq># add_mset c (mset sl)"
  proof (cases "sl = []")
    case True
    then show ?thesis using std.length_pop [of heap_less sl] by (auto simp: std_pop_heap_def)
  next
    case False
    have "(std_pop_heap heap_less sl)[length sl - 1 := c] = butlast (std_pop_heap heap_less sl) @ [c]"
      using update_last [OF std.pop_nonempty [OF False, of heap_less], of c] by simp
    then show ?thesis using std.mset_butlast_pop [OF False, of heap_less] by simp
  qed
  then show ?thesis by (auto simp: offer_def std.push_perm)
qed

lemma scan_submset:
  assumes "shortlist sel = []"
  shows "mset (shortlist (scan m items sel))
     \<subseteq># mset (candidates m (sel_config sel) (sel_signal sel) (sel_now sel) items)"
proof (induction items rule: rev_induct)
  case (snoc item items)
  have "scan m (items @ [item]) sel = consider_item m item (scan m items sel)" by (simp add: scan_def)
  moreover have "mset (offer limit c (shortlist (scan m items sel)))
      \<subseteq># add_mset c (mset (candidates m (sel_config sel) (sel_signal sel) (sel_now sel) items))" for limit c
    using offer_submset snoc by (rule subset_mset.order_trans [OF _ mset_subset_eq_add_mset_cancel [THEN iffD2]])
  ultimately show ?case using snoc by (auto simp: consider_item_shortlist split: option.split)
qed (simp add: scan_def assms)

lemma distinct_submset:
  assumes "mset xs \<subseteq># mset ys" "distinct (map f ys)"
  shows "distinct (map f xs)"
proof -
  have "mset (map f xs) \<subseteq># mset (map f ys)" using image_mset_subseteq_mono [OF assms(1)] by simp
  then show ?thesis using assms(2) by (metis distinct_append mset_append mset_eq_imp_distinct_iff mset_subset_eq_exists_conv ex_mset)
qed

lemma slate_distinct:
  assumes "distinct (map item_id items)"
  shows "distinct (map ri_id (fst (select m (scan m items (selector_make config signal now n)) accept s)))"
proof -
  let ?sel = "scan m items (selector_make config signal now n)"
  have "mset (shortlist ?sel) \<subseteq># mset (candidates m config signal now items)"
    using scan_submset [of "selector_make config signal now n"] by simp
  then have ids: "distinct (map cd_id (shortlist ?sel))"
    using inj_id_candidates [OF assms] by (rule distinct_submset)
  obtain asked answers where t: "distinct asked" "\<forall>i \<in> set asked. i < length (shortlist ?sel)"
      "map rshape (fst (select m ?sel accept s)) = map (\<lambda>i. cshape (shortlist ?sel ! i)) (accepted asked answers)"
    using select_trace [of ?sel accept s m] unfolding traced_def by auto
  have "map ri_id (fst (select m ?sel accept s)) = map fst (map rshape (fst (select m ?sel accept s)))"
    by (simp add: rshape_def comp_def)
  also have "\<dots> = map (\<lambda>i. map cd_id (shortlist ?sel) ! i) (accepted asked answers)"
    unfolding t(3) using t(2) by (auto simp: cshape_def accepted_def dest: set_zip_leftD)
  finally have eq: "map ri_id (fst (select m ?sel accept s))
      = map (\<lambda>i. map cd_id (shortlist ?sel) ! i) (accepted asked answers)" .
  have "distinct (accepted asked answers)"
  proof -
    have "distinct (map fst (zip asked answers))" using t(1) by (simp add: map_fst_zip_take)
    then show ?thesis unfolding accepted_def by (rule distinct_map_filter)
  qed
  moreover have "set (accepted asked answers) \<subseteq> {..<length (shortlist ?sel)}"
    using t(2) by (auto simp: accepted_def dest: set_zip_leftD)
  moreover have "inj_on (\<lambda>i. map cd_id (shortlist ?sel) ! i) (set (accepted asked answers))"
    by (rule inj_on_nth [OF ids]) (use calculation(2) in auto)
  ultimately show ?thesis unfolding eq by (simp add: distinct_map)
qed

text \<open>
  A score that is not a number passes both guards, since every comparison with it is false: the item
  is eligible and its relevance, not a number either, is retained.
\<close>

lemma nan_times: "is_nan a \<or> is_nan b \<Longrightarrow> is_nan (a * b)"
  by (simp add: times_double_def quiet_nan_def is_nan_def inf_mag_def)

lemma nan_score_passes:
  assumes "is_nan (base_score item)" "never_expires item" "\<not> excludes signal (category item)"
  shows "is_eligible item signal now" "\<not> base_relevance m item signal config now \<le> min_score config"
  using assms by (simp_all add: is_eligible_def base_relevance_def Let_def nan_times)

subsection \<open>Properties\<close>


text \<open>
  The hook is consulted at most once per retained candidate, the slate is exactly the candidates
  it accepted in the order it was asked, its final state is that of those calls in sequence, and the
  slate has at most count items and is short only when every retained candidate was asked.
\<close>

lemma select_consults_once:
  "\<exists>asked answers. distinct asked \<and> set asked \<subseteq> {..<retained sel}
    \<and> run_ops (consult accept) (map (\<lambda>i. cd_id (shortlist sel ! i)) asked) s
        = (answers, snd (select m sel accept s))
    \<and> map rshape (fst (select m sel accept s)) = map (\<lambda>i. cshape (shortlist sel ! i)) (accepted asked answers)
    \<and> length (fst (select m sel accept s)) \<le> unat (sel_count sel)
    \<and> (length (fst (select m sel accept s)) = unat (sel_count sel) \<or> set asked = {..<retained sel})"
proof -
  obtain asked answers where t: "distinct asked" "\<forall>i \<in> set asked. i < length (shortlist sel)"
      "run_ops (consult accept) (map (\<lambda>i. cd_id (shortlist sel ! i)) asked) s = (answers, snd (select m sel accept s))"
      "map rshape (fst (select m sel accept s)) = map (\<lambda>i. cshape (shortlist sel ! i)) (accepted asked answers)"
      "length (fst (select m sel accept s)) \<le> unat (sel_count sel)"
      "length (fst (select m sel accept s)) = unat (sel_count sel) \<or> (\<forall>i < length (shortlist sel). i \<in> set asked)"
    using select_trace [of sel accept s m] unfolding traced_def by auto
  from t(2,6) have "length (fst (select m sel accept s)) = unat (sel_count sel) \<or> set asked = {..<retained sel}"
    by (auto simp: retained_def)
  moreover have "set asked \<subseteq> {..<retained sel}" using t(2) by (auto simp: retained_def)
  ultimately show ?thesis using t(1,3-5) by blast
qed

text \<open>
  Whatever the hook, the scores and the order of the inventory, every item of a slate is an item
  of the inventory that is switched on, not expired and not in an excluded category, and whose
  relevance is not at or below the minimum.
\<close>

lemma slate_only_eligible:
  "rshape ` set (fst (select m (scan m items (selector_make config signal now n)) accept s))
     \<subseteq> (\<lambda>item. (item_id item, category item, advertiser item)) `
        {item. item \<in> set items \<and> \<not> base_score item \<le> 0
             \<and> (never_expires item \<or> sint now < sint (expires_at item))
             \<and> \<not> excludes signal (category item)
             \<and> \<not> base_relevance m item signal config now \<le> min_score config}"
  by (rule slate_subset)


subsection \<open>Instances\<close>

text \<open>An inventory of three items of equal relevance and a library whose functions are constant.\<close>

definition demo_libm :: libm where
  "demo_libm = \<lparr> libm_exp = \<lambda>_. 1, libm_pow = \<lambda>_ _. 1 \<rparr>"

definition demo_scoring :: ScoringConfig where
  "demo_scoring =
     \<lparr> default_affinity = 1, recency_half_life = 0, category_repeat_factor = 1,
       advertiser_repeat_factor = 1, overfetch = 1, min_score = 0 \<rparr>"

definition demo_item :: "u64 \<Rightarrow> Item" where
  "demo_item i = \<lparr> item_id = i, category = [1], advertiser = [2], base_score = 1, created_at = 0, expires_at = 0 \<rparr>"

definition demo_signal :: UserSignal where
  "demo_signal = \<lparr> affinities = [], excluded_categories = [] \<rparr>"

lemma one_times_one [simp]: "(1 :: double) * 1 = 1"
  using double_of_nat_1 by (simp add: times_finite double_of_nat_def)

lemma one_not_nan [simp]: "\<not> is_nan 1"
  by (simp add: finite_not_nan)

lemma demo_candidates:
  "candidates demo_libm demo_scoring demo_signal 5 (map demo_item ids)
     = map (\<lambda>i. \<lparr> cd_relevance = 1, cd_id = i, cd_category = [1], cd_advertiser = [2] \<rparr>) ids"
proof -
  have "candidate_for demo_libm demo_scoring demo_signal 5 (demo_item i)
      = Some \<lparr> cd_relevance = 1, cd_id = i, cd_category = [1], cd_advertiser = [2] \<rparr>" for i
    by (simp add: candidate_for_def base_relevance_def is_eligible_def demo_item_def demo_signal_def
        demo_scoring_def recency_multiplier_def affinity_for_def excludes_def never_expires_def
        less_eq_double_finite)
  then show ?thesis by (induction ids) (simp_all add: candidates_def)
qed



end
