(* ===== verification/Noise.thy ===== *)
theory Noise
  imports Rank_Types Shard_Router
begin

section \<open>Noise on exported counters (include/lrd/privacy/noise.hpp, src/privacy/noise.cpp)\<close>

text \<open>
  \<open>NoisyCounters\<close> adds a Laplace draw to a counter, clamps, rounds and suppresses the result. What the
  C++ library leaves to the implementation is a record \<open>noise_env\<close> of parameters: the first value that
  \<open>uniform_real_distribution(-0.5, 0.5)\<close> takes from a generator seeded with a given state, \<open>std::log\<close>,
  \<open>std::llround\<close> and the words a \<open>random_device\<close> yields.
\<close>

record noise_env =
  env_uniform :: "u64 \<Rightarrow> double"
  env_log :: "double \<Rightarrow> double"
  env_llround :: "double \<Rightarrow> 64 word"
  env_device1 :: u32
  env_device2 :: u32

record PrivacyConfig =
  pv_enabled :: bool
  pv_epsilon :: double
  pv_sensitivity :: double
  pv_suppression_threshold :: u64
  pv_rounding :: u64
  pv_epoch :: "64 word"
  pv_seed :: u64

definition default_privacy :: PrivacyConfig where
  "default_privacy =
     \<lparr> pv_enabled = False, pv_epsilon = 1, pv_sensitivity = 1, pv_suppression_threshold = 5,
       pv_rounding = 10, pv_epoch = 60 * 60 * 1000, pv_seed = 0 \<rparr>"

datatype privacy_error = EpsilonNotPositive | SensitivityNotPositive | EpochNotPositive

definition fnv1a :: "cstring \<Rightarrow> u64" where
  "fnv1a text = fold (\<lambda>c hash. (hash XOR ucast c) * 0x100000001B3) text 0xCBF29CE484222325"

definition laplace_sample :: "noise_env \<Rightarrow> u64 \<Rightarrow> double \<Rightarrow> double" where
  "laplace_sample env rng scale =
     (let kGuard = dlit (1 / 2) - dlit (1 / 10 ^ 15);
          u = dclamp (env_uniform env rng) (- kGuard) kGuard;
          sgn = (if u < 0 then - 1 else 1)
      in ((- scale) * sgn) * env_log env (1 - double_of_nat 2 * dabs u))"

definition noisy_counters :: "noise_env \<Rightarrow> PrivacyConfig \<Rightarrow> privacy_error + PrivacyConfig" where
  "noisy_counters env config =
     (if pv_enabled config \<and> pv_epsilon config \<le> 0 then Inl EpsilonNotPositive
      else if pv_enabled config \<and> pv_sensitivity config \<le> 0 then Inl SensitivityNotPositive
      else if pv_enabled config \<and> sint (pv_epoch config) \<le> 0 then Inl EpochNotPositive
      else
        let config = (if pv_rounding config = 0 then config\<lparr>pv_rounding := 1\<rparr> else config)
        in Inr (if pv_seed config = 0
                then let seed = push_bit 32 (ucast (env_device1 env)) XOR ucast (env_device2 env)
                     in config\<lparr>pv_seed := (if seed = 0 then 0x9E3779B97F4A7C15 else seed)\<rparr>
                else config))"

definition noise_scale :: "PrivacyConfig \<Rightarrow> double" where
  "noise_scale config = pv_sensitivity config / pv_epsilon config"

definition epoch_index :: "PrivacyConfig \<Rightarrow> Timestamp \<Rightarrow> u64" where
  "epoch_index config now =
     (let epoch_ms = pv_epoch config in
      if epoch_ms = 0 then 0
      else
        let millis = to_epoch_millis now;
            unsigned_millis = (if sint millis < 0 then 0 else millis)
        in unsigned_millis div epoch_ms)"

definition noise_state :: "PrivacyConfig \<Rightarrow> cstring \<Rightarrow> Timestamp \<Rightarrow> u64" where
  "noise_state config metric now =
     hash_mix (hash_mix (pv_seed config XOR fnv1a metric) XOR epoch_index config now)"

definition noise_for :: "noise_env \<Rightarrow> PrivacyConfig \<Rightarrow> cstring \<Rightarrow> Timestamp \<Rightarrow> double" where
  "noise_for env config metric now =
     laplace_sample env (noise_state config metric now) (noise_scale config)"

definition publish :: "noise_env \<Rightarrow> PrivacyConfig \<Rightarrow> cstring \<Rightarrow> u64 \<Rightarrow> Timestamp \<Rightarrow> u64" where
  "publish env config metric exact now =
     (if \<not> pv_enabled config then exact
      else
        let noised = double_of_nat (unat exact) + noise_for env config metric now;
            clamped = dmax 0 noised;
            rounded_value = env_llround env clamped;
            rounding = pv_rounding config;
            rounded = (if rounding \<le> 1 then rounded_value
                       else ((rounded_value + rounding div 2) div rounding) * rounding)
        in if rounded \<le> pv_suppression_threshold config then 0 else rounded)"

subsection \<open>Properties\<close>

lemma noisy_counters_config:
  assumes "noisy_counters env config = Inr c"
  shows "pv_rounding c \<noteq> 0" "pv_seed c \<noteq> 0" "pv_enabled c = pv_enabled config" "pv_epoch c = pv_epoch config"
    "pv_enabled config \<Longrightarrow> 0 < sint (pv_epoch c)"
  using assms by (auto simp: noisy_counters_def Let_def split: if_splits)

lemma sint_nonneg_uint:
  fixes a :: "64 word"
  assumes "0 \<le> sint a"
  shows "sint a = uint a"
proof -
  have "\<not> bit (uint a) 63" using assms by (simp add: sint_uint del: bit_uint_iff)
  moreover have "n < 63" if "bit (uint a) n" for n
    using that calculation by (cases "n = 63") (auto simp: bit_uint_iff)
  ultimately have "take_bit 63 (uint a) = uint a"
    by (intro bit_eqI) (auto simp: bit_take_bit_iff simp del: bit_uint_iff)
  then show ?thesis using \<open>\<not> bit (uint a) 63\<close> by (simp add: sint_uint signed_take_bit_eq_if_positive del: bit_uint_iff)
qed

lemma word_div_mult:
  fixes x r :: u64
  shows "unat ((x div r) * r) = unat x div unat r * unat r"
proof -
  have "unat x div unat r * unat r \<le> unat x" by simp
  then have "unat x div unat r * unat r < 2 ^ 64"
    by (rule order_le_less_trans) (use unsigned_less [of x, where ?'a = nat] in simp)
  then show ?thesis by (simp add: unat_word_ariths unat_div mod_mult_left_eq)
qed

text \<open>
  Within an epoch the published figure is the same: for non-negative instants in one epoch, equal
  counters give equal figures, so repeated reads cannot average the noise away.
\<close>

lemma publish_constant_in_epoch:
  assumes "noisy_counters env config0 = Inr config" "0 \<le> sint t" "0 \<le> sint t'"
    and "sint t div sint (pv_epoch config) = sint t' div sint (pv_epoch config)"
  shows "publish env config metric exact t = publish env config metric exact t'"
proof (cases "pv_enabled config")
  case True
  then have e: "0 < sint (pv_epoch config)" using noisy_counters_config [OF assms(1)] by simp
  have "epoch_index config t = epoch_index config t'"
    using assms(2-4) e sint_nonneg_uint [of t] sint_nonneg_uint [of t'] sint_nonneg_uint [of "pv_epoch config"]
    by (simp add: epoch_index_def to_epoch_millis_def Let_def word_div_def)
  then show ?thesis by (simp add: publish_def noise_for_def noise_state_def)
qed (simp add: publish_def)

text \<open>
  A new epoch seeds a new generator: for one metric, the generator states of instants in
  different epochs differ, and so do those of metrics with different hashes in one epoch.
\<close>

lemma epochs_have_distinct_seeds:
  "(noise_state config metric t = noise_state config metric t' \<longleftrightarrow> epoch_index config t = epoch_index config t')
   \<and> (noise_state config metric t = noise_state config metric' t \<longleftrightarrow> fnv1a metric = fnv1a metric')"
proof -
  have mix: "hash_mix x = hash_mix y \<longleftrightarrow> x = y" for x y using hash_mix_inj by blast
  have self: "c XOR (c XOR a) = a" for a c :: u64 by (simp flip: xor.assoc)
  have xor1: "c XOR a = c XOR b \<longleftrightarrow> a = b" for a b c :: u64 by (metis self)
  have xor2: "a XOR c = b XOR c \<longleftrightarrow> a = b" for a b c :: u64 using xor1 [of c a b] by (simp add: xor.commute)
  show ?thesis by (simp add: noise_state_def mix xor1 xor2)
qed

text \<open>
  C27. What is published is the exact value when the mechanism is off; otherwise it is zero or a value
  above the suppression threshold that is a multiple of the rounding, also where the 64-bit sum wraps.
\<close>

theorem published_values:
  assumes "noisy_counters env config0 = Inr config"
  shows "if pv_enabled config
         then publish env config metric exact now = 0
            \<or> pv_suppression_threshold config < publish env config metric exact now
              \<and> unat (publish env config metric exact now) mod unat (pv_rounding config) = 0
         else publish env config metric exact now = exact"
proof (cases "pv_enabled config")
  case True
  have r: "pv_rounding config \<noteq> 0" using noisy_counters_config [OF assms] by simp
  have one: "pv_rounding config \<le> 1 \<Longrightarrow> unat (pv_rounding config) = 1"
    using r by (simp add: word_le_nat_alt le_Suc_eq unat_eq_0)
  show ?thesis
    using True one by (auto simp: publish_def Let_def word_div_mult not_le)
qed (simp add: publish_def)

subsection \<open>Instances\<close>

definition demo_env :: noise_env where
  "demo_env =
     \<lparr> env_uniform = \<lambda>_. 0, env_log = \<lambda>_. 0, env_llround = \<lambda>_. 17, env_device1 = 1, env_device2 = 2 \<rparr>"

definition demo_privacy :: PrivacyConfig where
  "demo_privacy = default_privacy\<lparr>pv_enabled := True, pv_seed := 42\<rparr>"

lemma demo_noisy: "noisy_counters demo_env demo_privacy = Inr demo_privacy"
  by (simp add: noisy_counters_def demo_privacy_def default_privacy_def less_eq_double_finite)

theorem published_values_witness:
  "if pv_enabled demo_privacy
   then publish demo_env demo_privacy [1] 17 0 = 0
      \<or> pv_suppression_threshold demo_privacy < publish demo_env demo_privacy [1] 17 0
        \<and> unat (publish demo_env demo_privacy [1] 17 0) mod unat (pv_rounding demo_privacy) = 0
   else publish demo_env demo_privacy [1] 17 0 = 17"
  by (rule published_values [OF demo_noisy])

end
