(* ===== verification/Handler.thy ===== *)
theory Handler
  imports Sharded_Cache Exposure_Store Scorer Noise Message
begin

section \<open>The request handler (include/lrd/daemon/handler.hpp, src/daemon/handler.cpp)\<close>

text \<open>
  \<open>Handler\<close> composes the item cache, the policy store, the scorer and the noise mechanism. A call of
  \<open>handle\<close> is one step; the clock reading of the call is an argument, because the clock is injected.
  The hash of an item id is the one of the cache model's parameter \<open>sc_hasher\<close>.
\<close>

record Handler =
  hn_cache :: "(ItemId, Item) ShardedCache"
  hn_policy :: ExposureStore
  hn_privacy :: PrivacyConfig
  hn_scoring :: ScoringConfig
  hn_requests :: u64
  hn_gets :: u64
  hn_puts :: u64
  hn_deletes :: u64
  hn_recommends :: u64
  hn_hits :: u64
  hn_misses :: u64

datatype handler_error = CacheError cache_error | PolicyError store_error | PrivacyError privacy_error

definition handler_make ::
  "(ItemId \<Rightarrow> u64) \<Rightarrow> noise_env \<Rightarrow> u64 \<Rightarrow> u64 \<Rightarrow> ScoringConfig \<Rightarrow> PolicyConfig \<Rightarrow> PrivacyConfig \<Rightarrow>
   handler_error + Handler" where
  "handler_make hasher env capacity shard_count scoring policy privacy =
     (case sharded_make hasher capacity shard_count of
        Inl e \<Rightarrow> Inl (CacheError e)
      | Inr cache \<Rightarrow>
          (case es_make policy shard_count of
             Inl e \<Rightarrow> Inl (PolicyError e)
           | Inr store \<Rightarrow>
               (case noisy_counters env privacy of
                  Inl e \<Rightarrow> Inl (PrivacyError e)
                | Inr noise \<Rightarrow>
                    Inr \<lparr>hn_cache = cache, hn_policy = store, hn_privacy = noise, hn_scoring = scoring,
                         hn_requests = 0, hn_gets = 0, hn_puts = 0, hn_deletes = 0, hn_recommends = 0,
                         hn_hits = 0, hn_misses = 0\<rparr>)))"

definition on_get :: "ItemId \<Rightarrow> Handler \<Rightarrow> ResponseBody \<times> Handler" where
  "on_get iid h0 =
     (let h = h0\<lparr>hn_gets := hn_gets h0 + 1\<rparr>;
          (item, cache) = sharded_get iid (hn_cache h);
          h = h\<lparr>hn_cache := cache\<rparr>
      in case item of
           None \<Rightarrow> (GetItemResult NotFound default_item, h\<lparr>hn_misses := hn_misses h + 1\<rparr>)
         | Some item \<Rightarrow> (GetItemResult Ok item, h\<lparr>hn_hits := hn_hits h + 1\<rparr>))"

definition on_put :: "Item \<Rightarrow> Handler \<Rightarrow> ResponseBody \<times> Handler" where
  "on_put item h0 =
     (let h = h0\<lparr>hn_puts := hn_puts h0 + 1\<rparr> in
      if item_id item = 0 then (Failure InvalidRequest (lit ''item id must not be zero''), h)
      else if category item = [] then (Failure InvalidRequest (lit ''item category must not be empty''), h)
      else (PutItemResult Ok, h\<lparr>hn_cache := sharded_put (item_id item) item (hn_cache h)\<rparr>))"

definition on_delete :: "ItemId \<Rightarrow> Handler \<Rightarrow> ResponseBody \<times> Handler" where
  "on_delete iid h0 =
     (let h = h0\<lparr>hn_deletes := hn_deletes h0 + 1\<rparr>;
          (erased, cache) = sharded_erase iid (hn_cache h)
      in (DeleteItemResult (if erased then Ok else NotFound), h\<lparr>hn_cache := cache\<rparr>))"

text \<open>The inventory in the order the shards are visited.\<close>

definition inventory :: "(ItemId, Item) ShardedCache \<Rightarrow> Item list" where
  "inventory cache =
     concat (map (\<lambda>shard. map snd (snapshot_shard shard cache)) [0..<unat (sc_shard_count cache)])"

text \<open>The hook of the live path and of the dry run.\<close>

definition accept_live :: "Timestamp \<Rightarrow> ItemId \<Rightarrow> ExposureStore \<Rightarrow> bool \<times> ExposureStore" where
  "accept_live now iid store = (let (d, store) = reserve iid now store in (d = Allowed, store))"

definition accept_dry :: "Timestamp \<Rightarrow> ItemId \<Rightarrow> ExposureStore \<Rightarrow> bool \<times> ExposureStore" where
  "accept_dry now iid store = (check iid now store = Allowed, store)"

definition on_recommend :: "libm \<Rightarrow> Timestamp \<Rightarrow> Recommend \<Rightarrow> Handler \<Rightarrow> ResponseBody \<times> Handler" where
  "on_recommend m now req h0 =
     (let h = h0\<lparr>hn_recommends := hn_recommends h0 + 1\<rparr> in
      if rec_count req = 0 then (Failure InvalidRequest (lit ''count must be at least 1''), h)
      else if kMaxRecommendCount < rec_count req
      then (Failure InvalidRequest
              (lit ''count '' @ decimal (unat (rec_count req)) @ lit '' exceeds the limit of ''
                 @ decimal (unat kMaxRecommendCount)), h)
      else
        let selector = scan m (inventory (hn_cache h))
              (selector_make (hn_scoring h) (rec_signal req) now (ucast (rec_count req)));
            accept = (if rec_dry_run req then accept_dry now else accept_live now);
            (chosen, store) = select m selector (Some accept) (hn_policy h)
        in (RecommendResult Ok chosen, h\<lparr>hn_policy := store\<rparr>))"

definition handler_stats :: "Handler \<Rightarrow> Stats" where
  "handler_stats h =
     (let pm = es_metrics (hn_policy h) in
      \<lparr>st_requests = hn_requests h, st_gets = hn_gets h, st_puts = hn_puts h, st_deletes = hn_deletes h,
       st_recommends = hn_recommends h, st_hits = hn_hits h, st_misses = hn_misses h,
       st_evictions = evictions (sharded_metrics (hn_cache h)),
       st_entries = of_nat (sharded_size (hn_cache h)), st_capacity = sc_capacity (hn_cache h),
       st_policy_allowed = pm_allowed pm, st_policy_exposure_blocked = pm_exposure_blocked pm,
       st_policy_frequency_blocked = pm_frequency_blocked pm,
       st_policy_store_full = pm_store_full_blocked pm, st_policy_tracked = pm_tracked pm\<rparr>)"

definition published_stats :: "noise_env \<Rightarrow> Timestamp \<Rightarrow> Handler \<Rightarrow> Stats" where
  "published_stats env now h =
     (let exact = handler_stats h;
          noise = (\<lambda>name v. publish env (hn_privacy h) (lit name) v now)
      in exact\<lparr>st_requests := noise ''requests'' (st_requests exact),
               st_gets := noise ''gets'' (st_gets exact),
               st_recommends := noise ''recommends'' (st_recommends exact),
               st_hits := noise ''hits'' (st_hits exact),
               st_misses := noise ''misses'' (st_misses exact),
               st_policy_allowed := noise ''policy_allowed'' (st_policy_allowed exact),
               st_policy_exposure_blocked :=
                 noise ''policy_exposure_blocked'' (st_policy_exposure_blocked exact),
               st_policy_frequency_blocked :=
                 noise ''policy_frequency_blocked'' (st_policy_frequency_blocked exact)\<rparr>)"

definition on_stats :: "noise_env \<Rightarrow> Timestamp \<Rightarrow> Handler \<Rightarrow> ResponseBody" where
  "on_stats env now h = StatsResult Ok (published_stats env now h)"

definition dispatch :: "libm \<Rightarrow> noise_env \<Rightarrow> Timestamp \<Rightarrow> RequestBody \<Rightarrow> Handler \<Rightarrow> ResponseBody \<times> Handler" where
  "dispatch m env now body h =
     (case body of
        GetItem iid \<Rightarrow> on_get iid h
      | PutItem item \<Rightarrow> on_put item h
      | DeleteItem iid \<Rightarrow> on_delete iid h
      | GetStats \<Rightarrow> (on_stats env now h, h)
      | RecommendBody req \<Rightarrow> on_recommend m now req h)"

definition handle :: "libm \<Rightarrow> noise_env \<Rightarrow> Timestamp \<Rightarrow> Request \<Rightarrow> Handler \<Rightarrow> Response \<times> Handler" where
  "handle m env now request h0 =
     (let h = h0\<lparr>hn_requests := hn_requests h0 + 1\<rparr>;
          (body, h) = dispatch m env now (req_body request) h
      in (\<lparr>response_id = request_id request, resp_body = body\<rparr>, h))"

subsection \<open>Invariant\<close>

definition handler_inv :: "Handler \<Rightarrow> bool" where
  "handler_inv h \<longleftrightarrow> sharded_inv (hn_cache h) \<and> es_inv (hn_policy h)
     \<and> pv_rounding (hn_privacy h) \<noteq> 0 \<and> hn_gets h = hn_hits h + hn_misses h"

lemma handler_make_inv:
  assumes "handler_make hasher env capacity n scoring policy privacy = Inr h"
  shows "handler_inv h" "es_config (hn_policy h) = policy" "sc_capacity (hn_cache h) = capacity"
    "shows_in (es_shard_for j (hn_policy h)) j = 0" "sharded_peek k (hn_cache h) = None"
    "hn_requests h = 0" "hn_scoring h = scoring"
proof -
  obtain cache store noise where "sharded_make hasher capacity n = Inr cache" "es_make policy n = Inr store"
      "noisy_counters env privacy = Inr noise" and h: "hn_cache h = cache" "hn_policy h = store" "hn_privacy h = noise"
      "hn_gets h = 0" "hn_hits h = 0" "hn_misses h = 0" "hn_requests h = 0" "hn_scoring h = scoring"
    using assms by (auto simp: handler_make_def split: sum.splits)
  note f = sharded_make_inv [OF this(1)] es_make_spec [OF this(2)] noisy_counters_config [OF this(3)]
  then show "handler_inv h" "es_config (hn_policy h) = policy" "sc_capacity (hn_cache h) = capacity"
    "shows_in (es_shard_for j (hn_policy h)) j = 0" "sharded_peek k (hn_cache h) = None"
    "hn_requests h = 0" "hn_scoring h = scoring"
    using h by (auto simp: handler_inv_def)
qed

text \<open>The policy store after a selection is the store after the calls the hook made.\<close>

lemma consult_Some [simp]: "consult (Some f) = f"
  by (rule ext, rule ext) (simp add: consult_def)

lemma accept_live_inv:
  "es_inv st \<Longrightarrow> accept_live now iid st = (ok, st') \<Longrightarrow> es_inv st' \<and> es_config st' = es_config st"
  by (auto simp: accept_live_def split: prod.splits dest: reserve_spec(1,2))

lemma accept_live_reserve: "reserve i now st = (d, st1) \<Longrightarrow> accept_live now i st = (d = Allowed, st1)"
  by (simp add: accept_live_def)

lemma run_live_inv:
  "es_inv st \<Longrightarrow> run_ops (accept_live now) ids st = (oks, st') \<Longrightarrow> es_inv st' \<and> es_config st' = es_config st"
proof (induction ids arbitrary: st oks)
  case (Cons i ids)
  then show ?case by (fastforce split: prod.splits dest: accept_live_inv)
qed simp

lemma run_dry: "snd (run_ops (accept_dry now) ids st) = st"
  by (induction ids) (auto simp: accept_dry_def Let_def split: prod.splits)

lemma select_calls:
  obtains ids answers where
    "run_ops f ids s = (answers, snd (select m sel (Some f) s))"
    "map ri_id (fst (select m sel (Some f) s)) = map fst (filter snd (zip ids answers))"
    "length (fst (select m sel (Some f) s)) \<le> unat (sel_count sel)"
proof -
  obtain asked answers where t:
      "run_ops f (map (\<lambda>i. cd_id (shortlist sel ! i)) asked) s = (answers, snd (select m sel (Some f) s))"
      "map rshape (fst (select m sel (Some f) s)) = map (\<lambda>i. cshape (shortlist sel ! i)) (accepted asked answers)"
      "length (fst (select m sel (Some f) s)) \<le> unat (sel_count sel)"
    using select_trace [of sel "Some f" s m] unfolding traced_def by auto
  have "map ri_id (fst (select m sel (Some f) s)) = map fst (map rshape (fst (select m sel (Some f) s)))"
    by (simp add: rshape_def comp_def)
  also have "\<dots> = map fst (filter snd (zip (map (\<lambda>i. cd_id (shortlist sel ! i)) asked) answers))"
    unfolding t(2) by (simp add: accepted_def zip_map1 filter_map comp_def cshape_def case_prod_beta)
  finally show ?thesis using t(1,3) that by blast
qed

text \<open>Counting: a live selection charges each item of the slate once per place and nothing else.\<close>

lemma run_live_shows:
  assumes "es_inv st" "\<not> fail_open_when_full (es_config st)" "0 < exposure_cap (es_config st)"
    and "run_ops (accept_live now) ids st = (oks, st')"
  shows "shows_in (es_shard_for j st') j
       = shows_in (es_shard_for j st) j + count_list (map fst (filter snd (zip ids oks))) j"
  using assms
proof (induction ids arbitrary: st oks)
  case (Cons i ids)
  obtain d st1 where r: "reserve i now st = (d, st1)" by fastforce
  obtain oks1 where 2: "run_ops (accept_live now) ids st1 = (oks1, st')" "oks = (d = Allowed) # oks1"
    using Cons.prems(4) accept_live_reserve [OF r] by (auto split: prod.splits)
  have i: "es_inv st1" "es_config st1 = es_config st" using reserve_spec(1,2) [OF Cons.prems(1) r] by simp_all
  show ?case
    using Cons.IH [OF i(1) _ _ 2(1)] reserve_shows [OF Cons.prems(1) r Cons.prems(2,3), of j] Cons.prems(2,3) i(2) 2(2)
    by auto
qed simp

fun served :: "ItemId \<Rightarrow> RequestBody \<Rightarrow> ResponseBody \<Rightarrow> nat" where
  "served j (RecommendBody r) (RecommendResult s items) =
     (if rec_dry_run r then 0 else count_list (map ri_id items) j)"
| "served j _ _ = 0"

lemma on_recommend_cases:
  obtains (refused) msg where
    "on_recommend m now req h = (Failure InvalidRequest msg, h\<lparr>hn_recommends := hn_recommends h + 1\<rparr>)"
    "rec_count req = 0 \<or> kMaxRecommendCount < rec_count req"
  | (slate) chosen store where
    "on_recommend m now req h
       = (RecommendResult Ok chosen, h\<lparr>hn_recommends := hn_recommends h + 1, hn_policy := store\<rparr>)"
    "select m (scan m (inventory (hn_cache h))
        (selector_make (hn_scoring h) (rec_signal req) now (ucast (rec_count req))))
        (Some (if rec_dry_run req then accept_dry now else accept_live now)) (hn_policy h) = (chosen, store)"
    "rec_count req \<noteq> 0" "rec_count req \<le> kMaxRecommendCount"
proof -
  let ?sel = "select m (scan m (inventory (hn_cache h))
        (selector_make (hn_scoring h) (rec_signal req) now (ucast (rec_count req))))
        (Some (if rec_dry_run req then accept_dry now else accept_live now)) (hn_policy h)"
  obtain chosen store where s: "?sel = (chosen, store)" by fastforce
  consider "rec_count req = 0" | "rec_count req \<noteq> 0" "kMaxRecommendCount < rec_count req"
    | "rec_count req \<noteq> 0" "rec_count req \<le> kMaxRecommendCount" by fastforce
  then show ?thesis
  proof cases
    case 1
    then show ?thesis by (intro refused) (auto simp: on_recommend_def)
  next
    case 2
    then show ?thesis by (intro refused) (auto simp: on_recommend_def)
  next
    case 3
    then have "on_recommend m now req h
        = (RecommendResult Ok chosen, h\<lparr>hn_recommends := hn_recommends h + 1, hn_policy := store\<rparr>)"
      using s by (cases "rec_dry_run req") (simp_all add: on_recommend_def not_less Let_def)
    then show ?thesis using s 3 by (rule slate)
  qed
qed

lemma on_recommend_policy:
  assumes "es_inv (hn_policy h)" "on_recommend m now req h = (body, h')"
  shows "es_inv (hn_policy h') \<and> es_config (hn_policy h') = es_config (hn_policy h)"
    "\<not> fail_open_when_full (es_config (hn_policy h)) \<Longrightarrow> 0 < exposure_cap (es_config (hn_policy h)) \<Longrightarrow>
      shows_in (es_shard_for j (hn_policy h')) j
        = shows_in (es_shard_for j (hn_policy h)) j + served j (RecommendBody req) body"
    "rec_dry_run req \<Longrightarrow> hn_policy h' = hn_policy h"
proof -
  have "es_inv (hn_policy h') \<and> es_config (hn_policy h') = es_config (hn_policy h)
    \<and> (\<not> fail_open_when_full (es_config (hn_policy h)) \<and> 0 < exposure_cap (es_config (hn_policy h)) \<longrightarrow>
        shows_in (es_shard_for j (hn_policy h')) j
          = shows_in (es_shard_for j (hn_policy h)) j + served j (RecommendBody req) body)
    \<and> (rec_dry_run req \<longrightarrow> hn_policy h' = hn_policy h)"
  proof (cases rule: on_recommend_cases [of m now req h])
    case refused
    then show ?thesis using assms by auto
  next
    case (slate chosen store)
    let ?sel = "scan m (inventory (hn_cache h)) (selector_make (hn_scoring h) (rec_signal req) now (ucast (rec_count req)))"
    show ?thesis
    proof (cases "rec_dry_run req")
      case True
      obtain ids answers where "run_ops (accept_dry now) ids (hn_policy h) = (answers, store)"
        by (rule select_calls [of "accept_dry now" "hn_policy h" m ?sel]) (use slate(2) True in simp)
      then have "store = hn_policy h" using run_dry [of now ids "hn_policy h"] by simp
      then show ?thesis using assms slate(1) True by auto
    next
      case False
      obtain ids answers where r: "run_ops (accept_live now) ids (hn_policy h) = (answers, store)"
          "map ri_id chosen = map fst (filter snd (zip ids answers))"
        by (rule select_calls [of "accept_live now" "hn_policy h" m ?sel]) (use slate(2) False in simp)
      then show ?thesis
        using run_live_inv [OF assms(1) r(1)] run_live_shows [OF assms(1) _ _ r(1), of j] assms(2) slate(1) False
        by auto
    qed
  qed
  then show "es_inv (hn_policy h') \<and> es_config (hn_policy h') = es_config (hn_policy h)"
    "\<not> fail_open_when_full (es_config (hn_policy h)) \<Longrightarrow> 0 < exposure_cap (es_config (hn_policy h)) \<Longrightarrow>
      shows_in (es_shard_for j (hn_policy h')) j
        = shows_in (es_shard_for j (hn_policy h)) j + served j (RecommendBody req) body"
    "rec_dry_run req \<Longrightarrow> hn_policy h' = hn_policy h" by auto
qed

subsection \<open>One request\<close>

lemma on_get_cases:
  assumes "sharded_inv (hn_cache h)"
  obtains cache where "sharded_inv cache" "\<And>k. sharded_peek k cache = sharded_peek k (hn_cache h)"
    "sc_capacity cache = sc_capacity (hn_cache h)"
    "on_get iid h = (case sharded_peek iid (hn_cache h) of
        None \<Rightarrow> (GetItemResult NotFound default_item,
                 h\<lparr>hn_gets := hn_gets h + 1, hn_cache := cache, hn_misses := hn_misses h + 1\<rparr>)
      | Some item \<Rightarrow> (GetItemResult Ok item,
                 h\<lparr>hn_gets := hn_gets h + 1, hn_cache := cache, hn_hits := hn_hits h + 1\<rparr>))"
proof -
  obtain r cache where g: "sharded_get iid (hn_cache h) = (r, cache)" by fastforce
  note v = sharded_get_view [OF assms g]
  have cap: "sc_capacity cache = sc_capacity (hn_cache h)" using g by (auto simp: sharded_get_def)
  show ?thesis
    by (rule that [OF v(1) v(3) cap]) (simp add: on_get_def Let_def g v(2) split: option.split)
qed

lemma dispatch_inv:
  assumes "handler_inv h" "dispatch m env now body h = (rb, h')"
  shows "handler_inv h' \<and> es_config (hn_policy h') = es_config (hn_policy h)
    \<and> hn_requests h' = hn_requests h \<and> hn_scoring h' = hn_scoring h \<and> hn_privacy h' = hn_privacy h"
proof (cases body)
  case (GetItem iid)
  then have g: "on_get iid h = (rb, h')" using assms(2) by (simp add: dispatch_def)
  show ?thesis
    by (rule on_get_cases [of h iid]) (use assms(1) g in \<open>auto simp: handler_inv_def split: option.splits\<close>)
next
  case (DeleteItem iid)
  obtain r cache where e: "sharded_erase iid (hn_cache h) = (r, cache)" by fastforce
  then show ?thesis using assms DeleteItem sharded_erase_view(1) [of "hn_cache h" iid r cache]
    by (auto simp: dispatch_def on_delete_def handler_inv_def)
next
  case (RecommendBody req)
  then have r: "on_recommend m now req h = (rb, h')" using assms(2) by (simp add: dispatch_def)
  have "es_inv (hn_policy h)" using assms(1) by (simp add: handler_inv_def)
  note p = on_recommend_policy(1) [OF this r]
  show ?thesis
    by (cases rule: on_recommend_cases [of m now req h])
      (use r p assms(1) in \<open>auto simp: handler_inv_def\<close>)
qed (use assms sharded_put_view(1) in \<open>auto simp: dispatch_def on_put_def handler_inv_def Let_def split: if_splits\<close>)

lemma dispatch_served:
  assumes "handler_inv h" "dispatch m env now body h = (rb, h')"
    and "\<not> fail_open_when_full (es_config (hn_policy h))" "0 < exposure_cap (es_config (hn_policy h))"
  shows "shows_in (es_shard_for j (hn_policy h')) j
       = shows_in (es_shard_for j (hn_policy h)) j + served j body rb"
proof (cases body)
  case (RecommendBody req)
  then show ?thesis
    using on_recommend_policy(2) [of h m now req rb h' j] assms by (simp add: dispatch_def handler_inv_def)
next
  case (GetItem iid)
  then have g: "on_get iid h = (rb, h')" using assms(2) by (simp add: dispatch_def)
  then show ?thesis using GetItem by (auto simp: on_get_def Let_def split: option.splits prod.splits)
qed (use assms(2) in \<open>auto simp: dispatch_def on_put_def on_delete_def Let_def split: if_splits prod.splits\<close>)

lemma handle_dispatch:
  assumes "handle m env now req h = (resp, h')"
  shows "dispatch m env now (req_body req) (h\<lparr>hn_requests := hn_requests h + 1\<rparr>) = (resp_body resp, h')"
    "response_id resp = request_id req"
  using assms by (auto simp: handle_def Let_def split: prod.splits)

lemma handle_inv:
  assumes "handler_inv h" "handle m env now req h = (resp, h')"
  shows "handler_inv h'" "es_config (hn_policy h') = es_config (hn_policy h)"
    "hn_requests h' = hn_requests h + 1" "hn_scoring h' = hn_scoring h" "hn_privacy h' = hn_privacy h"
proof -
  have "handler_inv (h\<lparr>hn_requests := hn_requests h + 1\<rparr>)" using assms(1) by (simp add: handler_inv_def)
  from dispatch_inv [OF this handle_dispatch(1) [OF assms(2)]]
  show "handler_inv h'" "es_config (hn_policy h') = es_config (hn_policy h)"
    "hn_requests h' = hn_requests h + 1" "hn_scoring h' = hn_scoring h" "hn_privacy h' = hn_privacy h" by simp_all
qed

text \<open>A run of the daemon: each request with the clock reading of its call.\<close>

definition handle_all ::
  "libm \<Rightarrow> noise_env \<Rightarrow> (Timestamp \<times> Request) list \<Rightarrow> Handler \<Rightarrow> Response list \<times> Handler" where
  "handle_all m env = run_ops (\<lambda>(now, req). handle m env now req)"

lemma handle_all_inv:
  assumes "handler_inv h"
  shows "handler_inv (snd (handle_all m env reqs h))
       \<and> es_config (hn_policy (snd (handle_all m env reqs h))) = es_config (hn_policy h)"
  unfolding handle_all_def
proof (rule run_ops_invariant [where P = "\<lambda>h'. handler_inv h' \<and> es_config (hn_policy h') = es_config (hn_policy h)"])
  fix x h' assume "handler_inv h' \<and> es_config (hn_policy h') = es_config (hn_policy h)"
  then show "handler_inv (snd ((case x of (now, req) \<Rightarrow> handle m env now req) h'))
      \<and> es_config (hn_policy (snd ((case x of (now, req) \<Rightarrow> handle m env now req) h'))) = es_config (hn_policy h)"
    using handle_inv(1,2) [of h' m env "fst x" "snd x" "fst (handle m env (fst x) (snd x) h')"
        "snd (handle m env (fst x) (snd x) h')"] by (simp add: case_prod_beta)
qed (use assms in simp)

definition total_served :: "ItemId \<Rightarrow> (Timestamp \<times> Request) list \<Rightarrow> Response list \<Rightarrow> nat" where
  "total_served j reqs resps =
     (\<Sum>((now, req), resp) \<leftarrow> zip reqs resps. served j (req_body req) (resp_body resp))"

lemma handle_all_served:
  assumes "handler_inv h" "\<not> fail_open_when_full (es_config (hn_policy h))" "0 < exposure_cap (es_config (hn_policy h))"
    and "handle_all m env reqs h = (resps, h')"
  shows "shows_in (es_shard_for j (hn_policy h')) j
       = shows_in (es_shard_for j (hn_policy h)) j + total_served j reqs resps"
  using assms
proof (induction reqs arbitrary: h resps)
  case (Cons x reqs)
  obtain now req where x: "x = (now, req)" by fastforce
  obtain resp h1 where 1: "handle m env now req h = (resp, h1)" by fastforce
  obtain rs where 2: "handle_all m env reqs h1 = (rs, h')" "resps = resp # rs"
    using Cons.prems(4) 1 x by (auto simp: handle_all_def split: prod.splits)
  note i = handle_inv(1,2) [OF Cons.prems(1) 1]
  have "shows_in (es_shard_for j (hn_policy h1)) j
      = shows_in (es_shard_for j (hn_policy h)) j + served j (req_body req) (resp_body resp)"
    using dispatch_served [OF _ handle_dispatch(1) [OF 1], of j] Cons.prems(1-3) by (simp add: handler_inv_def)
  then show ?case using Cons.IH [OF i(1) _ _ 2(1)] Cons.prems(2,3) i(2) 2(2) x by (simp add: total_served_def)
qed (simp add: handle_all_def total_served_def)

subsection \<open>The inventory\<close>

lemma unat_ucast_u32: "unat (ucast (w :: u32) :: u64) = unat w"
  using unsigned_less [of w, where ?'a = nat] by (simp add: unsigned_ucast_eq take_bit_nat_eq_self)

text \<open>What the cache holds changes only by a put that was accepted, a delete or an eviction.\<close>

lemma dispatch_items:
  assumes "sharded_inv (hn_cache h)" "dispatch m env now body h = (rb, h')"
    and "sharded_peek k (hn_cache h') = Some v"
  shows "sharded_peek k (hn_cache h) = Some v \<or> body = PutItem v \<and> k = item_id v \<and> k \<noteq> 0 \<and> category v \<noteq> []"
proof (cases body)
  case (GetItem iid)
  then have g: "on_get iid h = (rb, h')" using assms(2) by (simp add: dispatch_def)
  show ?thesis
    by (rule on_get_cases [OF assms(1), of iid]) (use g assms(3) in \<open>auto split: option.splits\<close>)
next
  case (PutItem item)
  show ?thesis
  proof (cases "item_id item = 0 \<or> category item = []")
    case True
    then have "hn_cache h' = hn_cache h"
      using assms(2) PutItem by (auto simp: dispatch_def on_put_def Let_def split: if_splits)
    then show ?thesis using assms(3) by simp
  next
    case False
    then have c: "hn_cache h' = sharded_put (item_id item) item (hn_cache h)"
      using assms(2) PutItem by (auto simp: dispatch_def on_put_def Let_def)
    show ?thesis
      using assms(3) sharded_put_view(2) [OF assms(1), of "item_id item" item]
        sharded_put_view(3) [OF assms(1), of k "item_id item" item v] False PutItem
      unfolding c by (cases "k = item_id item") auto
  qed
next
  case (DeleteItem iid)
  obtain r cache where e: "sharded_erase iid (hn_cache h) = (r, cache)" by fastforce
  then show ?thesis using assms DeleteItem sharded_erase_view(2) [of "hn_cache h" iid r cache k]
    by (auto simp: dispatch_def on_delete_def split: if_splits)
next
  case GetStats
  then show ?thesis using assms by (simp add: dispatch_def)
next
  case (RecommendBody req)
  show ?thesis
    by (cases rule: on_recommend_cases [of m now req h])
      (use RecommendBody assms(2,3) in \<open>auto simp: dispatch_def\<close>)
qed

definition handler_ok :: "Handler \<Rightarrow> bool" where
  "handler_ok h \<longleftrightarrow> handler_inv h
     \<and> (\<forall>k v. sharded_peek k (hn_cache h) = Some v \<longrightarrow> item_id v = k \<and> k \<noteq> 0 \<and> category v \<noteq> [])"

lemma handle_ok:
  assumes "handler_ok h" "handle m env now req h = (resp, h')"
  shows "handler_ok h'"
proof -
  have h: "handler_inv h" "sharded_inv (hn_cache h)" using assms(1) by (auto simp: handler_ok_def handler_inv_def)
  note d = handle_dispatch(1) [OF assms(2)]
  have "item_id v = k \<and> k \<noteq> 0 \<and> category v \<noteq> []" if "sharded_peek k (hn_cache h') = Some v" for k v
    using dispatch_items [OF _ d that] h(2) assms(1) by (auto simp: handler_ok_def)
  then show ?thesis using handle_inv(1) [OF h(1) assms(2)] by (simp add: handler_ok_def)
qed

lemma handle_all_ok:
  assumes "handler_ok h"
  shows "handler_ok (snd (handle_all m env reqs h))"
  unfolding handle_all_def
proof (rule run_ops_invariant)
  fix x h' assume "handler_ok h'"
  then show "handler_ok (snd ((case x of (now, req) \<Rightarrow> handle m env now req) h'))"
    using handle_ok [of h' m env "fst x" "snd x" "fst (handle m env (fst x) (snd x) h')"
        "snd (handle m env (fst x) (snd x) h')"] by (simp add: case_prod_beta)
qed (rule assms)

lemma handler_make_ok:
  "handler_make hasher env capacity n scoring policy privacy = Inr h \<Longrightarrow> handler_ok h"
  using handler_make_inv(1,5) by (auto simp: handler_ok_def)

lemma inventory_facts:
  assumes "handler_ok h"
  shows "distinct (map item_id (inventory (hn_cache h)))"
    "item \<in> set (inventory (hn_cache h)) \<longleftrightarrow> sharded_peek (item_id item) (hn_cache h) = Some item"
proof -
  have i: "sharded_inv (hn_cache h)" using assms by (simp add: handler_ok_def handler_inv_def)
  note e = all_entries_facts [OF i]
  have inv: "inventory (hn_cache h) = map snd (all_entries (hn_cache h))"
    by (simp add: inventory_def all_entries_def map_concat comp_def)
  have key: "item_id (snd p) = fst p" if "p \<in> set (all_entries (hn_cache h))" for p
    using e(2) [of "fst p" "snd p"] that assms by (simp add: handler_ok_def)
  then have "map item_id (inventory (hn_cache h)) = map fst (all_entries (hn_cache h))"
    unfolding inv by simp
  then show "distinct (map item_id (inventory (hn_cache h)))" using e(1) by simp
  show "item \<in> set (inventory (hn_cache h)) \<longleftrightarrow> sharded_peek (item_id item) (hn_cache h) = Some item"
  proof
    assume "item \<in> set (inventory (hn_cache h))"
    then obtain p where "p \<in> set (all_entries (hn_cache h))" "item = snd p" unfolding inv by auto
    then show "sharded_peek (item_id item) (hn_cache h) = Some item"
      using key [of p] e(2) [of "fst p" "snd p"] by simp
  next
    assume "sharded_peek (item_id item) (hn_cache h) = Some item"
    then have "(item_id item, item) \<in> set (all_entries (hn_cache h))" using e(2) by simp
    then show "item \<in> set (inventory (hn_cache h))" unfolding inv by force
  qed
qed

subsection \<open>Properties\<close>

text \<open>
  C1. The exposure cap holds for the daemon: with a fail-closed policy and a cap, over any sequence of
  requests, deletions and republications of the item included, the slates of the live
  recommendations contain an item at most as often as the cap allows.
\<close>

theorem served_within_exposure_cap:
  assumes "handler_make hasher env capacity n scoring policy privacy = Inr h"
    and "\<not> fail_open_when_full policy" "0 < exposure_cap policy"
    and "handle_all m env reqs h = (resps, h')"
  shows "total_served j reqs resps \<le> unat (exposure_cap policy)"
proof -
  note k = handler_make_inv [OF assms(1)]
  have "shows_in (es_shard_for j (hn_policy h')) j = total_served j reqs resps"
    using handle_all_served [OF k(1) _ _ assms(4), of j] k(2,4) assms(2,3) by simp
  moreover have i: "es_inv (hn_policy h')" "es_config (hn_policy h') = policy"
    using handle_all_inv [OF k(1), of m env reqs] assms(4) k(2) by (simp_all add: handler_inv_def)
  ultimately show ?thesis
    using shows_in_le [OF es_shard_for_ok [OF i(1)], of j j] assms(3) i(2) by simp
qed

text \<open>
  C23. A dry run leaves no trace: it changes nothing but the two request counters, so neither the
  policy state nor the recency order of the cache moves.
\<close>

theorem dry_run_changes_nothing:
  assumes "rec_dry_run req"
  shows "snd (handle m env now \<lparr>request_id = rid, req_body = RecommendBody req\<rparr> h)
       = h\<lparr>hn_requests := hn_requests h + 1, hn_recommends := hn_recommends h + 1\<rparr>"
proof -
  let ?h = "h\<lparr>hn_requests := hn_requests h + 1\<rparr>"
  show ?thesis
  proof (cases rule: on_recommend_cases [of m now req ?h])
    case refused
    then show ?thesis by (simp add: handle_def dispatch_def)
  next
    case (slate chosen store)
    let ?sel = "scan m (inventory (hn_cache ?h)) (selector_make (hn_scoring ?h) (rec_signal req) now (ucast (rec_count req)))"
    obtain ids answers where "run_ops (accept_dry now) ids (hn_policy ?h) = (answers, store)"
      by (rule select_calls [of "accept_dry now" "hn_policy ?h" m ?sel]) (use slate(2) assms in simp)
    then have "store = hn_policy h" using run_dry [of now ids "hn_policy h"] by simp
    then show ?thesis using slate(1) by (simp add: handle_def dispatch_def)
  qed
qed

text \<open>
  C19. A slate is a legal answer in every reachable state: at most count items, no item twice, and
  each of them is in the cache at that moment, switched on, not expired and not of an excluded
  category.
\<close>

theorem slate_is_legal:
  assumes "handler_make hasher env capacity n scoring policy privacy = Inr h0"
    and "h = snd (handle_all m env reqs h0)"
    and "fst (on_recommend m now req h) = RecommendResult status items"
  shows "length items \<le> unat (rec_count req) \<and> distinct (map ri_id items)
    \<and> rshape ` set items \<subseteq> (\<lambda>item. (item_id item, category item, advertiser item)) `
        {item. sharded_peek (item_id item) (hn_cache h) = Some item \<and> \<not> base_score item \<le> 0
             \<and> (never_expires item \<or> sint now < sint (expires_at item))
             \<and> \<not> excludes (rec_signal req) (category item)}"
proof -
  have ok: "handler_ok h" using handle_all_ok [OF handler_make_ok [OF assms(1)]] assms(2) by simp
  note inv = inventory_facts [OF ok]
  show ?thesis
  proof (cases rule: on_recommend_cases [of m now req h])
    case refused
    then show ?thesis using assms(3) by simp
  next
    case (slate chosen store)
    then have items: "items = chosen" using assms(3) by simp
    let ?accept = "if rec_dry_run req then accept_dry now else accept_live now"
    let ?sel = "scan m (inventory (hn_cache h)) (selector_make (hn_scoring h) (rec_signal req) now (ucast (rec_count req)))"
    have c: "chosen = fst (select m ?sel (Some ?accept) (hn_policy h))" using slate(2) by simp
    have "length chosen \<le> unat (rec_count req)"
    proof (rule select_calls [of ?accept "hn_policy h" m ?sel])
      assume "length (fst (select m ?sel (Some ?accept) (hn_policy h))) \<le> unat (sel_count ?sel)"
      then show ?thesis by (simp add: c unat_ucast_u32)
    qed
    moreover have "distinct (map ri_id chosen)" unfolding c by (rule slate_distinct [OF inv(1)])
    moreover have "rshape ` set chosen \<subseteq> (\<lambda>item. (item_id item, category item, advertiser item)) `
        {item. sharded_peek (item_id item) (hn_cache h) = Some item \<and> \<not> base_score item \<le> 0
             \<and> (never_expires item \<or> sint now < sint (expires_at item))
             \<and> \<not> excludes (rec_signal req) (category item)}"
      unfolding c by (rule order_trans [OF slate_subset]) (use inv(2) in blast)
    ultimately show ?thesis by (simp add: items)
  qed
qed

text \<open>
  An accepted put is read back: in every reachable state, putting an item with an id and a
  category succeeds, and the next get of that id returns exactly that item.
\<close>

lemma put_then_get:
  assumes "handler_make hasher env capacity n scoring policy privacy = Inr h0"
    and "h = snd (handle_all m env reqs h0)"
    and "item_id item \<noteq> 0" "category item \<noteq> []"
    and "handle m env t1 \<lparr>request_id = r1, req_body = PutItem item\<rparr> h = (resp1, h1)"
    and "handle m env t2 \<lparr>request_id = r2, req_body = GetItem (item_id item)\<rparr> h1 = (resp2, h2)"
  shows "resp1 = \<lparr>response_id = r1, resp_body = PutItemResult Ok\<rparr>
       \<and> resp2 = \<lparr>response_id = r2, resp_body = GetItemResult Ok item\<rparr>"
proof -
  have ok: "handler_ok h" using handle_all_ok [OF handler_make_ok [OF assms(1)]] assms(2) by simp
  then have i: "sharded_inv (hn_cache h)" by (simp add: handler_ok_def handler_inv_def)
  have 1: "resp1 = \<lparr>response_id = r1, resp_body = PutItemResult Ok\<rparr>"
      "hn_cache h1 = sharded_put (item_id item) item (hn_cache h)"
    using assms(3-5) by (auto simp: handle_def dispatch_def on_put_def Let_def)
  let ?h = "h1\<lparr>hn_requests := hn_requests h1 + 1\<rparr>"
  have "sharded_inv (hn_cache ?h)" "sharded_peek (item_id item) (hn_cache ?h) = Some item"
    using sharded_put_view(1,2) [OF i] 1(2) by simp_all
  then have "fst (on_get (item_id item) ?h) = GetItemResult Ok item"
    by (cases rule: on_get_cases [of ?h "item_id item"]) simp_all
  then have "resp_body resp2 = GetItemResult Ok item"
    using handle_dispatch(1) [OF assms(6)] by (simp add: dispatch_def)
  moreover have "response_id resp2 = r2" using handle_dispatch(2) [OF assms(6)] by simp
  ultimately show ?thesis using 1(1) by simp
qed

text \<open>
  C25. Every request is answered in kind: the response carries the id of its request, and its type is
  the response type of the request or an error.
\<close>

theorem response_matches_request:
  "response_id (fst (handle m env now req h)) = request_id req
   \<and> type_byte (type_of_response (resp_body (fst (handle m env now req h))))
       \<in> {type_byte (type_of_request (req_body req)) OR kResponseBit, type_byte ErrorResponse}"
proof -
  obtain resp h' where h: "handle m env now req h = (resp, h')" by fastforce
  let ?h = "h\<lparr>hn_requests := hn_requests h + 1\<rparr>"
  have rb: "resp_body resp = fst (dispatch m env now (req_body req) ?h)"
    using handle_dispatch(1) [OF h] by simp
  have "type_byte (type_of_response (resp_body resp))
      \<in> {type_byte (type_of_request (req_body req)) OR kResponseBit, type_byte ErrorResponse}"
  proof (cases "req_body req")
    case (RecommendBody r)
    show ?thesis
      by (cases rule: on_recommend_cases [of m now r ?h])
        (simp_all add: rb RecommendBody dispatch_def kResponseBit_def)
  qed (simp_all add: rb dispatch_def on_get_def on_put_def on_delete_def on_stats_def kResponseBit_def
      Let_def case_prod_beta split: option.split)
  then show ?thesis using h handle_dispatch(2) [OF h] by simp
qed

lemma handle_all_requests:
  "handler_inv h \<Longrightarrow> hn_requests (snd (handle_all m env reqs h)) = hn_requests h + of_nat (length reqs)
     \<and> hn_privacy (snd (handle_all m env reqs h)) = hn_privacy h"
proof (induction reqs arbitrary: h)
  case (Cons x reqs)
  obtain now req where x: "x = (now, req)" by fastforce
  obtain resp h1 where 1: "handle m env now req h = (resp, h1)" by fastforce
  note i = handle_inv [OF Cons.prems 1]
  have "snd (handle_all m env (x # reqs) h) = snd (handle_all m env reqs h1)"
    using 1 x by (simp add: handle_all_def split: prod.splits)
  then show ?case using Cons.IH [OF i(1)] i(3,5) by (simp add: algebra_simps)
qed (simp add: handle_all_def)


subsection \<open>Instances\<close>

definition demo_handler :: Handler where
  "demo_handler =
     projr (handler_make (\<lambda>i. i) demo_env 4 2 demo_scoring demo_config default_privacy)"

definition demo_recommend :: Recommend where
  "demo_recommend = \<lparr>rec_signal = demo_signal, rec_count = 2, rec_dry_run = False\<rparr>"

definition demo_requests :: "(Timestamp \<times> Request) list" where
  "demo_requests =
     [(5, \<lparr>request_id = 1, req_body = PutItem (demo_item 7)\<rparr>),
      (5, \<lparr>request_id = 2, req_body = RecommendBody demo_recommend\<rparr>),
      (6, \<lparr>request_id = 3, req_body = DeleteItem 7\<rparr>),
      (7, \<lparr>request_id = 4, req_body = PutItem (demo_item 7)\<rparr>)]"

lemma has_single_bit_2: "has_single_bit 2"
  by code_simp

lemma demo_handler_made:
  "handler_make (\<lambda>i. i) demo_env 4 2 demo_scoring demo_config default_privacy = Inr demo_handler"
proof -
  have "\<exists>c :: (ItemId, Item) ShardedCache. sharded_make (\<lambda>i. i) 4 2 = Inr c"
    by (simp add: sharded_make_def has_single_bit_2 locked_make_def lru_make_def)
  moreover have "\<exists>st. es_make demo_config 2 = Inr st" by (simp add: es_make_def demo_config_def has_single_bit_2)
  moreover have "\<exists>c. noisy_counters demo_env default_privacy = Inr c"
    by (simp add: noisy_counters_def default_privacy_def)
  ultimately have "\<exists>h. handler_make (\<lambda>i. i) demo_env 4 2 demo_scoring demo_config default_privacy = Inr h"
    by (auto simp: handler_make_def)
  then show ?thesis by (auto simp: demo_handler_def)
qed

theorem served_within_exposure_cap_witness:
  "total_served 7 demo_requests (fst (handle_all demo_libm demo_env demo_requests demo_handler)) \<le> 2"
proof -
  obtain resps h' where r: "handle_all demo_libm demo_env demo_requests demo_handler = (resps, h')" by fastforce
  have "total_served 7 demo_requests resps \<le> unat (exposure_cap demo_config)"
    by (rule served_within_exposure_cap [OF demo_handler_made _ _ r]) (simp_all add: demo_config_def)
  then show ?thesis using r by (simp add: demo_config_def)
qed

theorem dry_run_changes_nothing_witness:
  "snd (handle demo_libm demo_env 5 \<lparr>request_id = 9, req_body = RecommendBody (demo_recommend\<lparr>rec_dry_run := True\<rparr>)\<rparr> demo_handler)
     = demo_handler\<lparr>hn_requests := hn_requests demo_handler + 1, hn_recommends := hn_recommends demo_handler + 1\<rparr>"
  by (rule dry_run_changes_nothing) simp

theorem slate_is_legal_witness:
  "let h = snd (handle_all demo_libm demo_env demo_requests demo_handler) in
   \<exists>items. fst (on_recommend demo_libm 8 demo_recommend h) = RecommendResult Ok items
    \<and> length items \<le> 2 \<and> distinct (map ri_id items)
    \<and> rshape ` set items \<subseteq> (\<lambda>item. (item_id item, category item, advertiser item)) `
        {item. sharded_peek (item_id item) (hn_cache h) = Some item \<and> \<not> base_score item \<le> 0
             \<and> (never_expires item \<or> sint (8 :: 64 word) < sint (expires_at item))
             \<and> \<not> excludes demo_signal (category item)}"
proof -
  let ?h = "snd (handle_all demo_libm demo_env demo_requests demo_handler)"
  obtain items where i: "fst (on_recommend demo_libm 8 demo_recommend ?h) = RecommendResult Ok items"
    by (cases rule: on_recommend_cases [of demo_libm 8 demo_recommend ?h])
      (auto simp: demo_recommend_def kMaxRecommendCount_def)
  from slate_is_legal [OF demo_handler_made refl i] show ?thesis
    using i by (auto simp: Let_def demo_recommend_def)
qed


end
