(* ===== verification/Protobuf_Codec.thy ===== *)
theory Protobuf_Codec
  imports Codec
begin

section \<open>The protobuf codec (proto/lrd.proto, src/proto/protobuf_codec.cpp)\<close>

text \<open>
  The message types of the schema and the translation between them and the daemon's own messages.
  The generated classes' \<open>SerializeToArray\<close> and \<open>ParseFromArray\<close> are not part of the repository:
  they are the fields of \<open>pb_runtime\<close>, a parameter of every definition that uses them. What the
  codec relies on is the documented round trip of the runtime, stated by \<open>carries\<close> for the one
  envelope at hand.

  A singular message field has presence, so it is an option, and its getter on an absent field
  returns the default instance. An enum field of proto3 is open: any 32-bit value may arrive.
\<close>

type_synonym pb_status = "32 word"

definition STATUS_OK :: pb_status where "STATUS_OK = 0"
definition STATUS_NOT_FOUND :: pb_status where "STATUS_NOT_FOUND = 1"
definition STATUS_INVALID_REQUEST :: pb_status where "STATUS_INVALID_REQUEST = 2"
definition STATUS_INTERNAL :: pb_status where "STATUS_INTERNAL = 3"

lemmas pb_status_defs = STATUS_OK_def STATUS_NOT_FOUND_def STATUS_INVALID_REQUEST_def STATUS_INTERNAL_def

record PbItem =
  pi_id :: u64
  pi_category :: bytes
  pi_advertiser :: bytes
  pi_base_score :: double
  pi_created_at_ms :: "64 word"
  pi_expires_at_ms :: "64 word"

record PbCategoryAffinity =
  pa_category :: bytes
  pa_weight :: double

record PbUserSignal =
  pu_affinities :: "PbCategoryAffinity list"
  pu_excluded_categories :: "bytes list"

record PbRankedItem =
  pr_id :: u64
  pr_score :: double
  pr_category :: bytes
  pr_advertiser :: bytes

record PbStats =
  ps_requests :: u64
  ps_gets :: u64
  ps_puts :: u64
  ps_deletes :: u64
  ps_recommends :: u64
  ps_hits :: u64
  ps_misses :: u64
  ps_evictions :: u64
  ps_entries :: u64
  ps_capacity :: u64
  ps_policy_allowed :: u64
  ps_policy_exposure_blocked :: u64
  ps_policy_frequency_blocked :: u64
  ps_policy_store_full :: u64
  ps_policy_tracked :: u64

record PbRecommendRequest =
  pq_signal :: "PbUserSignal option"
  pq_count :: u32
  pq_dry_run :: bool

datatype EnvelopeBody =
    BODY_NOT_SET
  | PbGetItemRequest u64
  | PbPutItemRequest "PbItem option"
  | PbDeleteItemRequest u64
  | PbStatsRequest
  | PbRecommendRequest PbRecommendRequest
  | PbGetItemResponse pb_status "PbItem option"
  | PbPutItemResponse pb_status
  | PbDeleteItemResponse pb_status
  | PbStatsResponse pb_status "PbStats option"
  | PbRecommendResponse pb_status "PbRankedItem list"
  | PbErrorResponse pb_status bytes

record Envelope =
  env_request_id :: u64
  env_body :: EnvelopeBody

text \<open>The default instances that getters of absent message fields return.\<close>

definition pb_default_item :: PbItem where
  "pb_default_item = \<lparr>pi_id = 0, pi_category = [], pi_advertiser = [], pi_base_score = 0,
     pi_created_at_ms = 0, pi_expires_at_ms = 0\<rparr>"

definition pb_default_signal :: PbUserSignal where
  "pb_default_signal = \<lparr>pu_affinities = [], pu_excluded_categories = []\<rparr>"

definition pb_default_stats :: PbStats where
  "pb_default_stats = \<lparr>ps_requests = 0, ps_gets = 0, ps_puts = 0, ps_deletes = 0, ps_recommends = 0,
     ps_hits = 0, ps_misses = 0, ps_evictions = 0, ps_entries = 0, ps_capacity = 0,
     ps_policy_allowed = 0, ps_policy_exposure_blocked = 0, ps_policy_frequency_blocked = 0,
     ps_policy_store_full = 0, ps_policy_tracked = 0\<rparr>"

definition or_default :: "'a \<Rightarrow> 'a option \<Rightarrow> 'a" where
  "or_default d x = (case x of None \<Rightarrow> d | Some v \<Rightarrow> v)"

text \<open>
  The protobuf runtime: the bytes \<open>SerializeToArray\<close> writes (\<open>ByteSizeLong\<close> many), and the outcome
  of \<open>ParseFromArray\<close> on a buffer and an \<open>int\<close> size.
\<close>

record pb_runtime =
  serialize :: "Envelope \<Rightarrow> bytes"
  parse_from_array :: "bytes \<Rightarrow> 32 word \<Rightarrow> Envelope option"

definition scratch_envelope :: Envelope where
  "scratch_envelope = \<lparr>env_request_id = 0, env_body = BODY_NOT_SET\<rparr>"

subsection \<open>Fields\<close>

definition to_wire_status :: "StatusCode \<Rightarrow> pb_status" where
  "to_wire_status status =
     (if status = Ok then STATUS_OK
      else if status = NotFound then STATUS_NOT_FOUND
      else if status = InvalidRequest then STATUS_INVALID_REQUEST
      else if status = Internal then STATUS_INTERNAL
      else STATUS_INTERNAL)"

definition from_wire_status :: "pb_status \<Rightarrow> StatusCode" where
  "from_wire_status status =
     (if status = STATUS_OK then Ok
      else if status = STATUS_NOT_FOUND then NotFound
      else if status = STATUS_INVALID_REQUEST then InvalidRequest
      else if status = STATUS_INTERNAL then Internal
      else Internal)"

definition item_to_wire :: "Item \<Rightarrow> PbItem" where
  "item_to_wire item =
     \<lparr>pi_id = item_id item,
      pi_category = category item,
      pi_advertiser = advertiser item,
      pi_base_score = base_score item,
      pi_created_at_ms = to_epoch_millis (created_at item),
      pi_expires_at_ms = to_epoch_millis (expires_at item)\<rparr>"

definition item_from_wire :: "PbItem \<Rightarrow> Item" where
  "item_from_wire i =
     \<lparr>item_id = pi_id i,
      category = pi_category i,
      advertiser = pi_advertiser i,
      base_score = pi_base_score i,
      created_at = from_epoch_millis (pi_created_at_ms i),
      expires_at = from_epoch_millis (pi_expires_at_ms i)\<rparr>"

definition signal_to_wire :: "UserSignal \<Rightarrow> PbUserSignal" where
  "signal_to_wire signal =
     \<lparr>pu_affinities =
        map (\<lambda>affinity. \<lparr>pa_category = ca_category affinity, pa_weight = ca_weight affinity\<rparr>) (affinities signal),
      pu_excluded_categories = excluded_categories signal\<rparr>"

text \<open>The two loops of \<open>from_wire\<close>: push back each entry, giving up at one that is too long.\<close>

fun affinities_from_wire :: "PbCategoryAffinity list \<Rightarrow> CategoryAffinity list \<Rightarrow> CategoryAffinity list option" where
  "affinities_from_wire [] out = Some out"
| "affinities_from_wire (entry # rest) out =
     (if unat kMaxCategoryLength < length (pa_category entry) then None
      else affinities_from_wire rest (out @ [\<lparr>ca_category = pa_category entry, ca_weight = pa_weight entry\<rparr>]))"

fun excluded_from_wire :: "bytes list \<Rightarrow> cstring list \<Rightarrow> cstring list option" where
  "excluded_from_wire [] out = Some out"
| "excluded_from_wire (cat # rest) out =
     (if unat kMaxCategoryLength < length cat then None else excluded_from_wire rest (out @ [cat]))"

definition signal_from_wire :: "PbUserSignal \<Rightarrow> UserSignal option" where
  "signal_from_wire i =
     (if unat kMaxAffinities < length (pu_affinities i) \<or>
         unat kMaxExcluded < length (pu_excluded_categories i) then None
      else case affinities_from_wire (pu_affinities i) [] of
        None \<Rightarrow> None
      | Some affs \<Rightarrow>
          (case excluded_from_wire (pu_excluded_categories i) [] of
             None \<Rightarrow> None
           | Some excl \<Rightarrow> Some \<lparr>affinities = affs, excluded_categories = excl\<rparr>))"

definition append_serialized :: "pb_runtime \<Rightarrow> Envelope \<Rightarrow> bytes \<Rightarrow> bytes" where
  "append_serialized rt envelope out = out @ serialize rt envelope"

definition parse :: "pb_runtime \<Rightarrow> bytes \<Rightarrow> Envelope option" where
  "parse rt body = parse_from_array rt body (word_of_nat (length body))"

subsection \<open>Encoding\<close>

definition request_envelope :: "Request \<Rightarrow> Envelope" where
  "request_envelope request =
     (let envelope = scratch_envelope\<lparr>env_request_id := request_id request\<rparr>
      in case req_body request of
           GetItem i \<Rightarrow> envelope\<lparr>env_body := PbGetItemRequest i\<rparr>
         | PutItem item \<Rightarrow> envelope\<lparr>env_body := PbPutItemRequest (Some (item_to_wire item))\<rparr>
         | DeleteItem i \<Rightarrow> envelope\<lparr>env_body := PbDeleteItemRequest i\<rparr>
         | GetStats \<Rightarrow> envelope\<lparr>env_body := PbStatsRequest\<rparr>
         | RecommendBody r \<Rightarrow> envelope\<lparr>env_body := PbRecommendRequest
             \<lparr>pq_signal = Some (signal_to_wire (rec_signal r)),
              pq_count = rec_count r,
              pq_dry_run = rec_dry_run r\<rparr>\<rparr>)"

definition pb_encode_request :: "pb_runtime \<Rightarrow> Request \<Rightarrow> bytes \<Rightarrow> bytes" where
  "pb_encode_request rt request out = append_serialized rt (request_envelope request) out"

definition stats_to_wire :: "Stats \<Rightarrow> PbStats" where
  "stats_to_wire s =
     \<lparr>ps_requests = st_requests s, ps_gets = st_gets s, ps_puts = st_puts s, ps_deletes = st_deletes s,
      ps_recommends = st_recommends s, ps_hits = st_hits s, ps_misses = st_misses s,
      ps_evictions = st_evictions s, ps_entries = st_entries s, ps_capacity = st_capacity s,
      ps_policy_allowed = st_policy_allowed s,
      ps_policy_exposure_blocked = st_policy_exposure_blocked s,
      ps_policy_frequency_blocked = st_policy_frequency_blocked s,
      ps_policy_store_full = st_policy_store_full s,
      ps_policy_tracked = st_policy_tracked s\<rparr>"

definition ranked_to_wire :: "RankedItem \<Rightarrow> PbRankedItem" where
  "ranked_to_wire r =
     \<lparr>pr_id = ri_id r, pr_score = ri_score r, pr_category = ri_category r, pr_advertiser = ri_advertiser r\<rparr>"

definition response_envelope :: "Response \<Rightarrow> Envelope" where
  "response_envelope response =
     (let envelope = scratch_envelope\<lparr>env_request_id := response_id response\<rparr>
      in case resp_body response of
           GetItemResult status item \<Rightarrow> envelope\<lparr>env_body := PbGetItemResponse (to_wire_status status)
             (if status = Ok then Some (item_to_wire item) else None)\<rparr>
         | PutItemResult status \<Rightarrow> envelope\<lparr>env_body := PbPutItemResponse (to_wire_status status)\<rparr>
         | DeleteItemResult status \<Rightarrow> envelope\<lparr>env_body := PbDeleteItemResponse (to_wire_status status)\<rparr>
         | StatsResult status stats \<Rightarrow> envelope\<lparr>env_body :=
             PbStatsResponse (to_wire_status status) (Some (stats_to_wire stats))\<rparr>
         | RecommendResult status items \<Rightarrow> envelope\<lparr>env_body :=
             PbRecommendResponse (to_wire_status status) (map ranked_to_wire items)\<rparr>
         | Failure status message \<Rightarrow> envelope\<lparr>env_body := PbErrorResponse (to_wire_status status) message\<rparr>)"

definition pb_encode_response :: "pb_runtime \<Rightarrow> Response \<Rightarrow> bytes \<Rightarrow> bytes" where
  "pb_encode_response rt response out = append_serialized rt (response_envelope response) out"

subsection \<open>Decoding\<close>

text \<open>
  \<open>decode\<close> after a successful \<open>parse\<close>: the output parameter is reset and its id set before the
  body is looked at, so an error leaves those behind.
\<close>

definition request_of_envelope :: "Envelope \<Rightarrow> DecodeError \<times> Request" where
  "request_of_envelope envelope =
     (let out = default_request\<lparr>request_id := env_request_id envelope\<rparr>
      in case env_body envelope of
           PbGetItemRequest i \<Rightarrow> (NoError, out\<lparr>req_body := GetItem i\<rparr>)
         | PbDeleteItemRequest i \<Rightarrow> (NoError, out\<lparr>req_body := DeleteItem i\<rparr>)
         | PbPutItemRequest it \<Rightarrow>
             (let item = item_from_wire (or_default pb_default_item it)
              in if \<not> item_within_limits item then (FieldTooLarge, out)
                 else (NoError, out\<lparr>req_body := PutItem item\<rparr>))
         | PbStatsRequest \<Rightarrow> (NoError, out\<lparr>req_body := GetStats\<rparr>)
         | PbRecommendRequest i \<Rightarrow>
             (case signal_from_wire (or_default pb_default_signal (pq_signal i)) of
                None \<Rightarrow> (FieldTooLarge, out)
              | Some signal \<Rightarrow>
                  (let recommend = \<lparr>rec_signal = signal, rec_count = pq_count i, rec_dry_run = pq_dry_run i\<rparr>
                   in if kMaxRecommendCount < rec_count recommend then (FieldTooLarge, out)
                      else (NoError, out\<lparr>req_body := RecommendBody recommend\<rparr>)))
         | BODY_NOT_SET \<Rightarrow> (UnknownType, out)
         | _ \<Rightarrow> (WrongDirection, out))"

definition pb_decode_request :: "pb_runtime \<Rightarrow> bytes \<Rightarrow> Request \<Rightarrow> DecodeError \<times> Request" where
  "pb_decode_request rt body out =
     (case parse rt body of None \<Rightarrow> (Truncated, out) | Some envelope \<Rightarrow> request_of_envelope envelope)"

definition stats_from_wire :: "PbStats \<Rightarrow> Stats" where
  "stats_from_wire s =
     \<lparr>st_requests = ps_requests s, st_gets = ps_gets s, st_puts = ps_puts s, st_deletes = ps_deletes s,
      st_recommends = ps_recommends s, st_hits = ps_hits s, st_misses = ps_misses s,
      st_evictions = ps_evictions s, st_entries = ps_entries s, st_capacity = ps_capacity s,
      st_policy_allowed = ps_policy_allowed s,
      st_policy_exposure_blocked = ps_policy_exposure_blocked s,
      st_policy_frequency_blocked = ps_policy_frequency_blocked s,
      st_policy_store_full = ps_policy_store_full s,
      st_policy_tracked = ps_policy_tracked s\<rparr>"

definition ranked_from_wire :: "PbRankedItem \<Rightarrow> RankedItem" where
  "ranked_from_wire r =
     \<lparr>ri_id = pr_id r, ri_score = pr_score r, ri_category = pr_category r, ri_advertiser = pr_advertiser r\<rparr>"

definition response_of_envelope :: "Envelope \<Rightarrow> DecodeError \<times> Response" where
  "response_of_envelope envelope =
     (let out = default_response\<lparr>response_id := env_request_id envelope\<rparr>
      in case env_body envelope of
           PbGetItemResponse st it \<Rightarrow>
             (let status = from_wire_status st;
                  item = (if status = Ok then item_from_wire (or_default pb_default_item it) else default_item)
              in if status = Ok \<and> \<not> item_within_limits item then (FieldTooLarge, out)
                 else (NoError, out\<lparr>resp_body := GetItemResult status item\<rparr>))
         | PbPutItemResponse st \<Rightarrow> (NoError, out\<lparr>resp_body := PutItemResult (from_wire_status st)\<rparr>)
         | PbDeleteItemResponse st \<Rightarrow> (NoError, out\<lparr>resp_body := DeleteItemResult (from_wire_status st)\<rparr>)
         | PbStatsResponse st stats \<Rightarrow>
             (NoError, out\<lparr>resp_body := StatsResult (from_wire_status st)
                (stats_from_wire (or_default pb_default_stats stats))\<rparr>)
         | PbRecommendResponse st items \<Rightarrow>
             (if unat kMaxRecommendCount < length items then (FieldTooLarge, out)
              else (NoError, out\<lparr>resp_body := RecommendResult (from_wire_status st) (map ranked_from_wire items)\<rparr>))
         | PbErrorResponse st message \<Rightarrow>
             (if unat kMaxMessageLength < length message then (FieldTooLarge, out)
              else (NoError, out\<lparr>resp_body := Failure (from_wire_status st) message\<rparr>))
         | BODY_NOT_SET \<Rightarrow> (UnknownType, out)
         | _ \<Rightarrow> (WrongDirection, out))"

definition pb_decode_response :: "pb_runtime \<Rightarrow> bytes \<Rightarrow> Response \<Rightarrow> DecodeError \<times> Response" where
  "pb_decode_response rt body out =
     (case parse rt body of None \<Rightarrow> (Truncated, out) | Some envelope \<Rightarrow> response_of_envelope envelope)"

subsection \<open>The codec seam (include/lrd/proto/codec.hpp)\<close>

text \<open>The virtual functions of \<open>Codec\<close>, and the two implementations of them.\<close>

record codec =
  codec_name :: cstring
  enc_request :: "Request \<Rightarrow> bytes \<Rightarrow> bytes"
  enc_response :: "Response \<Rightarrow> bytes \<Rightarrow> bytes"
  dec_request :: "bytes \<Rightarrow> Request \<Rightarrow> DecodeError \<times> Request"
  dec_response :: "bytes \<Rightarrow> Response \<Rightarrow> DecodeError \<times> Response"

definition BinaryCodec :: codec where
  "BinaryCodec = \<lparr>codec_name = lit ''binary/v1'', enc_request = encode_request, enc_response = encode_response,
     dec_request = decode_request, dec_response = decode_response\<rparr>"

definition ProtobufCodec :: "pb_runtime \<Rightarrow> codec" where
  "ProtobufCodec rt = \<lparr>codec_name = lit ''protobuf/v1'', enc_request = pb_encode_request rt,
     enc_response = pb_encode_response rt, dec_request = pb_decode_request rt, dec_response = pb_decode_response rt\<rparr>"

text \<open>A build has the protobuf runtime (\<open>LRD_WITH_PROTOBUF\<close>) or it does not.\<close>

definition make_codec :: "pb_runtime option \<Rightarrow> cstring \<Rightarrow> codec option" where
  "make_codec build name =
     (if name = lit ''binary'' \<or> name = lit ''binary/v3'' then Some BinaryCodec
      else case build of
        Some rt \<Rightarrow> if name = lit ''protobuf'' \<or> name = lit ''protobuf/v3'' then Some (ProtobufCodec rt) else None
      | None \<Rightarrow> None)"

definition available_codecs :: "pb_runtime option \<Rightarrow> cstring" where
  "available_codecs build =
     (case build of Some rt \<Rightarrow> lit ''binary, protobuf''
      | None \<Rightarrow> lit ''binary (this build has no protobuf support)'')"

text \<open>
  A codec's own name is not one that the factory accepts: \<open>name()\<close> still says version 1 while
  \<open>make_codec\<close> takes version 3.
\<close>

lemma own_name_not_accepted:
  "make_codec build (codec_name BinaryCodec) = None" "make_codec build (codec_name (ProtobufCodec rt)) = None"
  by (simp_all add: make_codec_def BinaryCodec_def ProtobufCodec_def lit_def split: option.splits)

subsection \<open>What the codec relies on\<close>

text \<open>The runtime parses its own serialisation of this envelope back to it.\<close>

definition carries :: "pb_runtime \<Rightarrow> Envelope \<Rightarrow> bool" where
  "carries rt envelope \<longleftrightarrow>
     parse_from_array rt (serialize rt envelope) (word_of_nat (length (serialize rt envelope))) = Some envelope"

text \<open>
  The statuses the schema names. The binary codec carries every byte; this one maps every other
  byte to \<open>Internal\<close>.
\<close>

definition known_status :: "StatusCode \<Rightarrow> bool" where
  "known_status s \<longleftrightarrow> s \<in> {Ok, NotFound, InvalidRequest, Internal}"

lemma status_round_trip [simp]: "known_status s \<Longrightarrow> from_wire_status (to_wire_status s) = s"
  by (auto simp: known_status_def from_wire_status_def to_wire_status_def status_defs pb_status_defs)

lemma from_wire_status_known: "known_status (from_wire_status s)"
  by (simp add: known_status_def from_wire_status_def)

lemma to_wire_status_closed:
  "from_wire_status (to_wire_status s) = (if known_status s then s else Internal)"
  by (auto simp: known_status_def from_wire_status_def to_wire_status_def status_defs pb_status_defs)

lemma item_round_trip [simp]: "item_from_wire (item_to_wire it) = it"
  by (simp add: item_from_wire_def item_to_wire_def from_epoch_millis_def to_epoch_millis_def)

lemma stats_round_trip [simp]: "stats_from_wire (stats_to_wire s) = s"
  by (simp add: stats_from_wire_def stats_to_wire_def)

lemma ranked_round_trip [simp]: "ranked_from_wire (ranked_to_wire r) = r"
  by (simp add: ranked_from_wire_def ranked_to_wire_def)

lemma or_default_simps [simp]: "or_default d (Some v) = v" "or_default d None = d"
  by (simp_all add: or_default_def)

lemma affinities_from_wire_eq:
  "affinities_from_wire ps out =
     (if list_all (\<lambda>p. length (pa_category p) \<le> unat kMaxCategoryLength) ps
      then Some (out @ map (\<lambda>p. \<lparr>ca_category = pa_category p, ca_weight = pa_weight p\<rparr>) ps) else None)"
  by (induction ps arbitrary: out) auto

lemma excluded_from_wire_eq:
  "excluded_from_wire cs out =
     (if list_all (\<lambda>c. length c \<le> unat kMaxCategoryLength) cs then Some (out @ cs) else None)"
  by (induction cs arbitrary: out) auto

lemma signal_from_wire_Some:
  "signal_from_wire p = Some s \<Longrightarrow> signal_valid s"
  by (auto simp: signal_from_wire_def affinities_from_wire_eq excluded_from_wire_eq signal_valid_def
      list.pred_map comp_def not_less split: if_splits option.splits)

lemma affinity_fields [simp]: "\<lparr>ca_category = ca_category a, ca_weight = ca_weight a\<rparr> = a"
  by simp

lemma signal_round_trip [simp]:
  "signal_from_wire (signal_to_wire s) = (if signal_valid s then Some s else None)"
  by (auto simp: signal_from_wire_def signal_to_wire_def affinities_from_wire_eq excluded_from_wire_eq
      signal_valid_def list.pred_map comp_def not_less map_idI)

text \<open>
  The translation without the runtime: exactly the requests within the limits come back, and the
  others are refused for a field that is too large.
\<close>

lemma request_of_request_envelope:
  "request_of_envelope (request_envelope r) =
     (if request_body_valid (req_body r) then (NoError, r)
      else (FieldTooLarge, default_request\<lparr>request_id := request_id r\<rparr>))"
  by (cases "req_body r")
    (auto simp: request_of_envelope_def request_envelope_def scratch_envelope_def default_request_def Let_def
      not_less)

lemma response_of_response_envelope:
  assumes "response_body_valid (resp_body r)" and "known_status (status_of (resp_body r))"
  shows "response_of_envelope (response_envelope r) = (NoError, r)"
  using assms
  by (cases "resp_body r")
    (auto simp: response_of_envelope_def response_envelope_def scratch_envelope_def default_response_def Let_def
      comp_def split: if_splits)

lemma parse_serialized:
  "carries rt e \<Longrightarrow> parse rt (append_serialized rt e []) = Some e"
  by (simp add: parse_def append_serialized_def carries_def)

text \<open>
  The protobuf codec meets the part of the codec interface that its format can promise: the round
  trip, on every runtime that carries the message.
\<close>

interpretation pb_req: faithful_codec "\<lambda>m. pb_encode_request rt m []" "\<lambda>b. pb_decode_request rt b out"
  "\<lambda>m. request_body_valid (req_body m) \<and> carries rt (request_envelope m)" for rt out
  by unfold_locales
    (simp add: pb_encode_request_def pb_decode_request_def parse_serialized request_of_request_envelope)

interpretation pb_resp: faithful_codec "\<lambda>m. pb_encode_response rt m []" "\<lambda>b. pb_decode_response rt b out"
  "\<lambda>m. response_body_valid (resp_body m) \<and> known_status (status_of (resp_body m)) \<and> carries rt (response_envelope m)"
  for rt out
  by unfold_locales
    (simp add: pb_encode_response_def pb_decode_response_def parse_serialized response_of_response_envelope)

lemma pb_decode_request_valid:
  assumes "pb_decode_request rt b out = (NoError, r)"
  shows "request_body_valid (req_body r)"
  using assms
  by (auto simp: pb_decode_request_def request_of_envelope_def Let_def not_less
      dest!: signal_from_wire_Some split: option.splits EnvelopeBody.splits if_splits)

lemma request_is_not_response:
  "fst (response_of_envelope (request_envelope r)) = WrongDirection"
  "fst (request_of_envelope (response_envelope r')) = WrongDirection"
  by (cases "req_body r"; cases "resp_body r'";
      simp add: response_of_envelope_def request_of_envelope_def response_envelope_def request_envelope_def
        scratch_envelope_def Let_def)+

subsection \<open>Properties\<close>

text \<open>
  A runtime for the witnesses: the proto3 bytes of a get request with one-byte ids and of a
  successful put response, and the parser that recognises them.
\<close>

definition demo_runtime :: pb_runtime where
  "demo_runtime =
     \<lparr>serialize = (\<lambda>e. case env_body e of
        PbGetItemRequest i \<Rightarrow> [0x08, ucast (env_request_id e), 0x12, 2, 0x08, ucast i]
      | PbPutItemResponse st \<Rightarrow> [0x08, ucast (env_request_id e), 0x42, 0]
      | _ \<Rightarrow> []),
      parse_from_array = (\<lambda>b n. case b of
        [t, r, u, l, v, i] \<Rightarrow>
          if n = 6 \<and> t = 0x08 \<and> u = 0x12 \<and> l = 2 \<and> v = 0x08 \<and> r < 128 \<and> i < 128
          then Some \<lparr>env_request_id = ucast r, env_body = PbGetItemRequest (ucast i)\<rparr> else None
      | [t, r, u, l] \<Rightarrow>
          if n = 4 \<and> t = 0x08 \<and> u = 0x42 \<and> l = 0 \<and> r < 128
          then Some \<lparr>env_request_id = ucast r, env_body = PbPutItemResponse STATUS_OK\<rparr> else None
      | _ \<Rightarrow> None)\<rparr>"

definition demo_get :: Request where
  "demo_get = \<lparr>request_id = 7, req_body = GetItem 42\<rparr>"

definition demo_put_ok :: Response where
  "demo_put_ok = \<lparr>response_id = 7, resp_body = PutItemResult Ok\<rparr>"

lemma demo_carries: "carries demo_runtime (request_envelope demo_get)" "carries demo_runtime (response_envelope demo_put_ok)"
  by (simp_all add: carries_def demo_runtime_def demo_get_def demo_put_ok_def request_envelope_def
      response_envelope_def scratch_envelope_def to_wire_status_def STATUS_OK_def)

text \<open>
  C35. The two codecs are interchangeable: on a runtime that carries the message, a request within
  the limits decodes to the same request whether it travelled in binary or in protobuf, and so
  does a response with one of the four statuses, whatever the output parameters held before.
\<close>

theorem codecs_agree:
  assumes "request_body_valid (req_body q)" and "carries rt (request_envelope q)"
    and "response_body_valid (resp_body r)" and "known_status (status_of (resp_body r))"
    and "carries rt (response_envelope r)"
  shows "pb_decode_request rt (pb_encode_request rt q []) out = decode_request (encode_request q []) out' \<and>
         pb_decode_response rt (pb_encode_response rt r []) pout = decode_response (encode_response r []) pout'"
  using assms pb_req.round_trip [of q rt out] pb_resp.round_trip [of r rt pout]
    req.round_trip [of q out'] resp.round_trip [of r pout'] by simp

theorem codecs_agree_witness:
  "pb_decode_request demo_runtime (pb_encode_request demo_runtime demo_get []) default_request =
     decode_request (encode_request demo_get []) default_request \<and>
   pb_decode_response demo_runtime (pb_encode_response demo_runtime demo_put_ok []) default_response =
     decode_response (encode_response demo_put_ok []) default_response"
  by (rule codecs_agree) (simp_all add: demo_carries demo_get_def [THEN arg_cong [where f = req_body]]
      demo_put_ok_def [THEN arg_cong [where f = resp_body]] known_status_def)



end
