(* ===== verification/Thread_Pool.thy ===== *)
theory Thread_Pool
  imports Rank_Types "HOL-Library.Multiset"
begin

section \<open>The worker pool (include/lrd/concurrency/thread_pool.hpp, src/concurrency/thread_pool.cpp)\<close>

text \<open>
  The pool as a transition system. Everything done under the mutex is one step, and each
  notification of the condition variable is a step of its own, because the source sends it after
  releasing the mutex: other threads may run between the change and the notification. A worker is
  about to take the mutex (\<open>AtTop\<close>), blocked in \<open>wait\<close> (\<open>Asleep\<close>), running a task outside the lock, or
  has returned. A notification wakes some sleeper, a sleeper may also wake for no reason, and a
  woken worker evaluates the predicate again. The task itself is opaque: it ends at some time, with
  or without an exception.
\<close>

datatype PostStatus = Accepted | QueueFull | ShuttingDown

fun post_status_to_string :: "PostStatus \<Rightarrow> cstring" where
  "post_status_to_string Accepted = lit ''Accepted''"
| "post_status_to_string QueueFull = lit ''QueueFull''"
| "post_status_to_string ShuttingDown = lit ''ShuttingDown''"

datatype TaskRejected = TaskRejected (rejected_status: PostStatus) (rejected_what: cstring)

definition task_rejected :: "PostStatus \<Rightarrow> TaskRejected" where
  "task_rejected status = TaskRejected status (lit ''task rejected: '' @ post_status_to_string status)"

datatype ShutdownPolicy = Drain | Discard

record PoolMetrics =
  po_posted :: u64
  po_completed :: u64
  po_rejected :: u64
  po_exceptions :: u64

datatype 'task worker = AtTop | Asleep | Running 'task | Exited

text \<open>
  \<open>notify_ones\<close> counts the posters that have released the mutex and not yet notified, \<open>notify_alls\<close> is
  set while the closing thread is at that point.
\<close>

record 'task ThreadPool =
  queue :: "'task list"
  stopping :: bool
  max_queued_tasks :: u64
  posted :: u64
  completed :: u64
  rejected :: u64
  exceptions :: u64
  workers :: "'task worker list"
  notify_ones :: nat
  notify_alls :: bool

datatype 'task pool_error = NoThreads | NoQueue | SpawnFailed "'task ThreadPool"

text \<open>
  The constructor. \<open>spawnable\<close> is the number of threads the system lets it create; when that is too
  few, the workers already there are told to stop before their destructors join them.
\<close>

definition pool_make :: "nat \<Rightarrow> u64 \<Rightarrow> u64 \<Rightarrow> 'task pool_error + 'task ThreadPool" where
  "pool_make spawnable thread_count max_queued =
     (if thread_count = 0 then Inl NoThreads
      else if max_queued = 0 then Inl NoQueue
      else
        let pool = \<lparr>queue = [], stopping = False, max_queued_tasks = max_queued, posted = 0, completed = 0,
                    rejected = 0, exceptions = 0,
                    workers = replicate (min spawnable (unat thread_count)) AtTop,
                    notify_ones = 0, notify_alls = False\<rparr>
        in if spawnable < unat thread_count then Inl (SpawnFailed (pool\<lparr>stopping := True, notify_alls := True\<rparr>))
           else Inr pool)"

definition post :: "'task \<Rightarrow> 'task ThreadPool \<Rightarrow> PostStatus \<times> 'task ThreadPool" where
  "post task p =
     (if stopping p then (ShuttingDown, p\<lparr>rejected := rejected p + 1\<rparr>)
      else if unat (max_queued_tasks p) \<le> length (queue p) then (QueueFull, p\<lparr>rejected := rejected p + 1\<rparr>)
      else (Accepted, p\<lparr>queue := queue p @ [task], posted := posted p + 1, notify_ones := Suc (notify_ones p)\<rparr>))"

text \<open>\<open>submit\<close>: the future is given out only for an accepted task.\<close>

definition submit :: "'task \<Rightarrow> 'task ThreadPool \<Rightarrow> (TaskRejected + 'task) \<times> 'task ThreadPool" where
  "submit callable p =
     (let (status, p) = post callable p
      in if status \<noteq> Accepted then (Inl (task_rejected status), p) else (Inr callable, p))"

text \<open>\<open>shutdown\<close> up to the notification; only the first call closes the pool.\<close>

definition shutdown :: "ShutdownPolicy \<Rightarrow> 'task ThreadPool \<Rightarrow> 'task ThreadPool" where
  "shutdown policy p =
     (if stopping p then p
      else p\<lparr>stopping := True, queue := (if policy = Discard then [] else queue p), notify_alls := True\<rparr>)"

definition wake :: "'task worker \<Rightarrow> 'task worker" where
  "wake w = (case w of Asleep \<Rightarrow> AtTop | _ \<Rightarrow> w)"

text \<open>The joins at the end of \<open>shutdown\<close> return when every worker has.\<close>

definition joined :: "'task ThreadPool \<Rightarrow> bool" where
  "joined p \<longleftrightarrow> list_all (\<lambda>w. w = Exited) (workers p)"

text \<open>The critical section of \<open>worker_loop\<close>: the wait's predicate, then the exit or the take.\<close>

definition worker_section :: "nat \<Rightarrow> 'task ThreadPool \<Rightarrow> 'task ThreadPool" where
  "worker_section i p =
     (if \<not> (stopping p \<or> queue p \<noteq> []) then p\<lparr>workers := (workers p)[i := Asleep]\<rparr>
      else case queue p of
        [] \<Rightarrow> p\<lparr>workers := (workers p)[i := Exited]\<rparr>
      | task # rest \<Rightarrow> p\<lparr>queue := rest, workers := (workers p)[i := Running task]\<rparr>)"

text \<open>After the task: one of the two counters, and round again.\<close>

definition worker_done :: "nat \<Rightarrow> bool \<Rightarrow> 'task ThreadPool \<Rightarrow> 'task ThreadPool" where
  "worker_done i threw p =
     (let p = (if threw then p\<lparr>exceptions := exceptions p + 1\<rparr> else p\<lparr>completed := completed p + 1\<rparr>)
      in p\<lparr>workers := (workers p)[i := AtTop]\<rparr>)"

definition queued :: "'task ThreadPool \<Rightarrow> nat" where
  "queued p = length (queue p)"

definition is_shutting_down :: "'task ThreadPool \<Rightarrow> bool" where
  "is_shutting_down p = stopping p"

definition pool_metrics :: "'task ThreadPool \<Rightarrow> PoolMetrics" where
  "pool_metrics p =
     \<lparr>po_posted = posted p, po_completed = completed p, po_rejected = rejected p, po_exceptions = exceptions p\<rparr>"

subsection \<open>Steps\<close>

datatype 'task pool_event =
    Post 'task PostStatus
  | NotifyOne
  | Shutdown ShutdownPolicy
  | NotifyAll
  | Spurious nat
  | Section nat "'task option"
  | Done nat 'task bool

inductive pool_step :: "'task ThreadPool \<Rightarrow> 'task pool_event \<Rightarrow> 'task ThreadPool \<Rightarrow> bool" where
  step_post: "post t p = (status, p') \<Longrightarrow> pool_step p (Post t status) p'"
| step_notify_one: "0 < notify_ones p \<Longrightarrow> i < length (workers p) \<Longrightarrow> workers p ! i = Asleep \<Longrightarrow>
    pool_step p NotifyOne (p\<lparr>notify_ones := notify_ones p - 1, workers := (workers p)[i := AtTop]\<rparr>)"
| step_notify_nobody: "0 < notify_ones p \<Longrightarrow> Asleep \<notin> set (workers p) \<Longrightarrow>
    pool_step p NotifyOne (p\<lparr>notify_ones := notify_ones p - 1\<rparr>)"
| step_shutdown: "pool_step p (Shutdown policy) (shutdown policy p)"
| step_notify_all: "notify_alls p \<Longrightarrow>
    pool_step p NotifyAll (p\<lparr>notify_alls := False, workers := map wake (workers p)\<rparr>)"
| step_spurious: "i < length (workers p) \<Longrightarrow> workers p ! i = Asleep \<Longrightarrow>
    pool_step p (Spurious i) (p\<lparr>workers := (workers p)[i := AtTop]\<rparr>)"
| step_section: "i < length (workers p) \<Longrightarrow> workers p ! i = AtTop \<Longrightarrow>
    pool_step p (Section i (case queue p of [] \<Rightarrow> None | t # ts \<Rightarrow> Some t)) (worker_section i p)"
| step_done: "i < length (workers p) \<Longrightarrow> workers p ! i = Running t \<Longrightarrow>
    pool_step p (Done i t threw) (worker_done i threw p)"

inductive_cases pool_stepE: "pool_step p e p'"

inductive pool_run :: "'task ThreadPool \<Rightarrow> 'task pool_event list \<Rightarrow> 'task ThreadPool \<Rightarrow> bool" where
  run_start: "pool_run p [] p"
| run_step: "pool_run p es p' \<Longrightarrow> pool_step p' e p'' \<Longrightarrow> pool_run p (es @ [e]) p''"

text \<open>What a run did, read off its events.\<close>

fun accepted_task :: "'task pool_event \<Rightarrow> 'task option" where
  "accepted_task (Post t Accepted) = Some t"
| "accepted_task _ = None"

fun taken_task :: "'task pool_event \<Rightarrow> 'task option" where
  "taken_task (Section i (Some t)) = Some t"
| "taken_task _ = None"

definition accepted_tasks :: "'task pool_event list \<Rightarrow> 'task list" where
  "accepted_tasks es = List.map_filter accepted_task es"

definition taken_tasks :: "'task pool_event list \<Rightarrow> 'task list" where
  "taken_tasks es = List.map_filter taken_task es"

definition refused :: "'task pool_event \<Rightarrow> bool" where
  "refused e \<longleftrightarrow> (\<exists>t. e = Post t QueueFull \<or> e = Post t ShuttingDown)"

fun is_done :: "bool \<Rightarrow> 'task pool_event \<Rightarrow> bool" where
  "is_done b (Done i t threw) \<longleftrightarrow> threw = b"
| "is_done b _ \<longleftrightarrow> False"

lemma trace_simps [simp]:
  "accepted_tasks [] = []" "taken_tasks [] = []"
  "accepted_tasks (es @ [e]) = accepted_tasks es @ (case accepted_task e of None \<Rightarrow> [] | Some t \<Rightarrow> [t])"
  "taken_tasks (es @ [e]) = taken_tasks es @ (case taken_task e of None \<Rightarrow> [] | Some t \<Rightarrow> [t])"
  by (simp_all add: accepted_tasks_def taken_tasks_def map_filter_def split: option.splits)

subsection \<open>Invariants\<close>

definition awake :: "'task worker list \<Rightarrow> nat" where
  "awake ws = sum_list (map (\<lambda>w. if w = AtTop then 1 else 0) ws)"

text \<open>
  Why no wakeup is lost: while a worker sleeps, every queued task has its own notification still to
  come or its own worker on the way to the queue; and a stopped pool has sleepers only until its
  notification is out. A worker leaves only a stopped pool with nothing queued.
\<close>

definition pool_inv :: "'task ThreadPool \<Rightarrow> bool" where
  "pool_inv p \<longleftrightarrow>
     length (queue p) \<le> unat (max_queued_tasks p)
     \<and> (Asleep \<in> set (workers p) \<longrightarrow> length (queue p) \<le> notify_ones p + awake (workers p))
     \<and> (stopping p \<and> Asleep \<in> set (workers p) \<longrightarrow> notify_alls p)
     \<and> (Exited \<in> set (workers p) \<longrightarrow> stopping p \<and> queue p = [])
     \<and> (notify_alls p \<longrightarrow> stopping p)"

lemma weight_update:
  fixes f :: "'a \<Rightarrow> nat"
  shows "i < length ws \<Longrightarrow> sum_list (map f (ws[i := w])) + f (ws ! i) = sum_list (map f ws) + f w"
proof (induction ws arbitrary: i)
  case (Cons x ws)
  show ?case
  proof (cases i)
    case (Suc j)
    then show ?thesis using Cons.IH [of j] Cons.prems by simp
  qed simp
qed simp

lemma awake_update:
  "i < length ws \<Longrightarrow> awake (ws[i := w]) + (if ws ! i = AtTop then 1 else 0) = awake ws + (if w = AtTop then 1 else 0)"
  unfolding awake_def by (rule weight_update)

lemma mem_update: "i < length ws \<Longrightarrow> x \<in> set (ws[i := w]) \<Longrightarrow> x = w \<or> x \<in> set ws"
  using set_update_subset_insert by fastforce

lemma pool_make_inv:
  "pool_make k n q = Inr p \<Longrightarrow> pool_inv p" "pool_make k n q = Inl (SpawnFailed p) \<Longrightarrow> pool_inv p \<and> stopping p"
  by (auto simp: pool_make_def pool_inv_def Let_def split: if_splits)

lemma pool_step_inv:
  assumes "pool_step p e p'" "pool_inv p"
  shows "pool_inv p'"
  using assms
proof (cases rule: pool_step.cases)
  case (step_post t status)
  then show ?thesis using assms(2) by (auto simp: post_def pool_inv_def split: if_splits)
next
  case (step_notify_one i)
  then show ?thesis using assms(2) awake_update [of i "workers p" AtTop] nth_mem [of i "workers p"]
    by (auto simp: pool_inv_def dest: mem_update)
next
  case step_notify_nobody
  then show ?thesis using assms(2) by (auto simp: pool_inv_def)
next
  case (step_shutdown policy)
  then show ?thesis using assms(2) by (auto simp: shutdown_def pool_inv_def)
next
  case step_notify_all
  have "Asleep \<notin> set (map wake (workers p))" by (auto simp: wake_def split: worker.splits)
  moreover have "Exited \<in> set (map wake (workers p)) \<Longrightarrow> Exited \<in> set (workers p)"
    by (auto simp: wake_def split: worker.splits)
  ultimately show ?thesis using step_notify_all assms(2) by (auto simp: pool_inv_def)
next
  case (step_spurious i)
  then show ?thesis using assms(2) awake_update [of i "workers p" AtTop] nth_mem [of i "workers p"]
    by (auto simp: pool_inv_def dest: mem_update)
next
  case (step_section i)
  then show ?thesis
    using assms(2) awake_update [of i "workers p" "Running (hd (queue p))"] nth_mem [of i "workers p"]
    by (cases "queue p") (auto simp: worker_section_def pool_inv_def split: if_splits dest: mem_update)
next
  case (step_done i t threw)
  then show ?thesis using assms(2) awake_update [of i "workers p" AtTop] nth_mem [of i "workers p"]
    by (auto simp: worker_done_def Let_def pool_inv_def dest: mem_update)
qed

lemma pool_run_inv: "pool_run p es p' \<Longrightarrow> pool_inv p \<Longrightarrow> pool_inv p'"
  by (induction rule: pool_run.induct) (auto dest: pool_step_inv)

lemma pool_step_workers: "pool_step p e p' \<Longrightarrow> length (workers p') = length (workers p) \<and> max_queued_tasks p' = max_queued_tasks p"
  by (cases rule: pool_step.cases)
    (auto simp: post_def shutdown_def worker_section_def worker_done_def Let_def split: if_splits list.splits)

subsection \<open>Accounting\<close>

fun running_task :: "'task worker \<Rightarrow> 'task list" where
  "running_task (Running t) = [t]"
| "running_task _ = []"

definition running :: "'task worker list \<Rightarrow> 'task multiset" where
  "running ws = sum_list (map (\<lambda>w. mset (running_task w)) ws)"

fun done_task :: "'task pool_event \<Rightarrow> 'task option" where
  "done_task (Done i t threw) = Some t"
| "done_task _ = None"

definition finished :: "'task pool_event list \<Rightarrow> 'task multiset" where
  "finished es = mset (List.map_filter done_task es)"

lemma finished_simps [simp]:
  "finished [] = {#}"
  "finished (es @ [e]) = finished es + (case done_task e of None \<Rightarrow> {#} | Some t \<Rightarrow> {#t#})"
  by (simp_all add: finished_def map_filter_def split: option.splits)

lemma running_update:
  "i < length ws \<Longrightarrow> running (ws[i := w]) + mset (running_task (ws ! i)) = running ws + mset (running_task w)"
proof (induction ws arbitrary: i)
  case (Cons x ws)
  show ?case
  proof (cases i)
    case (Suc j)
    then show ?thesis using Cons.IH [of j] Cons.prems by (simp add: running_def add.assoc)
  qed (simp add: running_def)
qed simp

lemma running_wake [simp]: "running (map wake ws) = running ws"
proof -
  have "running_task (wake w) = running_task w" for w :: "'a worker" by (cases w) (simp_all add: wake_def)
  then show ?thesis by (simp add: running_def comp_def)
qed

definition books :: "'task ThreadPool \<Rightarrow> 'task pool_event list \<Rightarrow> 'task list \<Rightarrow> 'task ThreadPool \<Rightarrow> bool" where
  "books p0 es dropped p \<longleftrightarrow>
     accepted_tasks es = taken_tasks es @ dropped @ queue p
     \<and> (dropped \<noteq> [] \<longrightarrow> Shutdown Discard \<in> set es \<and> stopping p \<and> queue p = [])
     \<and> mset (taken_tasks es) = running (workers p) + finished es
     \<and> posted p = posted p0 + word_of_nat (length (accepted_tasks es))
     \<and> rejected p = rejected p0 + word_of_nat (length (filter refused es))
     \<and> completed p = completed p0 + word_of_nat (length (filter (is_done False) es))
     \<and> exceptions p = exceptions p0 + word_of_nat (length (filter (is_done True) es))"

lemma step_books:
  assumes "pool_step p e p'" "books p0 es dropped p"
  shows "\<exists>dropped'. books p0 (es @ [e]) dropped' p'"
  using assms(1)
proof (cases rule: pool_step.cases)
  case (step_post t status)
  consider "stopping p" | "\<not> stopping p" "unat (max_queued_tasks p) \<le> length (queue p)"
    | "\<not> stopping p" "\<not> unat (max_queued_tasks p) \<le> length (queue p)" by blast
  then have "books p0 (es @ [e]) dropped p'"
  proof cases
    case 3
    then have "dropped = []" using assms(2) by (auto simp: books_def)
    then show ?thesis using step_post 3 assms(2) by (auto simp: post_def books_def refused_def)
  qed (use step_post assms(2) in \<open>auto simp: post_def books_def refused_def\<close>)
  then show ?thesis ..
next
  case (step_notify_one i)
  then have "running ((workers p)[i := AtTop]) = running (workers p)" using running_update [of i "workers p" AtTop] by simp
  then have "books p0 (es @ [e]) dropped p'" using step_notify_one assms(2) by (simp add: books_def refused_def)
  then show ?thesis ..
next
  case step_notify_nobody
  then have "books p0 (es @ [e]) dropped p'" using assms(2) by (simp add: books_def refused_def)
  then show ?thesis ..
next
  case (step_shutdown policy)
  show ?thesis
  proof (cases "stopping p \<or> policy = Drain")
    case True
    then have "books p0 (es @ [e]) dropped p'"
      using step_shutdown assms(2) by (auto simp: books_def refused_def shutdown_def)
    then show ?thesis ..
  next
    case False
    then have "policy = Discard" by (cases policy) simp_all
    then have "books p0 (es @ [e]) (dropped @ queue p) p'"
      using step_shutdown False assms(2) by (simp add: books_def refused_def shutdown_def)
    then show ?thesis ..
  qed
next
  case step_notify_all
  then have "books p0 (es @ [e]) dropped p'" using assms(2) by (simp add: books_def refused_def)
  then show ?thesis ..
next
  case (step_spurious i)
  then have "running ((workers p)[i := AtTop]) = running (workers p)" using running_update [of i "workers p" AtTop] by simp
  then have "books p0 (es @ [e]) dropped p'" using step_spurious assms(2) by (simp add: books_def refused_def)
  then show ?thesis ..
next
  case (step_section i)
  have r: "running ((workers p)[i := w]) = running (workers p) + mset (running_task w)" for w
    using running_update [of i "workers p" w] step_section by simp
  have "books p0 (es @ [e]) dropped p'"
    using step_section assms(2) by (cases "queue p") (auto simp: books_def refused_def worker_section_def r)
  then show ?thesis ..
next
  case (step_done i t threw)
  have r: "running (workers p) = add_mset t (running ((workers p)[i := AtTop]))"
    using running_update [of i "workers p" AtTop] step_done by simp
  have "books p0 (es @ [e]) dropped p'"
    using step_done assms(2) by (cases threw) (simp_all add: books_def refused_def worker_done_def r)
  then show ?thesis ..
qed

lemma run_books:
  assumes "pool_run p es p'" "queue p = []" "running (workers p) = {#}"
  shows "\<exists>dropped. books p es dropped p'"
  using assms
proof (induction rule: pool_run.induct)
  case (run_start p)
  then have "books p [] [] p" by (simp add: books_def)
  then show ?case ..
qed (use step_books in blast)

lemma pool_make_start:
  assumes "pool_make k n q = Inr p"
  shows "queue p = []" "running (workers p) = {#}" "length (workers p) = unat n" "0 < length (workers p)"
    "max_queued_tasks p = q" "posted p = 0" "rejected p = 0" "completed p = 0" "exceptions p = 0"
proof -
  have "running (replicate j AtTop) = {#}" for j by (induction j) (simp_all add: running_def)
  moreover have "0 < unat n" if "n \<noteq> 0" using that by (simp add: unat_gt_0)
  ultimately show "queue p = []" "running (workers p) = {#}" "length (workers p) = unat n" "0 < length (workers p)"
    "max_queued_tasks p = q" "posted p = 0" "rejected p = 0" "completed p = 0" "exceptions p = 0"
    using assms by (auto simp: pool_make_def Let_def split: if_splits)
qed

lemma pool_run_workers: "pool_run p es p' \<Longrightarrow> length (workers p') = length (workers p) \<and> max_queued_tasks p' = max_queued_tasks p"
  by (induction rule: pool_run.induct) (auto dest: pool_step_workers)

subsection \<open>Progress\<close>

text \<open>The steps of the pool itself, as opposed to calls into it.\<close>

fun internal :: "'task pool_event \<Rightarrow> bool" where
  "internal (Post t status) \<longleftrightarrow> False"
| "internal (Shutdown policy) \<longleftrightarrow> False"
| "internal _ \<longleftrightarrow> True"

fun weight :: "'task worker \<Rightarrow> nat" where
  "weight AtTop = 1"
| "weight Asleep = 2"
| "weight (Running t) = 2"
| "weight Exited = 0"

definition remaining_work :: "'task ThreadPool \<Rightarrow> nat" where
  "remaining_work p = 3 * length (queue p) + sum_list (map weight (workers p)) + notify_ones p
     + (if notify_alls p then 1 else 0)"

lemma weight_wake: "sum_list (map weight (map wake ws)) \<le> sum_list (map weight ws)"
proof -
  have "weight (wake w) \<le> weight w" for w :: "'a worker" by (cases w) (simp_all add: wake_def)
  then show ?thesis by (induction ws) (simp_all add: add_mono)
qed

lemma stopped_step:
  assumes "pool_step p e p'" "internal e" "stopping p"
  shows "remaining_work p' < remaining_work p" "stopping p'"
proof -
  have "remaining_work p' < remaining_work p \<and> stopping p'"
    using assms(1)
  proof (cases rule: pool_step.cases)
    case step_notify_all
    then show ?thesis using weight_wake [of "workers p"] assms(3) by (simp add: remaining_work_def)
  next
    case (step_section i)
    then show ?thesis
      using weight_update [of i "workers p" weight Exited] weight_update [of i "workers p" weight "Running (hd (queue p))"]
        assms(3)
      by (cases "queue p") (simp_all add: worker_section_def remaining_work_def)
  next
    case (step_done i t threw)
    then show ?thesis using weight_update [of i "workers p" weight AtTop] assms(3)
      by (cases threw) (simp_all add: worker_done_def remaining_work_def)
  next
    case (step_notify_one i)
    then show ?thesis using weight_update [of i "workers p" weight AtTop] assms(3) by (simp add: remaining_work_def)
  next
    case (step_spurious i)
    then show ?thesis using weight_update [of i "workers p" weight AtTop] assms(3) by (simp add: remaining_work_def)
  qed (use assms in \<open>auto simp: remaining_work_def\<close>)
  then show "remaining_work p' < remaining_work p" "stopping p'" by simp_all
qed

lemma stopped_run:
  "pool_run p es p' \<Longrightarrow> list_all internal es \<Longrightarrow> stopping p \<Longrightarrow> length es + remaining_work p' \<le> remaining_work p \<and> stopping p'"
proof (induction rule: pool_run.induct)
  case (run_step p es p' e p'')
  then show ?case using stopped_step [of p' e p''] by simp
qed simp

lemma progress:
  assumes "pool_inv p" "queue p \<noteq> [] \<or> stopping p" "\<not> joined p"
  shows "\<exists>e p'. pool_step p e p' \<and> internal e \<and> (\<forall>i. e \<noteq> Spurious i)"
proof -
  have top: ?thesis if ready: "AtTop \<in> set (workers p)"
  proof -
    obtain i where "i < length (workers p)" "workers p ! i = AtTop" using ready by (auto simp: in_set_conv_nth)
    from step_section [OF this] show ?thesis by (intro exI conjI) auto
  qed
  obtain w where "w \<in> set (workers p)" "w \<noteq> Exited" using assms(3) by (auto simp: joined_def list_all_iff)
  then obtain i where i: "i < length (workers p)" "workers p ! i = w" by (auto simp: in_set_conv_nth)
  show ?thesis
  proof (cases w)
    case AtTop
    then show ?thesis using top i nth_mem by fastforce
  next
    case (Running t)
    from step_done [OF i(1) i(2) [unfolded Running], of False] show ?thesis by (intro exI conjI) auto
  next
    case Asleep
    then have s: "Asleep \<in> set (workers p)" using i nth_mem by fastforce
    have "notify_alls p \<or> 0 < notify_ones p \<or> 0 < awake (workers p)"
      using assms(1,2) s by (cases "queue p") (auto simp: pool_inv_def)
    then consider "notify_alls p" | "0 < notify_ones p" | "0 < awake (workers p)" by auto
    then show ?thesis
    proof cases
      case 1
      from step_notify_all [OF this] show ?thesis by (intro exI conjI) auto
    next
      case 2
      from step_notify_one [OF this i(1) i(2) [unfolded Asleep]] show ?thesis by (intro exI conjI) auto
    next
      case 3
      then have "AtTop \<in> set (workers p)" by (rule contrapos_pp) (auto simp: awake_def sum_list_eq_0_iff)
      then show ?thesis by (rule top)
    qed
  qed (use \<open>w \<noteq> Exited\<close> in simp)
qed

subsection \<open>Properties\<close>

text \<open>A pool of one worker for the witnesses, and a run of it from the first post to the join.\<close>

definition demo_pool :: "nat list \<Rightarrow> bool \<Rightarrow> nat worker \<Rightarrow> u64 \<Rightarrow> u64 \<Rightarrow> nat \<Rightarrow> bool \<Rightarrow> nat ThreadPool" where
  "demo_pool q st w ok fin ones alls =
     \<lparr>queue = q, stopping = st, max_queued_tasks = 2, posted = ok, completed = fin, rejected = 0, exceptions = 0,
      workers = [w], notify_ones = ones, notify_alls = alls\<rparr>"

definition demo_posted :: "nat ThreadPool" where
  "demo_posted = demo_pool [7] False AtTop 1 0 1 False"

definition demo_joined :: "nat ThreadPool" where
  "demo_joined = demo_pool [] True Exited 1 1 1 True"

definition demo_events :: "nat pool_event list" where
  "demo_events = [Post 7 Accepted, Shutdown Drain, Section 0 (Some 7), Done 0 7 False, Section 0 None]"

lemma demo_make: "pool_make 1 1 2 = Inr (demo_pool [] False AtTop 0 0 0 False)"
  by (simp add: pool_make_def demo_pool_def)

lemma demo_post: "pool_run (demo_pool [] False AtTop 0 0 0 False) [Post 7 Accepted] demo_posted"
  using run_step [OF run_start step_post [of 7 "demo_pool [] False AtTop 0 0 0 False" Accepted demo_posted]]
  by (simp add: post_def demo_pool_def demo_posted_def)

lemma demo_run: "pool_run (demo_pool [] False AtTop 0 0 0 False) demo_events demo_joined"
proof -
  have 1: "pool_step demo_posted (Shutdown Drain) (demo_pool [7] True AtTop 1 0 1 True)"
    using step_shutdown [of demo_posted Drain] by (simp add: shutdown_def demo_pool_def demo_posted_def)
  have 2: "pool_step (demo_pool [7] True AtTop 1 0 1 True) (Section 0 (Some 7)) (demo_pool [] True (Running 7) 1 0 1 True)"
    using step_section [of 0 "demo_pool [7] True AtTop 1 0 1 True"] by (simp add: worker_section_def demo_pool_def)
  have 3: "pool_step (demo_pool [] True (Running 7) 1 0 1 True) (Done 0 7 False) (demo_pool [] True AtTop 1 1 1 True)"
    using step_done [of 0 "demo_pool [] True (Running 7) 1 0 1 True" 7 False] by (simp add: worker_done_def demo_pool_def)
  have 4: "pool_step (demo_pool [] True AtTop 1 1 1 True) (Section 0 None) demo_joined"
    using step_section [of 0 "demo_pool [] True AtTop 1 1 1 True"]
    by (simp add: worker_section_def demo_pool_def demo_joined_def)
  from run_step [OF run_step [OF run_step [OF run_step [OF demo_post 1] 2] 3] 4]
  show ?thesis by (simp add: demo_events_def)
qed

text \<open>
  C28. No task is lost, duplicated or reordered: in every run of a new pool the workers have taken
  the accepted tasks in the order they were accepted, the accepted tasks not yet taken are exactly the
  queue unless a discarding shutdown dropped them, every taken task is running or has finished once,
  the queue never exceeds its capacity, and the counters say how many calls were accepted and
  refused and how many tasks returned and threw.
\<close>

theorem pool_accounting:
  assumes "pool_make k n q = Inr p0" and "pool_run p0 es p"
  shows "length (queue p) \<le> unat q \<and>
    (\<exists>dropped. accepted_tasks es = taken_tasks es @ dropped @ queue p
       \<and> (dropped \<noteq> [] \<longrightarrow> Shutdown Discard \<in> set es \<and> stopping p)) \<and>
    mset (taken_tasks es) = running (workers p) + finished es \<and>
    pool_metrics p = \<lparr>po_posted = word_of_nat (length (accepted_tasks es)),
      po_completed = word_of_nat (length (filter (is_done False) es)),
      po_rejected = word_of_nat (length (filter refused es)),
      po_exceptions = word_of_nat (length (filter (is_done True) es))\<rparr>"
proof -
  note s = pool_make_start [OF assms(1)]
  obtain dropped where "books p0 es dropped p" using run_books [OF assms(2) s(1,2)] by blast
  moreover have "length (queue p) \<le> unat q"
    using pool_run_inv [OF assms(2) pool_make_inv(1) [OF assms(1)]] pool_run_workers [OF assms(2)] s(5)
    by (simp add: pool_inv_def)
  ultimately show ?thesis using s(6-9) by (auto simp: books_def pool_metrics_def)
qed

theorem pool_accounting_witness:
  "mset (taken_tasks demo_events) = running (workers demo_joined) + finished demo_events \<and>
   po_posted (pool_metrics demo_joined) = word_of_nat (length (accepted_tasks demo_events))"
  using pool_accounting [OF demo_make demo_run] by simp

text \<open>
  C29. No wakeup is lost: whenever tasks are queued, some step of the pool other than a spurious
  wakeup is possible, and as long as a worker sleeps each queued task has a notification still to be
  sent or a woken worker on its way to the queue. In particular the pool never rests with work queued.
\<close>

theorem no_lost_wakeup:
  assumes "pool_make k n q = Inr p0" and "pool_run p0 es p" and "queue p \<noteq> []"
  shows "(\<exists>e p'. pool_step p e p' \<and> internal e \<and> (\<forall>i. e \<noteq> Spurious i)) \<and>
         (Asleep \<in> set (workers p) \<longrightarrow> length (queue p) \<le> notify_ones p + awake (workers p))"
proof -
  have i: "pool_inv p" by (rule pool_run_inv [OF assms(2) pool_make_inv(1) [OF assms(1)]])
  have "workers p \<noteq> []" using pool_run_workers [OF assms(2)] pool_make_start(4) [OF assms(1)] by auto
  then have "\<not> joined p" using i assms(3) by (cases "workers p") (auto simp: joined_def pool_inv_def)
  then show ?thesis using progress [OF i] i assms(3) by (simp add: pool_inv_def)
qed

theorem no_lost_wakeup_witness:
  "\<exists>e p'. pool_step demo_posted e p' \<and> internal e \<and> (\<forall>i. e \<noteq> Spurious i)"
  using no_lost_wakeup [OF demo_make demo_post] by (simp add: demo_posted_def demo_pool_def)

text \<open>
  C30. Shutdown ends: once the pool is stopping, the pool's own steps (with tasks that end) can
  only be finitely many, bounded by the work that remains; as long as the workers are not all joined one
  of them is possible; and when they are joined the queue is empty, so that without a discarding
  shutdown every accepted task has run to its end.
\<close>

theorem shutdown_completes:
  assumes "pool_make k n q = Inr p0" and "pool_run p0 es p" and "stopping p"
  shows "(pool_run p es' p' \<and> list_all internal es' \<longrightarrow> length es' \<le> remaining_work p) \<and>
    (\<not> joined p \<longrightarrow> (\<exists>e p'. pool_step p e p' \<and> internal e \<and> (\<forall>i. e \<noteq> Spurious i))) \<and>
    (joined p \<longrightarrow> queue p = [] \<and> (Shutdown Discard \<notin> set es \<longrightarrow> finished es = mset (accepted_tasks es)))"
proof -
  note s = pool_make_start [OF assms(1)]
  have i: "pool_inv p" by (rule pool_run_inv [OF assms(2) pool_make_inv(1) [OF assms(1)]])
  obtain dropped where b: "books p0 es dropped p" using run_books [OF assms(2) s(1,2)] by blast
  have joined: "queue p = [] \<and> running (workers p) = {#}" if "joined p"
  proof -
    have "workers p \<noteq> []" using pool_run_workers [OF assms(2)] s(4) by auto
    then have "queue p = []" using i that by (cases "workers p") (auto simp: joined_def pool_inv_def)
    moreover have "list_all (\<lambda>w. w = Exited) ws \<Longrightarrow> running ws = {#}" for ws :: "'a worker list"
      by (induction ws) (simp_all add: running_def)
    ultimately show ?thesis using that by (simp add: joined_def)
  qed
  show ?thesis
    using stopped_run [of p es' p'] progress [OF i] joined b assms(3) by (auto simp: books_def)
qed

theorem shutdown_completes_witness:
  "queue demo_joined = [] \<and> finished demo_events = mset (accepted_tasks demo_events)"
  using shutdown_completes [OF demo_make demo_run, of "[]" demo_joined]
  by (simp add: demo_joined_def demo_pool_def joined_def demo_events_def)

end
