(* ===== verification/Connection_Registry.thy ===== *)
theory Connection_Registry
  imports Prelude
begin

section \<open>The connection registry (include/lrd/daemon/connection_registry.hpp, src/daemon/connection_registry.cpp)\<close>

text \<open>
  The registry that lets shutdown reach workers blocked in a read. Every operation holds the mutex
  throughout, so an interleaving of the workers and the closing thread is a sequence of operations.
  \<open>stop_all\<close> returns the descriptors it calls \<open>shutdown(fd, SHUT_RDWR)\<close> on.
\<close>

record ConnectionRegistry =
  rg_connections :: "(u64, int) umap"
  rg_next_token :: u64
  rg_stopping :: bool

definition registry_make :: ConnectionRegistry where
  "registry_make = \<lparr>rg_connections = [], rg_next_token = 1, rg_stopping = False\<rparr>"

definition registry_add :: "int \<Rightarrow> ConnectionRegistry \<Rightarrow> u64 \<times> ConnectionRegistry" where
  "registry_add fd r =
     (if rg_stopping r then (0, r)
      else let token = rg_next_token r
           in (token, r\<lparr>rg_next_token := token + 1,
                        rg_connections := umap_emplace token fd (rg_connections r)\<rparr>))"

definition registry_remove :: "u64 \<Rightarrow> ConnectionRegistry \<Rightarrow> ConnectionRegistry" where
  "registry_remove token r = r\<lparr>rg_connections := AList.delete token (rg_connections r)\<rparr>"

definition stop_all :: "ConnectionRegistry \<Rightarrow> int list \<times> ConnectionRegistry" where
  "stop_all r = (map snd (rg_connections r), r\<lparr>rg_stopping := True\<rparr>)"

definition registry_stopping :: "ConnectionRegistry \<Rightarrow> bool" where
  "registry_stopping r = rg_stopping r"

definition active :: "ConnectionRegistry \<Rightarrow> nat" where
  "active r = length (rg_connections r)"

text \<open>\<open>ConnectionGuard\<close>: its constructor is \<open>add\<close>, its destructor deregisters a token it got.\<close>

definition guard_enter :: "int \<Rightarrow> ConnectionRegistry \<Rightarrow> u64 \<times> ConnectionRegistry" where
  "guard_enter fd r = registry_add fd r"

definition guard_ok :: "u64 \<Rightarrow> bool" where
  "guard_ok token \<longleftrightarrow> token \<noteq> 0"

definition guard_exit :: "u64 \<Rightarrow> ConnectionRegistry \<Rightarrow> ConnectionRegistry" where
  "guard_exit token r = (if token \<noteq> 0 then registry_remove token r else r)"

subsection \<open>Interleavings\<close>

datatype registry_op = Enter int | Leave u64 | StopAll
datatype registry_result = Token u64 | Gone | Stopped "int list"

fun registry_step :: "registry_op \<Rightarrow> ConnectionRegistry \<Rightarrow> registry_result \<times> ConnectionRegistry" where
  "registry_step (Enter fd) r = (let (t, r) = guard_enter fd r in (Token t, r))"
| "registry_step (Leave t) r = (Gone, guard_exit t r)"
| "registry_step StopAll r = (let (fds, r) = stop_all r in (Stopped fds, r))"

text \<open>The connections that are inside their guards: entered with a token and not left since.\<close>

fun inside :: "(registry_op \<times> registry_result) list \<Rightarrow> (u64 \<times> int) list \<Rightarrow> (u64 \<times> int) list" where
  "inside [] cs = cs"
| "inside ((Enter fd, Token t) # ls) cs = inside ls (if t = 0 then cs else (t, fd) # cs)"
| "inside ((Leave t, x) # ls) cs = inside ls (filter (\<lambda>c. fst c \<noteq> t) cs)"
| "inside (_ # ls) cs = inside ls cs"

definition tokens :: "registry_result list \<Rightarrow> u64 list" where
  "tokens rs = List.map_filter (\<lambda>x. case x of Token t \<Rightarrow> if t = 0 then None else Some t | _ \<Rightarrow> None) rs"

lemma tokens_simps [simp]:
  "tokens [] = []" "tokens (Gone # rs) = tokens rs" "tokens (Stopped fds # rs) = tokens rs"
  "tokens (Token t # rs) = (if t = 0 then tokens rs else t # tokens rs)"
  by (simp_all add: tokens_def map_filter_def)

text \<open>The invariant with \<open>n\<close> tokens given out: they are the ones below the next.\<close>

definition registry_inv :: "nat \<Rightarrow> ConnectionRegistry \<Rightarrow> bool" where
  "registry_inv n r \<longleftrightarrow> unat (rg_next_token r) = Suc n \<and> umap_wf (rg_connections r)
     \<and> (\<forall>t \<in> set (map fst (rg_connections r)). t \<noteq> 0 \<and> unat t \<le> n)"

lemma step_inv:
  assumes "registry_inv n r" "Suc n < 2 ^ 64 - 1" "registry_step x r = (y, r')"
  shows "\<exists>m \<ge> n. m \<le> Suc n \<and> registry_inv m r' \<and> rg_connections r' = inside [(x, y)] (rg_connections r)
      \<and> (\<forall>t \<in> set (tokens [y]). n < unat t \<and> unat t \<le> m) \<and> (rg_stopping r \<longrightarrow> rg_stopping r' \<and> tokens [y] = [])"
proof (cases x)
  case (Enter fd)
  show ?thesis
  proof (cases "rg_stopping r")
    case True
    then show ?thesis using assms Enter by (intro exI [of _ n]) (auto simp: guard_enter_def registry_add_def)
  next
    case False
    let ?t = "rg_next_token r"
    have t: "unat ?t = Suc n" using assms(1) by (simp add: registry_inv_def)
    then have "?t \<noteq> 0" by auto
    moreover have "unat (?t + 1) = Suc (Suc n)" using t assms(2) by (simp add: unat_word_ariths)
    moreover have "map_of (rg_connections r) ?t = None"
      using assms(1) t by (force simp: registry_inv_def map_of_eq_None_iff)
    moreover have "\<forall>t \<in> set (map fst (rg_connections r)). t \<noteq> 0 \<and> unat t \<le> Suc n"
      using assms(1) by (auto simp: registry_inv_def dest!: bspec intro: le_SucI)
    ultimately show ?thesis using assms Enter False t
      by (intro exI [of _ "Suc n"])
        (auto simp: guard_enter_def registry_add_def umap_emplace_def registry_inv_def map_of_eq_None_iff Let_def)
  qed
next
  case (Leave t)
  have "filter (\<lambda>c. fst c \<noteq> t) (rg_connections r) = rg_connections r" if "t = 0"
    using assms(1) that by (auto simp: registry_inv_def filter_id_conv)
  then have c: "rg_connections r' = filter (\<lambda>c. fst c \<noteq> t) (rg_connections r)"
    "rg_next_token r' = rg_next_token r" "rg_stopping r' = rg_stopping r"
    using assms(3) Leave 
    by (cases "t = 0"; auto simp: guard_exit_def registry_remove_def umap_delete_filter)+
  then have "registry_inv n r'" using assms(1) by (auto simp: registry_inv_def distinct_map_filter)
  then show ?thesis using assms(3) Leave c by (intro exI [of _ n]) auto
next
  case StopAll
  then show ?thesis using assms
    by (intro exI [of _ n]) (auto simp: stop_all_def registry_inv_def)
qed

lemma tokens_Cons: "tokens (y # ys) = tokens [y] @ tokens ys"
  by (cases y) simp_all

lemma inside_Cons: "inside (l # ls) cs = inside ls (inside [l] cs)"
  by (cases "(l # ls, cs)" rule: inside.cases) simp_all

lemma run_inv:
  assumes "registry_inv n r" "n + length ops < 2 ^ 64 - 1" "run_ops registry_step ops r = (rs, r')"
  shows "rg_connections r' = inside (zip ops rs) (rg_connections r) \<and> distinct (tokens rs)
      \<and> (\<forall>t \<in> set (tokens rs). n < unat t) \<and> (rg_stopping r \<longrightarrow> rg_stopping r' \<and> tokens rs = [])
      \<and> (\<exists>m \<le> n + length ops. registry_inv m r')"
  using assms
proof (induction ops arbitrary: n r rs)
  case (Cons x ops)
  obtain y r1 where 1: "registry_step x r = (y, r1)" by fastforce
  obtain ys where 2: "run_ops registry_step ops r1 = (ys, r')" "rs = y # ys"
    using Cons.prems(3) 1 by (auto split: prod.splits)
  have "Suc n < 2 ^ 64 - 1" using Cons.prems(2) by simp
  then obtain m where m: "n \<le> m" "m \<le> Suc n" "registry_inv m r1"
      "rg_connections r1 = inside [(x, y)] (rg_connections r)" "\<forall>t \<in> set (tokens [y]). n < unat t \<and> unat t \<le> m"
      "rg_stopping r \<longrightarrow> rg_stopping r1 \<and> tokens [y] = []"
    using step_inv [OF Cons.prems(1) _ 1] by blast
  have "m + length ops < 2 ^ 64 - 1" using Cons.prems(2) m(2) by simp
  note IH = Cons.IH [OF m(3) this 2(1)]
  have "distinct (tokens [y] @ tokens ys)" using IH m(5) by (cases y) (auto split: if_splits)
  moreover have "\<exists>l \<le> n + length (x # ops). registry_inv l r'"
  proof -
    obtain l where "l \<le> m + length ops" "registry_inv l r'" using IH by blast
    then show ?thesis using m(2) by (intro exI [of _ l]) simp
  qed
  ultimately show ?case
    using IH m(1,4-6) 2(2) inside_Cons [of "(x, y)" "zip ops ys" "rg_connections r"] tokens_Cons [of y ys] by auto
qed auto

lemma inside_quiet: "tokens rs = [] \<Longrightarrow> set (inside (zip ops rs) cs) \<subseteq> set cs"
proof (induction ops arbitrary: rs cs)
  case (Cons x ops)
  show ?case
  proof (cases rs)
    case (Cons y ys)
    have "tokens [y] = []" "tokens ys = []" using Cons.prems Cons tokens_Cons [of y ys] by simp_all
    moreover have "set (inside [(x, y)] cs) \<subseteq> set cs"
      using calculation(1) by (cases "([(x, y)], cs)" rule: inside.cases) (auto split: if_splits)
    ultimately show ?thesis using Cons.IH [of ys "inside [(x, y)] cs"] Cons inside_Cons [of "(x, y)" "zip ops ys" cs] by auto
  qed simp
qed simp

lemma make_inv: "registry_inv 0 registry_make"
  by (simp add: registry_inv_def registry_make_def)

subsection \<open>Properties\<close>

text \<open>
  C34. Shutdown reaches every connection: over any interleaving of fewer than $2^{64} - 1$
  registrations, departures and stops, no token is given out twice, the registry holds exactly the
  connections that are inside their guards, and once \<open>stop_all\<close> has run nobody gets a token any more, so
  that every connection still inside was among the descriptors it shut down.
\<close>

theorem stop_reaches_every_connection:
  assumes "run_ops registry_step before registry_make = (rs, r)" and "stop_all r = (fds, r1)"
    and "run_ops registry_step later r1 = (rs', r')" and "length before + length later < 2 ^ 64 - 1"
  shows "distinct (tokens (rs @ rs')) \<and> rg_connections r = inside (zip before rs) [] \<and>
    rg_connections r' = inside (zip later rs') (rg_connections r) \<and> active r' \<le> active r \<and>
    tokens rs' = [] \<and> (\<forall>(t, fd) \<in> set (rg_connections r'). fd \<in> set fds)"
proof -
  have l: "0 + length before < 2 ^ 64 - 1" using assms(4) by simp
  note 1 = run_inv [OF make_inv l assms(1)]
  obtain m where m: "m \<le> 0 + length before" "registry_inv m r" using 1 by blast
  have r1: "registry_inv m r1" "rg_stopping r1" "rg_connections r1 = rg_connections r" "fds = map snd (rg_connections r)"
    using assms(2) m(2) by (auto simp: stop_all_def registry_inv_def)
  have "m + length later < 2 ^ 64 - 1" using m(1) assms(4) by simp
  note 2 = run_inv [OF r1(1) this assms(3)]
  have t: "tokens rs' = []" using 2 r1(2) by simp
  moreover have "tokens (rs @ rs') = tokens rs @ tokens rs'" by (simp add: tokens_def map_filter_def)
  moreover have sub: "set (rg_connections r') \<subseteq> set (rg_connections r)"
    using inside_quiet [OF t] 2 r1(3) by simp
  moreover have "distinct (rg_connections r')" "distinct (rg_connections r)"
    using 2 m(2) by (auto simp: registry_inv_def distinct_map)
  then have "active r' \<le> active r"
    unfolding active_def using sub by (metis card_mono distinct_card finite_set)
  ultimately show ?thesis using 1 2 r1(3,4) by (force simp: registry_make_def)
qed

theorem stop_reaches_every_connection_witness:
  "let r = snd (run_ops registry_step [Enter 7, Enter 8] registry_make);
       (rs, r') = run_ops registry_step [Leave 1, Enter 9] (snd (stop_all r))
   in tokens rs = [] \<and> active r' \<le> active r"
  using stop_reaches_every_connection [OF prod.collapse [symmetric] prod.collapse [symmetric] prod.collapse [symmetric],
      of "[Enter 7, Enter 8]" "[Leave 1, Enter 9]"]
  by (simp add: Let_def case_prod_beta)

end
