(* ===== verification/Unix_Socket.thy ===== *)
theory Unix_Socket
  imports Io Rank_Types "HOL-Library.Signed_Division"
begin


section \<open>Descriptors and UNIX sockets (common/fd, common/errors, net/unix_socket)\<close>

text \<open>
  The setup half of the networking code. The kernel is an input: it carries the script of outcomes
  of the process's future system calls, and a trace of the calls made with the outcome each one had,
  over which the theorems are stated. Calls whose result the source ignores (\<open>close\<close>, \<open>umask\<close>,
  \<open>shutdown\<close>) use up no outcome. A call without an outcome left blocks for ever, the value None; an
  exception is the left part of a sum.
\<close>

definition ENOENT :: int where "ENOENT = 2"
definition EINVAL :: int where "EINVAL = 22"
definition ENAMETOOLONG :: int where "ENAMETOOLONG = 36"
definition EADDRINUSE :: int where "EADDRINUSE = 98"
definition ECONNREFUSED :: int where "ECONNREFUSED = 111"

lemmas socket_errnos = ENOENT_def EINVAL_def ENAMETOOLONG_def EADDRINUSE_def ECONNREFUSED_def

datatype sys_outcome = SysOk nat | SysErr int

datatype syscall =
    SysAccess cstring
  | SysSocket
  | SysConnect int cstring
  | SysUnlink cstring
  | SysUmask nat
  | SysBind int cstring nat
  | SysListen int int
  | SysAccept4 int
  | SysSetsockopt int int "int \<times> int"
  | SysShutdown int int
  | SysClose int

record kernel =
  k_script :: "sys_outcome list"
  k_trace :: "(syscall \<times> sys_outcome) list"
  k_umask :: nat

record SystemError =
  error_number :: int
  error_context :: cstring

type_synonym 'a io = "kernel \<Rightarrow> ((SystemError + 'a) \<times> kernel) option"

subsection \<open>Effects\<close>

definition give :: "'a \<Rightarrow> 'a io" where
  "give x k = Some (Inr x, k)"

definition throw_errno :: "int \<Rightarrow> cstring \<Rightarrow> 'a io" where
  "throw_errno e context k = Some (Inl \<lparr>error_number = e, error_context = context\<rparr>, k)"

definition andThen :: "'a io \<Rightarrow> ('a \<Rightarrow> 'b io) \<Rightarrow> 'b io" where
  "andThen m f k =
     (case m k of None \<Rightarrow> None | Some (Inl e, k') \<Rightarrow> Some (Inl e, k') | Some (Inr x, k') \<Rightarrow> f x k')"

definition call :: "syscall \<Rightarrow> sys_outcome io" where
  "call c k =
     (case k_script k of
        [] \<Rightarrow> None
      | r # rs \<Rightarrow> Some (Inr r, k\<lparr>k_script := rs, k_trace := k_trace k @ [(c, r)]\<rparr>))"

definition note_call :: "syscall \<Rightarrow> kernel \<Rightarrow> kernel" where
  "note_call c k = k\<lparr>k_trace := k_trace k @ [(c, SysOk 0)]\<rparr>"

definition set_umask :: "nat \<Rightarrow> kernel \<Rightarrow> kernel" where
  "set_umask m k = (note_call (SysUmask m) k)\<lparr>k_umask := m\<rparr>"

subsection \<open>Fd\<close>

type_synonym Fd = int

definition kInvalid :: Fd where "kInvalid = -1"

definition fd_valid :: "Fd \<Rightarrow> bool" where
  "fd_valid fd \<longleftrightarrow> fd \<noteq> kInvalid"

definition fd_close :: "Fd \<Rightarrow> kernel \<Rightarrow> Fd \<times> kernel" where
  "fd_close fd k = (if fd = kInvalid then (fd, k) else (kInvalid, note_call (SysClose fd) k))"

text \<open>Moving takes the descriptor and disarms the source: the pair is (target, source).\<close>

definition fd_move :: "Fd \<Rightarrow> Fd \<times> Fd" where
  "fd_move other = (other, kInvalid)"

definition fd_move_assign :: "Fd \<Rightarrow> Fd \<Rightarrow> kernel \<Rightarrow> (Fd \<times> Fd) \<times> kernel" where
  "fd_move_assign this other k = (let (_, k) = fd_close this k in ((other, kInvalid), k))"

definition fd_release :: "Fd \<Rightarrow> int \<times> Fd" where
  "fd_release fd = (fd, kInvalid)"

definition fd_reset :: "Fd \<Rightarrow> int \<Rightarrow> kernel \<Rightarrow> Fd \<times> kernel" where
  "fd_reset fd new k = (if fd \<noteq> new then (new, snd (fd_close fd k)) else (fd, k))"

text \<open>A local \<open>Fd\<close>: its destructor runs however the scope is left.\<close>

definition scoped :: "Fd \<Rightarrow> 'a io \<Rightarrow> 'a io" where
  "scoped fd body k = map_option (\<lambda>(r, k). (r, snd (fd_close fd k))) (body k)"

text \<open>A local \<open>Fd\<close> that the last statement moves into the result: closed only when an exception leaves.\<close>

definition owned :: "Fd \<Rightarrow> 'a io \<Rightarrow> 'a io" where
  "owned fd body k =
     map_option (\<lambda>(r, k). (r, if isl r then snd (fd_close fd k) else k)) (body k)"

subsection \<open>Addresses\<close>

definition kMaxSocketPathLength :: nat where "kMaxSocketPathLength = 107"

text \<open>\<open>sun_path\<close>: 108 bytes, zero where nothing was copied.\<close>

definition make_address :: "cstring \<Rightarrow> bytes io" where
  "make_address path =
     (if path = [] then throw_errno EINVAL (lit ''socket path is empty'')
      else if kMaxSocketPathLength < length path
      then throw_errno ENAMETOOLONG
             (lit ''socket path is '' @ decimal (length path) @ lit '' bytes, limit is ''
                @ decimal kMaxSocketPathLength)
      else give (path @ replicate (108 - length path) 0))"

definition c_str :: "cstring \<Rightarrow> cstring" where
  "c_str s = takeWhile (\<lambda>b. b \<noteq> 0) s"

definition address_length :: "bytes \<Rightarrow> nat" where
  "address_length sun_path = 2 + length (c_str sun_path) + 1"

text \<open>The pathname the kernel reads out of an address of this length.\<close>

definition addressed :: "bytes \<Rightarrow> cstring" where
  "addressed sun_path = take (address_length sun_path - 3) sun_path"

definition make_socket :: "Fd io" where
  "make_socket = andThen (call SysSocket) (\<lambda>r. case r of
     SysErr e \<Rightarrow> throw_errno e (lit ''socket(AF_UNIX, SOCK_STREAM)'')
   | SysOk fd \<Rightarrow> give (int fd))"

definition socket_file_is_stale :: "cstring \<Rightarrow> bool io" where
  "socket_file_is_stale path =
     andThen (make_address path) (\<lambda>addr.
     andThen make_socket (\<lambda>probe.
       scoped probe (andThen (call (SysConnect probe (addressed addr))) (\<lambda>r. case r of
           SysOk _ \<Rightarrow> give False
         | SysErr e \<Rightarrow> give (e = ECONNREFUSED)))))"

subsection \<open>Streams\<close>

function connect_loop :: "Fd \<Rightarrow> cstring \<Rightarrow> bytes \<Rightarrow> unit io" where
  "connect_loop fd path addr k =
     (case k_script k of
        [] \<Rightarrow> None
      | r # rs \<Rightarrow>
          let k = k\<lparr>k_script := rs, k_trace := k_trace k @ [(SysConnect fd (addressed addr), r)]\<rparr> in
          case r of
            SysOk _ \<Rightarrow> give () k
          | SysErr e \<Rightarrow>
              if e = EINTR then connect_loop fd path addr k
              else throw_errno e (lit ''connect('' @ path @ lit '')'') k)"
  by pat_completeness auto

termination
  by (relation "measure (\<lambda>(fd, path, addr, k). length (k_script k))") auto

declare connect_loop.simps [simp del]

definition stream_connect :: "cstring \<Rightarrow> Fd io" where
  "stream_connect path =
     andThen (make_address path) (\<lambda>addr.
     andThen make_socket (\<lambda>fd.
       owned fd (andThen (connect_loop fd path addr) (\<lambda>_. give fd))))"

definition SO_RCVTIMEO :: int where "SO_RCVTIMEO = 20"
definition SO_SNDTIMEO :: int where "SO_SNDTIMEO = 21"

definition timeval_of :: "int \<Rightarrow> int \<times> int" where
  "timeval_of millis = (millis sdiv 1000, millis smod 1000 * 1000)"

definition set_timeouts :: "int \<Rightarrow> int \<Rightarrow> Fd \<Rightarrow> unit io" where
  "set_timeouts receive send fd =
     (let apply = (\<lambda>option duration name.
        andThen (call (SysSetsockopt fd option (timeval_of duration))) (\<lambda>r. case r of
            SysErr e \<Rightarrow> throw_errno e name
          | SysOk _ \<Rightarrow> give ()))
      in andThen (apply SO_RCVTIMEO receive (lit ''setsockopt(SO_RCVTIMEO)''))
           (\<lambda>_. apply SO_SNDTIMEO send (lit ''setsockopt(SO_SNDTIMEO)'')))"

definition SHUT_WR :: int where "SHUT_WR = 1"
definition SHUT_RDWR :: int where "SHUT_RDWR = 2"

definition shutdown_write :: "Fd \<Rightarrow> kernel \<Rightarrow> kernel" where
  "shutdown_write fd k = (if fd_valid fd then note_call (SysShutdown fd SHUT_WR) k else k)"

subsection \<open>Listeners\<close>

record UnixListener =
  ls_fd :: Fd
  ls_path :: cstring

text \<open>The part of \<open>bind\<close> that deals with a file in the way.\<close>

definition clear_stale :: "cstring \<Rightarrow> unit io" where
  "clear_stale path =
     andThen (call (SysAccess (c_str path))) (\<lambda>r. case r of
       SysErr _ \<Rightarrow> give ()
     | SysOk _ \<Rightarrow>
         andThen (socket_file_is_stale path) (\<lambda>stale.
           if \<not> stale
           then throw_errno EADDRINUSE (path @ lit '' is already served by a running daemon'')
           else andThen (call (SysUnlink (c_str path))) (\<lambda>r. case r of
               SysOk _ \<Rightarrow> give ()
             | SysErr e \<Rightarrow> if e \<noteq> ENOENT then throw_errno e (lit ''unlink('' @ path @ lit '')'') else give ())))"

definition listener_bind :: "cstring \<Rightarrow> int \<Rightarrow> UnixListener io" where
  "listener_bind path backlog =
     andThen (clear_stale path) (\<lambda>_.
     andThen (make_address path) (\<lambda>addr.
     andThen make_socket (\<lambda>fd.
       owned fd (\<lambda>k.
         let previous_umask = k_umask k;
             k = set_umask 127 k
         in andThen (call (SysBind fd (addressed addr) 127)) (\<lambda>bound k.
              let k = set_umask previous_umask k in
              (case bound of
                 SysErr e \<Rightarrow> throw_errno e (lit ''bind('' @ path @ lit '')'') k
               | SysOk _ \<Rightarrow>
                   andThen (call (SysListen fd backlog)) (\<lambda>r. case r of
                       SysErr e \<Rightarrow> (\<lambda>k. throw_errno e (lit ''listen('' @ path @ lit '')'')
                                          (note_call (SysUnlink (c_str path)) k))
                     | SysOk _ \<Rightarrow> give \<lparr>ls_fd = fd, ls_path = path\<rparr>) k)) k))))"

definition listener_close :: "UnixListener \<Rightarrow> kernel \<Rightarrow> UnixListener \<times> kernel" where
  "listener_close l k =
     (let (fd, k) = fd_close (ls_fd l) k in
      if ls_path l \<noteq> []
      then (\<lparr>ls_fd = fd, ls_path = []\<rparr>, note_call (SysUnlink (c_str (ls_path l))) k)
      else (l\<lparr>ls_fd := fd\<rparr>, k))"

definition listener_move :: "UnixListener \<Rightarrow> UnixListener \<times> UnixListener" where
  "listener_move other = (other, \<lparr>ls_fd = kInvalid, ls_path = []\<rparr>)"

definition listener_move_assign ::
  "UnixListener \<Rightarrow> UnixListener \<Rightarrow> kernel \<Rightarrow> (UnixListener \<times> UnixListener) \<times> kernel" where
  "listener_move_assign this other k =
     (let (_, k) = listener_close this k in ((other, \<lparr>ls_fd = kInvalid, ls_path = []\<rparr>), k))"

function accept_loop :: "Fd \<Rightarrow> Fd io" where
  "accept_loop fd k =
     (case k_script k of
        [] \<Rightarrow> None
      | r # rs \<Rightarrow>
          let k = k\<lparr>k_script := rs, k_trace := k_trace k @ [(SysAccept4 fd, r)]\<rparr> in
          case r of
            SysOk client \<Rightarrow> give (int client) k
          | SysErr e \<Rightarrow> if e = EINTR then accept_loop fd k else throw_errno e (lit ''accept4'') k)"
  by pat_completeness auto

termination
  by (relation "measure (\<lambda>(fd, k). length (k_script k))") auto

declare accept_loop.simps [simp del]

definition listener_accept :: "UnixListener \<Rightarrow> Fd io" where
  "listener_accept l = accept_loop (ls_fd l)"

subsection \<open>What a trace shows\<close>

text \<open>The descriptors a trace opened and has not closed.\<close>

fun open_fds :: "(syscall \<times> sys_outcome) list \<Rightarrow> int list \<Rightarrow> int list" where
  "open_fds [] fds = fds"
| "open_fds ((SysSocket, SysOk fd) # cs) fds = open_fds cs (fds @ [int fd])"
| "open_fds ((SysAccept4 l, SysOk fd) # cs) fds = open_fds cs (fds @ [int fd])"
| "open_fds ((SysClose fd, r) # cs) fds = open_fds cs (remove1 fd fds)"
| "open_fds (_ # cs) fds = open_fds cs fds"

text \<open>Every unlink comes after a probe that was refused or after the bind that created the file.\<close>

fun unlinks_justified :: "bool \<Rightarrow> (syscall \<times> sys_outcome) list \<Rightarrow> bool" where
  "unlinks_justified ok [] \<longleftrightarrow> True"
| "unlinks_justified ok ((SysConnect fd p, SysErr e) # cs) \<longleftrightarrow> unlinks_justified (e = ECONNREFUSED) cs"
| "unlinks_justified ok ((SysConnect fd p, SysOk n) # cs) \<longleftrightarrow> unlinks_justified False cs"
| "unlinks_justified ok ((SysBind fd p m, SysOk n) # cs) \<longleftrightarrow> unlinks_justified True cs"
| "unlinks_justified ok ((SysUnlink p, r) # cs) \<longleftrightarrow> ok \<and> unlinks_justified False cs"
| "unlinks_justified ok (_ # cs) \<longleftrightarrow> unlinks_justified ok cs"

fun private_binds :: "(syscall \<times> sys_outcome) list \<Rightarrow> bool" where
  "private_binds [] \<longleftrightarrow> True"
| "private_binds ((SysBind fd p m, r) # cs) \<longleftrightarrow> m = 127 \<and> private_binds cs"
| "private_binds (_ # cs) \<longleftrightarrow> private_binds cs"

definition new_calls :: "kernel \<Rightarrow> kernel \<Rightarrow> (syscall \<times> sys_outcome) list" where
  "new_calls k k' = drop (length (k_trace k)) (k_trace k')"

lemmas io_simps = give_def throw_errno_def andThen_def call_def note_call_def set_umask_def fd_close_def
  scoped_def owned_def kInvalid_def

lemma addressed_path: "length path \<le> 107 \<Longrightarrow> addressed (path @ replicate (108 - length path) 0) = c_str path"
proof -
  assume "length path \<le> 107"
  then have "c_str (path @ replicate (108 - length path) 0) = c_str path"
    by (auto simp: c_str_def takeWhile_append takeWhile_eq_all_conv [THEN iffD2])
  moreover have "take (length (c_str path)) (path @ zs) = c_str path" for zs
  proof -
    have "path = c_str path @ dropWhile (\<lambda>b. b \<noteq> 0) path" by (simp add: c_str_def)
    then have "path @ zs = c_str path @ (dropWhile (\<lambda>b. b \<noteq> 0) path @ zs)" by (metis append_assoc)
    then show ?thesis by (metis append_eq_conv_conj)
  qed
  ultimately show ?thesis unfolding addressed_def address_length_def by (simp del: take_append)
qed

lemma timeval_exact: "fst (timeval_of millis) * 1000000 + snd (timeval_of millis) = millis * 1000"
proof -
  have "millis sdiv 1000 * 1000 + millis smod 1000 = millis" 
  proof (cases "0 \<le> millis")
    case False
    then show ?thesis by (simp add: signed_divide_int_def signed_modulo_int_def sgn_if)
        (use div_mult_mod_eq [of "- millis" 1000] in linarith)
  qed (simp add: signed_divide_int_def signed_modulo_int_def sgn_if)
  then show ?thesis by (simp add: timeval_of_def)
qed


text \<open>A start beside a stale file: the probe is refused, the file removed, the bind works, the listen fails.\<close>

definition demo_kernel :: kernel where
  "demo_kernel = \<lparr>k_script = [SysOk 0, SysOk 3, SysErr ECONNREFUSED, SysOk 0, SysOk 3, SysOk 0, SysErr EINVAL],
     k_trace = [], k_umask = 18\<rparr>"


end
