(* ===== verification/Serve.thy ===== *)
theory Serve
  imports Framing Protobuf_Codec Handler
begin

section \<open>Serving one connection (Server::serve_connection, src/daemon/server.cpp)\<close>

text \<open>
  The loop a worker runs for one client. A turn of the loop is two steps, because other workers run
  between them: \<open>serve_receive\<close> reads a frame, decodes it and calls the handler, \<open>serve_reply\<close> writes the
  response. \<open>serve_loop\<close> is the loop itself for one connection; the clock reading of its k-th turn is an
  argument. None means that a read or write blocks for ever.
\<close>

subsection \<open>Streams that end or run on\<close>

text \<open>The bytes left of a stream never grow, and a frame that was read is gone.\<close>

lemma read_exact_incoming:
  assumes "read_exact want buf es = Some (r, buf', es')" "want \<le> length buf"
  shows "length (incoming es') + transferred r = length (incoming es)" "io_ok r \<Longrightarrow> transferred r = want"
  using read_loop_sound [OF assms(1) [unfolded read_exact_def] _ assms(2)] by (auto simp: io_ok_def)

lemma read_frame_incoming:
  assumes "read_frame s buf = Some (r, buf', s')"
  shows "frame_ok r \<Longrightarrow> length (incoming (sk_in s')) < length (incoming (sk_in s))"
    "sk_out s' = sk_out s" "sk_sent s' = sk_sent s"
proof -
  obtain io p es where 1: "read_exact kLengthPrefixSize (replicate kLengthPrefixSize 0) (sk_in s) = Some (io, p, es)"
    using assms by (auto simp: read_frame_def split: option.splits)
  note e = read_exact_incoming [OF 1]
  show "sk_out s' = sk_out s" "sk_sent s' = sk_sent s"
    using assms 1 by (auto simp: read_frame_def Let_def split: option.splits if_splits)
  assume ok: "frame_ok r"
  have io: "io_ok io"
    using assms 1 ok by (auto simp: read_frame_def Let_def frame_ok_def from_io_def io_ok_def split: if_splits IoStatus.splits)
  then have "length (incoming es) < length (incoming (sk_in s))" using e by (simp add: kLengthPrefixSize_def)
  moreover have "length (incoming (sk_in s')) \<le> length (incoming es)"
  proof (cases "load_be_u32 p < kMinFrameSize \<or> kMaxFrameSize < load_be_u32 p")
    case True
    then show ?thesis using assms 1 io by (auto simp: read_frame_def Let_def)
  next
    case False
    let ?b = "resize buf (unat (load_be_u32 p))"
    obtain io2 b es2 where 2: "read_exact (length ?b) ?b es = Some (io2, b, es2)" "sk_in s' = es2"
      using assms 1 io False by (auto simp: read_frame_def Let_def split: option.splits if_splits)
    then show ?thesis using read_exact_incoming(1) [OF 2(1)] by simp
  qed
  ultimately show "length (incoming (sk_in s')) < length (incoming (sk_in s))" by simp
qed

lemma read_exact_append:
  "read_exact want buf es = Some (r, buf', es') \<Longrightarrow> read_exact want buf (es @ t) = Some (r, buf', es' @ t)"
  unfolding read_exact_def by (rule read_loop_append)

lemma read_frame_append:
  assumes "read_frame (s\<lparr>sk_in := es\<rparr>) buf = Some (r, buf', s')"
  shows "read_frame (s\<lparr>sk_in := es @ t\<rparr>) buf = Some (r, buf', s'\<lparr>sk_in := sk_in s' @ t\<rparr>)"
proof -
  obtain io p es1 where 1: "read_exact kLengthPrefixSize (replicate kLengthPrefixSize 0) es = Some (io, p, es1)"
    using assms by (auto simp: read_frame_def split: option.splits)
  note a = read_exact_append [OF 1, of t]
  show ?thesis
  proof (cases "\<not> io_ok io \<or> load_be_u32 p < kMinFrameSize \<or> kMaxFrameSize < load_be_u32 p")
    case True
    then show ?thesis using assms 1 a by (auto simp: read_frame_def Let_def)
  next
    case False
    let ?b = "resize buf (unat (load_be_u32 p))"
    obtain io2 b es2 where 2: "read_exact (length ?b) ?b es1 = Some (io2, b, es2)"
      using assms 1 False by (auto simp: read_frame_def Let_def split: option.splits)
    show ?thesis using assms 1 a False 2 read_exact_append [OF 2, of t] by (auto simp: read_frame_def Let_def)
  qed
qed

text \<open>A stream that ends never blocks a read.\<close>

lemma sys_read_ends: "Eof \<in> set es \<Longrightarrow> \<exists>x es'. sys_read n es = Some (x, es') \<and> Eof \<in> set es'"
  by (cases "(n, es)" rule: sys_read.cases) auto

lemma read_loop_ends:
  "Eof \<in> set es \<Longrightarrow> \<exists>r buf' es'. read_loop want buf moved es = Some (r, buf', es') \<and> Eof \<in> set es'"
proof (induction want buf moved es rule: read_loop.induct)
  case (1 want buf moved es)
  show ?case
  proof (cases "moved < want")
    case True
    obtain x es1 where x: "sys_read (want - moved) es = Some (x, es1)" "Eof \<in> set es1"
      using sys_read_ends [OF 1(3)] by blast
    show ?thesis
      using 1(1) [OF True x(1) refl] 1(2) [OF True x(1) refl] True x
      by (subst read_loop.simps) (auto split: rd_result.splits)
  next
    case False
    then show ?thesis using 1(3) by (subst read_loop.simps) simp
  qed
qed

lemma read_frame_ends:
  assumes "Eof \<in> set (sk_in s)"
  shows "\<exists>r buf' s'. read_frame s buf = Some (r, buf', s') \<and> Eof \<in> set (sk_in s')"
proof -
  obtain io p es where 1: "read_exact kLengthPrefixSize (replicate kLengthPrefixSize 0) (sk_in s) = Some (io, p, es)" "Eof \<in> set es"
    using read_loop_ends [OF assms] unfolding read_exact_def by blast
  obtain io2 b es2 where 2: "read_exact (unat (load_be_u32 p)) (resize buf (unat (load_be_u32 p))) es = Some (io2, b, es2)"
      "Eof \<in> set es2"
    using read_loop_ends [OF 1(2)] unfolding read_exact_def by blast
  show ?thesis using 1 2 by (auto simp: read_frame_def Let_def)
qed

subsection \<open>The connection\<close>

record conn =
  cn_stream :: socket
  cn_request_body :: bytes
  cn_response_body :: bytes
  cn_served :: u64

definition conn_make :: "socket \<Rightarrow> conn" where
  "conn_make stream = \<lparr>cn_stream = stream, cn_request_body = [], cn_response_body = [], cn_served = 0\<rparr>"

text \<open>How the first half of a turn ends: the loop breaks, or there is a response to write, which counts as served or not.\<close>

datatype received = HangUp | Reply Response bool

definition serve_receive ::
  "codec \<Rightarrow> libm \<Rightarrow> noise_env \<Rightarrow> Timestamp \<Rightarrow> conn \<Rightarrow> Handler \<Rightarrow> (received \<times> conn \<times> Handler) option" where
  "serve_receive codec m env now c h =
     (case read_frame (cn_stream c) (cn_request_body c) of
        None \<Rightarrow> None
      | Some (fr, body, stream) \<Rightarrow>
          let c = c\<lparr>cn_stream := stream, cn_request_body := body\<rparr> in
          if fr_status fr = FrPeerClosed then Some (HangUp, c, h)
          else if \<not> frame_ok fr then Some (HangUp, c, h)
          else
            let (err, request) = dec_request codec body default_request in
            if err \<noteq> NoError then
              if err \<noteq> FieldTooLarge then Some (HangUp, c, h)
              else Some (Reply (make_error (request_id request) InvalidRequest (decode_error_to_string err)) False, c, h)
            else
              let (response, h) = handle m env now request h in Some (Reply response True, c, h))"

definition serve_reply :: "codec \<Rightarrow> Response \<Rightarrow> bool \<Rightarrow> conn \<Rightarrow> (bool \<times> conn) option" where
  "serve_reply codec response counts c =
     (case write_message (enc_response codec) (cn_stream c) response (cn_response_body c) of
        None \<Rightarrow> None
      | Some (fr, buf, stream) \<Rightarrow>
          let c = c\<lparr>cn_stream := stream, cn_response_body := buf\<rparr> in
          if \<not> frame_ok fr then Some (False, c)
          else Some (True, if counts then c\<lparr>cn_served := cn_served c + 1\<rparr> else c))"

lemma serve_receive_shrinks:
  assumes "serve_receive codec m env now c h = Some (Reply r b, c', h')"
  shows "length (incoming (sk_in (cn_stream c'))) < length (incoming (sk_in (cn_stream c)))"
proof -
  obtain fr body stream where f: "read_frame (cn_stream c) (cn_request_body c) = Some (fr, body, stream)"
    using assms by (auto simp: serve_receive_def split: option.splits)
  have "frame_ok fr \<and> cn_stream c' = stream"
    using assms f by (auto simp: serve_receive_def Let_def split: if_splits prod.splits)
  then show ?thesis using read_frame_incoming(1) [OF f] by simp
qed

lemma write_message_in:
  "write_message encode s m scratch = Some (r, scratch', s') \<Longrightarrow> sk_in s' = sk_in s"
  by (auto simp: write_message_def write_prefixed_def send_framed_def Let_def
      dest!: write_all_sound(3) split: if_splits option.splits)

lemma serve_reply_in:
  "serve_reply codec r b c = Some (ok, c') \<Longrightarrow> sk_in (cn_stream c') = sk_in (cn_stream c)"
  by (auto simp: serve_reply_def Let_def dest!: write_message_in split: option.splits if_splits)

function serve_loop ::
  "codec \<Rightarrow> libm \<Rightarrow> noise_env \<Rightarrow> (nat \<Rightarrow> Timestamp) \<Rightarrow> nat \<Rightarrow> conn \<Rightarrow> Handler \<Rightarrow> (conn \<times> Handler) option" where
  "serve_loop codec m env clock k c h =
     (case serve_receive codec m env (clock k) c h of
        None \<Rightarrow> None
      | Some (HangUp, c, h) \<Rightarrow> Some (c, h)
      | Some (Reply response counts, c, h) \<Rightarrow>
          (case serve_reply codec response counts c of
             None \<Rightarrow> None
           | Some (ok, c) \<Rightarrow> if ok then serve_loop codec m env clock (Suc k) c h else Some (c, h)))"
  by pat_completeness auto

termination
  by (relation "measure (\<lambda>(codec, m, env, clock, k, c, h). length (incoming (sk_in (cn_stream c))))")
    (auto dest!: serve_receive_shrinks serve_reply_in)

declare serve_loop.simps [simp del]

subsection \<open>Output that goes through\<close>

text \<open>The script left after the kernel has taken a number of bytes, and whether it takes writes of these sizes in turn.\<close>

fun drain :: "nat \<Rightarrow> wr_event list \<Rightarrow> wr_event list option" where
  "drain 0 ws = Some ws"
| "drain (Suc n) [] = None"
| "drain (Suc n) (Accept k # ws) = (if k = 0 then None else drain (Suc n - k) ws)"
| "drain (Suc n) (WriteErr e # ws) = (if e = EINTR then drain (Suc n) ws else None)"

fun lets_through :: "wr_event list \<Rightarrow> nat list \<Rightarrow> bool" where
  "lets_through ws [] \<longleftrightarrow> True"
| "lets_through ws (n # ns) \<longleftrightarrow> (case drain n ws of None \<Rightarrow> False | Some ws' \<Rightarrow> lets_through ws' ns)"

lemma write_loop_drain:
  "drain (length data - moved) ws = Some ws' \<Longrightarrow> moved \<le> length data \<Longrightarrow>
   write_loop data moved ws sent
     = Some (\<lparr>io_status = IoOk, io_error = 0, transferred = length data\<rparr>, ws', sent @ drop moved data)"
proof (induction data moved ws sent rule: write_loop.induct)
  case (1 data moved sent)
  then show ?case by (cases "length data - moved") auto
next
  case (2 data moved k ws sent)
  show ?case
  proof (cases "moved < length data")
    case True
    then obtain n where n: "length data - moved = Suc n" by (metis diff_is_0_eq not0_implies_Suc not_le)
    let ?n = "min k (length data - moved)"
    have k: "0 < k" "drain (Suc n - k) ws = Some ws'" using 2(2) n by (auto split: if_splits)
    moreover have "length data - (moved + ?n) = Suc n - k" using n by linarith
    ultimately have "drain (length data - (moved + ?n)) ws = Some ws'" by simp
    then have "write_loop data (moved + ?n) ws (sent @ take ?n (drop moved data))
       = Some (\<lparr>io_status = IoOk, io_error = 0, transferred = length data\<rparr>, ws',
           (sent @ take ?n (drop moved data)) @ drop (moved + ?n) data)"
      using 2(1) [OF True refl] k n by simp
    moreover have "take ?n (drop moved data) @ drop (moved + ?n) data = drop moved data"
      by (metis append_take_drop_id drop_drop add.commute)
    ultimately show ?thesis using True k n by (simp add: Let_def)
  next
    case False
    then have "ws' = Accept k # ws" using 2(2) by simp
    then show ?thesis using False 2(3) by simp
  qed
next
  case (3 data moved e ws sent)
  show ?case
  proof (cases "moved < length data")
    case True
    then obtain n where "length data - moved = Suc n" by (metis diff_is_0_eq not0_implies_Suc not_le)
    then show ?thesis using 3 True by (auto split: if_splits)
  next
    case False
    then have "ws' = WriteErr e # ws" using 3(2) by simp
    then show ?thesis using False 3(3) by simp
  qed
qed

lemma write_message_goes_through:
  assumes "\<And>out. encode m out = out @ body" "\<not> bad_size (length body)" "drain (length (frame body)) (sk_out s) = Some ws"
  shows "write_message encode s m scratch
     = Some (\<lparr>fr_status = FrOk, fr_io_error = 0, fr_length = word_of_nat (length body)\<rparr>, frame body,
             s\<lparr>sk_out := ws, sk_sent := sk_sent s @ frame body\<rparr>)"
proof -
  have "write_all (frame body) s
     = Some (\<lparr>io_status = IoOk, io_error = 0, transferred = length (frame body)\<rparr>,
             s\<lparr>sk_out := ws, sk_sent := sk_sent s @ frame body\<rparr>)"
    using write_loop_drain [of "frame body" 0 "sk_out s" ws "sk_sent s"] assms(3) by (simp add: write_all_def)
  then show ?thesis
    by (simp add: write_message_eq [of encode m body, OF assms(1)] assms(2) send_framed_def from_io_def)
qed

subsection \<open>What serving relies on\<close>

text \<open>
  The contract between the connection loop and a codec: requests in \<open>okq\<close> decode from their encoding,
  a response is appended to whatever the buffer holds, and both fit in a frame.
\<close>

locale served_codec =
  fixes codec :: codec and okq :: "Request \<Rightarrow> bool" and okr :: "Response \<Rightarrow> bool"
  assumes decodes: "okq q \<Longrightarrow> dec_request codec (enc_request codec q []) out = (NoError, q)"
    and request_fits: "okq q \<Longrightarrow> \<not> bad_size (length (enc_request codec q []))"
    and appends: "enc_response codec r buf = buf @ enc_response codec r []"
    and response_fits: "okr r \<Longrightarrow> \<not> bad_size (length (enc_response codec r []))"
begin

lemma receive_request:
  assumes "okq q" "sk_in (cn_stream c) = es @ t" "benign es" "incoming es = frame (enc_request codec q []) @ rest"
    and "handle m env now q h = (resp, h')"
  shows "\<exists>c' es'. serve_receive codec m env now c h = Some (Reply resp True, c', h')
      \<and> sk_in (cn_stream c') = es' @ t \<and> benign es' \<and> incoming es' = rest
      \<and> sk_out (cn_stream c') = sk_out (cn_stream c) \<and> sk_sent (cn_stream c') = sk_sent (cn_stream c)
      \<and> cn_served c' = cn_served c"
proof -
  let ?b = "enc_request codec q []"
  obtain s' where r: "read_frame ((cn_stream c)\<lparr>sk_in := es\<rparr>) (cn_request_body c)
        = Some (\<lparr>fr_status = FrOk, fr_io_error = 0, fr_length = word_of_nat (length ?b)\<rparr>, ?b, s')"
      "benign (sk_in s')" "incoming (sk_in s') = rest" "sk_out s' = sk_out (cn_stream c)" "sk_sent s' = sk_sent (cn_stream c)"
    using read_frame_Ok [of "(cn_stream c)\<lparr>sk_in := es\<rparr>" ?b rest "cn_request_body c"] assms request_fits by auto
  have "(cn_stream c)\<lparr>sk_in := es @ t\<rparr> = cn_stream c" using assms(2) by simp
  then show ?thesis
    using read_frame_append [OF r(1), of t] r(2-) decodes [OF assms(1)] assms(5)
    by (auto simp: serve_receive_def frame_ok_def Let_def)
qed

lemma reply_written:
  assumes "okr r" "drain (length (frame (enc_response codec r []))) (sk_out (cn_stream c)) = Some ws"
  shows "\<exists>c'. serve_reply codec r True c = Some (True, c')
      \<and> sk_out (cn_stream c') = ws \<and> sk_sent (cn_stream c') = sk_sent (cn_stream c) @ frame (enc_response codec r [])
      \<and> sk_in (cn_stream c') = sk_in (cn_stream c) \<and> cn_served c' = cn_served c + 1"
  using write_message_goes_through [of "enc_response codec" r, OF appends response_fits [OF assms(1)] assms(2)]
  by (auto simp: serve_reply_def frame_ok_def Let_def)

lemma receive_end:
  assumes "sk_in (cn_stream c) = es @ Eof # t" "benign es" "incoming es = []"
  shows "\<exists>c'. serve_receive codec m env now c h = Some (HangUp, c', h)
      \<and> sk_sent (cn_stream c') = sk_sent (cn_stream c) \<and> cn_served c' = cn_served c"
proof -
  obtain buf where "read_exact kLengthPrefixSize (replicate kLengthPrefixSize 0) (sk_in (cn_stream c))
      = Some (\<lparr>io_status = IoPeerClosed, io_error = 0, transferred = 0\<rparr>, buf, Eof # t)"
    using read_loop_Eof [OF assms(2), of kLengthPrefixSize 0 "replicate kLengthPrefixSize 0" t] assms(1,3)
    by (auto simp: read_exact_def kLengthPrefixSize_def)
  then show ?thesis by (simp add: serve_receive_def read_frame_def io_ok_def from_io_def Let_def)
qed

lemma session:
  assumes "list_all okq reqs" "sk_in (cn_stream c) = es @ Eof # t" "benign es"
    and "incoming es = concat (map (\<lambda>q. frame (enc_request codec q [])) reqs)"
    and "handle_all m env (zip (map clock [k..<k + length reqs]) reqs) h = (resps, h')" "list_all okr resps"
    and "lets_through (sk_out (cn_stream c)) (map (\<lambda>r. length (frame (enc_response codec r []))) resps)"
  shows "\<exists>c'. serve_loop codec m env clock k c h = Some (c', h')
      \<and> sk_sent (cn_stream c') = sk_sent (cn_stream c) @ concat (map (\<lambda>r. frame (enc_response codec r [])) resps)
      \<and> cn_served c' = cn_served c + word_of_nat (length reqs)"
  using assms
proof (induction reqs arbitrary: c es k h resps)
  case Nil
  then have "resps = []" "h' = h" by (simp_all add: handle_all_def)
  moreover obtain c' where "serve_receive codec m env (clock k) c h = Some (HangUp, c', h)"
      "sk_sent (cn_stream c') = sk_sent (cn_stream c)" "cn_served c' = cn_served c"
    using receive_end [of c es t m env "clock k" h] Nil by auto
  ultimately show ?case by (subst serve_loop.simps) simp
next
  case (Cons q reqs)
  obtain r h1 where h: "handle m env (clock k) q h = (r, h1)" by fastforce
  have up: "[k..<k + length (q # reqs)] = k # [Suc k..<Suc k + length reqs]" by (subst upt_conv_Cons) simp_all
  obtain rs where rs: "resps = r # rs" "handle_all m env (zip (map clock [Suc k..<Suc k + length reqs]) reqs) h1 = (rs, h')"
    using Cons.prems(5) h unfolding up by (auto simp: handle_all_def split: prod.splits)
  obtain c1 es1 where 1: "serve_receive codec m env (clock k) c h = Some (Reply r True, c1, h1)"
      "sk_in (cn_stream c1) = es1 @ Eof # t" "benign es1" "incoming es1 = concat (map (\<lambda>q. frame (enc_request codec q [])) reqs)"
      "sk_out (cn_stream c1) = sk_out (cn_stream c)" "sk_sent (cn_stream c1) = sk_sent (cn_stream c)" "cn_served c1 = cn_served c"
    using receive_request [OF _ Cons.prems(2,3) _ h] Cons.prems(1,4) by auto
  obtain ws where ws: "drain (length (frame (enc_response codec r []))) (sk_out (cn_stream c1)) = Some ws"
      "lets_through ws (map (\<lambda>r. length (frame (enc_response codec r []))) rs)"
    using Cons.prems(7) rs(1) 1(5) by (auto split: option.splits)
  obtain c2 where 2: "serve_reply codec r True c1 = Some (True, c2)" "sk_out (cn_stream c2) = ws"
      "sk_sent (cn_stream c2) = sk_sent (cn_stream c1) @ frame (enc_response codec r [])"
      "sk_in (cn_stream c2) = sk_in (cn_stream c1)" "cn_served c2 = cn_served c1 + 1"
    using reply_written [OF _ ws(1)] Cons.prems(6) rs(1) by auto
  obtain c' where "serve_loop codec m env clock (Suc k) c2 h1 = Some (c', h')"
      "sk_sent (cn_stream c') = sk_sent (cn_stream c2) @ concat (map (\<lambda>r. frame (enc_response codec r [])) rs)"
      "cn_served c' = cn_served c2 + word_of_nat (length reqs)"
    using Cons.IH [OF _ _ 1(3,4) rs(2), of c2] Cons.prems(1,6) rs(1) 1(2) 2(2,4) ws(2) by auto
  then show ?case using 1 2 rs(1) by (subst serve_loop.simps) simp
qed

end

subsection \<open>The binary codec fits\<close>

fun small_body :: "ResponseBody \<Rightarrow> bool" where
  "small_body (GetItemResult s it) \<longleftrightarrow> (if s = Ok then item_within_limits it else it = default_item)"
| "small_body (RecommendResult s rs) \<longleftrightarrow> length rs \<le> unat kMaxRecommendCount
     \<and> list_all (\<lambda>r. length (ri_category r) \<le> unat kMaxCategoryLength \<and> length (ri_advertiser r) \<le> unat kMaxAdvertiserLength) rs"
| "small_body (Failure s msg) \<longleftrightarrow> length msg \<le> unat kMaxMessageLength"
| "small_body _ \<longleftrightarrow> True"

lemma concat_bound: "list_all (\<lambda>x. length (f x) \<le> b) xs \<Longrightarrow> length (concat (map f xs)) \<le> length xs * b"
  by (induction xs) auto

lemma be_string_length [simp]: "length (be_string s) = 4 + length s"
  by (simp add: be_string_def)

lemma be_header_length [simp]: "length (be_header t rid) = 16"
  by (simp add: be_header_def)

lemma be_stats_length [simp]: "length (be_stats s) = 120"
  by (simp add: be_stats_def write_stats_def wire_simps)

lemma be_item_length: "length (be_item it) = 40 + length (category it) + length (advertiser it)"
  by (simp add: be_item_def)

lemma be_signal_length: "signal_valid s \<Longrightarrow> length (be_signal s) \<le> 10000"
  using concat_bound [of be_affinity 76 "affinities s"] concat_bound [of be_string 68 "excluded_categories s"]
  by (auto simp: be_signal_def signal_valid_def be_affinity_def list_all_iff)

lemma request_fits_binary:
  "request_body_valid (req_body q) \<Longrightarrow> \<not> bad_size (length (encode_request q []))"
  by (cases "req_body q")
    (auto dest!: be_signal_length simp: bad_size_def encode_request_def wire_simps be_item_length item_within_limits_def Let_def)

lemma response_fits_binary:
  assumes "small_body (resp_body r)"
  shows "\<not> bad_size (length (encode_response r []))"
proof (cases "resp_body r")
  case (RecommendResult s rs)
  have "length (concat (map be_ranked rs)) \<le> length rs * 152"
    using assms RecommendResult by (intro concat_bound) (auto simp: be_ranked_def list_all_iff)
  moreover have "length rs \<le> 100" using assms RecommendResult by simp
  ultimately show ?thesis using RecommendResult by (auto simp: bad_size_def encode_response_def wire_simps Let_def)
qed (use assms in \<open>auto simp: bad_size_def encode_response_def wire_simps be_item_length item_within_limits_def Let_def\<close>)

lemma encode_response_appends: "encode_response r out = out @ encode_response r []"
  by (cases "resp_body r") (simp_all add: encode_response_def wire_simps Let_def)

interpretation bin: served_codec BinaryCodec "\<lambda>q. request_body_valid (req_body q)" "\<lambda>r. small_body (resp_body r)"
proof
  show "dec_request BinaryCodec (enc_request BinaryCodec q []) out = (NoError, q)"
    if "request_body_valid (req_body q)" for q out
    using req.round_trip [OF that] by (simp add: BinaryCodec_def)
  show "enc_response BinaryCodec r buf = buf @ enc_response BinaryCodec r []" for r buf
    using encode_response_appends [of r buf] by (simp add: BinaryCodec_def)
qed (simp_all add: BinaryCodec_def request_fits_binary response_fits_binary)

text \<open>The protobuf codec, for the messages its runtime carries and keeps within a frame.\<close>

interpretation pb: served_codec "ProtobufCodec rt"
  "\<lambda>q. request_body_valid (req_body q) \<and> carries rt (request_envelope q) \<and> \<not> bad_size (length (serialize rt (request_envelope q)))"
  "\<lambda>r. \<not> bad_size (length (serialize rt (response_envelope r)))" for rt
proof
  show "dec_request (ProtobufCodec rt) (enc_request (ProtobufCodec rt) q []) out = (NoError, q)"
    if "request_body_valid (req_body q) \<and> carries rt (request_envelope q) \<and> \<not> bad_size (length (serialize rt (request_envelope q)))"
    for q out
    using pb_req.round_trip [of q rt out] that by (simp add: ProtobufCodec_def)
qed (simp_all add: ProtobufCodec_def pb_encode_request_def pb_encode_response_def append_serialized_def)

subsection \<open>The handler's responses fit\<close>

definition handler_small :: "Handler \<Rightarrow> bool" where
  "handler_small h \<longleftrightarrow> handler_ok h \<and> (\<forall>k v. sharded_peek k (hn_cache h) = Some v \<longrightarrow> item_within_limits v)"

lemma slate_small:
  assumes "handler_small h" "on_recommend m now req h = (RecommendResult s rs, h')"
  shows "small_body (RecommendResult s rs)"
proof (cases rule: on_recommend_cases [of m now req h])
  case (slate chosen store)
  let ?sel = "scan m (inventory (hn_cache h)) (selector_make (hn_scoring h) (rec_signal req) now (ucast (rec_count req)))"
  let ?f = "if rec_dry_run req then accept_dry now else accept_live now"
  have rs: "rs = fst (select m ?sel (Some ?f) (hn_policy h))" using slate assms(2) by simp
  obtain ids answers where "length rs \<le> unat (sel_count ?sel)"
    by (rule select_calls [of ?f "hn_policy h" m ?sel]) (simp add: rs)
  moreover have "sel_count ?sel = ucast (rec_count req)"
    by (simp add: scan_fields selector_make_fields)
  ultimately have "length rs \<le> unat kMaxRecommendCount"
    using slate(4) by (simp add: unat_ucast_u32 word_le_nat_alt)
  moreover have "length (ri_category r) \<le> unat kMaxCategoryLength \<and> length (ri_advertiser r) \<le> unat kMaxAdvertiserLength"
    if "r \<in> set rs" for r
  proof -
    have "rshape r \<in> (\<lambda>item. (item_id item, category item, advertiser item)) ` set (inventory (hn_cache h))"
      using slate_subset [of m "inventory (hn_cache h)" "hn_scoring h" "rec_signal req" now "ucast (rec_count req)" "Some ?f" "hn_policy h"]
        that rs by blast
    then obtain item where "item \<in> set (inventory (hn_cache h))" "ri_category r = category item" "ri_advertiser r = advertiser item"
      by (auto simp: rshape_def)
    then show ?thesis
      using assms(1) inventory_facts(2) [of h item] by (simp add: handler_small_def item_within_limits_def)
  qed
  ultimately show ?thesis by (simp add: list_all_iff)
qed (use assms in simp)

lemma dispatch_small:
  assumes "handler_small h" "request_body_valid body" "dispatch m env now body h = (rb, h')"
  shows "small_body rb" "\<And>k v. sharded_peek k (hn_cache h') = Some v \<Longrightarrow> item_within_limits v"
proof -
  have inv: "sharded_inv (hn_cache h)" using assms(1) by (simp add: handler_small_def handler_ok_def handler_inv_def)
  show "item_within_limits v" if "sharded_peek k (hn_cache h') = Some v" for k v
    using dispatch_items [OF inv assms(3) that] assms(1,2) by (auto simp: handler_small_def)
  show "small_body rb"
  proof (cases body)
    case (GetItem iid)
    then have g: "on_get iid h = (rb, h')" using assms(3) by (simp add: dispatch_def)
    show ?thesis
      by (rule on_get_cases [OF inv, of iid])
        (use g assms(1) in \<open>auto simp: handler_small_def status_defs split: option.splits\<close>)
  next
    case (RecommendBody req)
    then have r: "on_recommend m now req h = (rb, h')" using assms(3) by (simp add: dispatch_def)
    show ?thesis
    proof (cases rule: on_recommend_cases [of m now req h])
      case (refused msg)
      then have "rec_count req = 0" using assms(2) RecommendBody by auto
      then show ?thesis using r by (auto simp: on_recommend_def lit_def)
    next
      case (slate chosen store)
      then show ?thesis using r slate_small [OF assms(1)] by simp
    qed
  qed (use assms(3) in \<open>auto simp: dispatch_def on_put_def on_delete_def on_stats_def lit_def Let_def
      split: if_splits prod.splits\<close>)
qed

lemma handle_small:
  assumes "handler_small h" "request_body_valid (req_body q)" "handle m env now q h = (resp, h')"
  shows "handler_small h'" "small_body (resp_body resp)"
proof -
  note d = handle_dispatch(1) [OF assms(3)]
  have s: "handler_small (h\<lparr>hn_requests := hn_requests h + 1\<rparr>)"
    using assms(1) by (simp add: handler_small_def handler_ok_def handler_inv_def)
  have "handler_ok h'" using handle_ok [OF _ assms(3)] assms(1) by (simp add: handler_small_def)
  then show "handler_small h'" using dispatch_small(2) [OF s assms(2) d] by (auto simp: handler_small_def)
  show "small_body (resp_body resp)" by (rule dispatch_small(1) [OF s assms(2) d])
qed

lemma handle_all_small:
  assumes "handler_small h" "list_all (\<lambda>(now, q). request_body_valid (req_body q)) reqs" "handle_all m env reqs h = (resps, h')"
  shows "handler_small h' \<and> list_all (\<lambda>r. small_body (resp_body r)) resps"
  using assms
proof (induction reqs arbitrary: h resps)
  case (Cons x reqs)
  obtain now q where x: "x = (now, q)" by fastforce
  obtain r h1 where 1: "handle m env now q h = (r, h1)" by fastforce
  obtain rs where 2: "handle_all m env reqs h1 = (rs, h')" "resps = r # rs"
    using Cons.prems(3) 1 x by (auto simp: handle_all_def split: prod.splits)
  have "request_body_valid (req_body q)" using Cons.prems(2) x by simp
  note s = handle_small [OF Cons.prems(1) this 1]
  show ?case using Cons.IH [OF s(1) _ 2(1)] s(2) 2(2) Cons.prems(2) by simp
qed (simp add: handle_all_def)

lemma handler_make_small:
  assumes "handler_make hasher env capacity n scoring policy privacy = Inr h"
  shows "handler_small h"
  using handler_make_ok [OF assms] handler_make_inv(5) [OF assms] by (simp add: handler_small_def)

subsection \<open>Connections that are shut down\<close>

text \<open>What one turn does to the handler: nothing, or one call.\<close>

lemma serve_receive_handles:
  assumes "serve_receive codec m env now c h = Some (x, c', h')"
  shows "(h' = h \<and> (\<forall>r. x \<noteq> Reply r True)) \<or>
    (\<exists>q r. dec_request codec (cn_request_body c') default_request = (NoError, q) \<and> handle m env now q h = (r, h') \<and> x = Reply r True)"
  using assms by (auto simp: serve_receive_def Let_def split: option.splits if_splits prod.splits)

lemma serve_receive_out:
  assumes "serve_receive codec m env now c h = Some (x, c', h')"
  shows "sk_out (cn_stream c') = sk_out (cn_stream c)" "sk_sent (cn_stream c') = sk_sent (cn_stream c)" "cn_served c' = cn_served c"
  using assms read_frame_incoming(2,3)
  by (fastforce simp: serve_receive_def Let_def split: option.splits if_splits prod.splits)+

lemma serve_receive_ends:
  assumes "Eof \<in> set (sk_in (cn_stream c))"
  shows "\<exists>x c' h'. serve_receive codec m env now c h = Some (x, c', h')"
proof -
  obtain fr buf s where "read_frame (cn_stream c) (cn_request_body c) = Some (fr, buf, s)"
    using read_frame_ends [OF assms] by blast
  then show ?thesis by (auto simp: serve_receive_def Let_def split: prod.splits)
qed

text \<open>Writing to a socket whose sending side is shut down fails at once.\<close>

lemma serve_reply_broken:
  assumes "sk_out (cn_stream c) = WriteErr EPIPE # ws" "\<And>buf. enc_response codec r buf = buf @ enc_response codec r []"
  shows "\<exists>c'. serve_reply codec r b c = Some (False, c') \<and> sk_sent (cn_stream c') = sk_sent (cn_stream c) \<and> cn_served c' = cn_served c"
proof -
  let ?body = "enc_response codec r []"
  have "write_all (frame ?body) (cn_stream c)
      = Some (\<lparr>io_status = IoPeerClosed, io_error = 0, transferred = 0\<rparr>, (cn_stream c)\<lparr>sk_out := ws\<rparr>)"
    using assms(1) by (simp add: write_all_def frame_def errno_defs)
  then show ?thesis
    by (auto simp: serve_reply_def write_message_eq [of "enc_response codec" r ?body, OF assms(2)] send_framed_def
        oversized_def from_io_def frame_ok_def Let_def)
qed

subsection \<open>Properties\<close>

text \<open>
  C6. A client session, end to end: when the peer sends any number of requests within the limits,
  as binary frames in whatever fragments the kernel delivers them, and then closes, and the kernel
  takes the replies, the connection loop ends, having called the handler once per request in order
  and having sent exactly the frames of the handler's responses, in order and nothing else.
\<close>

theorem session_served:
  assumes "handler_small h" and "list_all (\<lambda>q. request_body_valid (req_body q)) reqs"
    and "sk_in stream = es @ Eof # t" and "benign es"
    and "incoming es = concat (map (\<lambda>q. frame (encode_request q [])) reqs)"
    and "handle_all m env (zip (map clock [0..<length reqs]) reqs) h = (resps, h')"
    and "lets_through (sk_out stream) (map (\<lambda>r. length (frame (encode_response r []))) resps)"
  shows "\<exists>c. serve_loop BinaryCodec m env clock 0 (conn_make stream) h = Some (c, h')
      \<and> sk_sent (cn_stream c) = sk_sent stream @ concat (map (\<lambda>r. frame (encode_response r [])) resps)
      \<and> cn_served c = word_of_nat (length reqs)"
proof -
  have "list_all (\<lambda>(now, q). request_body_valid (req_body q)) (zip (map clock [0..<length reqs]) reqs)"
    using assms(2) by (auto simp: list_all_iff dest: set_zip_rightD)
  from handle_all_small [OF assms(1) this assms(6)] have "list_all (\<lambda>r. small_body (resp_body r)) resps" by simp
  then show ?thesis
    using bin.session [of reqs "conn_make stream" es t m env clock 0 h resps h'] assms(2-)
    by (simp add: conn_make_def BinaryCodec_def)
qed

text \<open>
  Shutdown frees the worker: once a connection has been shut down, so that its stream ends
  somewhere and its sending side is broken, the connection loop ends whatever the client had sent before,
  with either codec, having called the handler at most once more and having sent nothing more.
\<close>

lemma stopped_connection_ends:
  assumes "Eof \<in> set (sk_in (cn_stream c))" and "sk_out (cn_stream c) = WriteErr EPIPE # ws"
    and "codec \<in> {BinaryCodec, ProtobufCodec rt}"
  shows "\<exists>c' h'. serve_loop codec m env clock k c h = Some (c', h')
      \<and> sk_sent (cn_stream c') = sk_sent (cn_stream c) \<and> cn_served c' = cn_served c
      \<and> (h' = h \<or> (\<exists>q r. handle m env (clock k) q h = (r, h')))"
proof -
  have a: "enc_response codec r buf = buf @ enc_response codec r []" for r buf
    using assms(3) bin.appends [of r buf] pb.appends [of rt r buf] by auto
  obtain x c1 h1 where x: "serve_receive codec m env (clock k) c h = Some (x, c1, h1)"
    using serve_receive_ends [OF assms(1)] by blast
  note out = serve_receive_out [OF x]
  show ?thesis
  proof (cases x)
    case HangUp
    then have "serve_loop codec m env clock k c h = Some (c1, h1)" using x by (subst serve_loop.simps) simp
    then show ?thesis using out(2,3) serve_receive_handles [OF x] by blast
  next
    case (Reply r b)
    obtain c2 where 2: "serve_reply codec r b c1 = Some (False, c2)" "sk_sent (cn_stream c2) = sk_sent (cn_stream c1)"
        "cn_served c2 = cn_served c1"
      using serve_reply_broken [of c1 ws codec r b, OF _ a] out(1) assms(2) by auto
    then have "serve_loop codec m env clock k c h = Some (c2, h1)" using x Reply by (subst serve_loop.simps) simp
    then show ?thesis using 2(2,3) out(2,3) serve_receive_handles [OF x] by (metis (no_types))
  qed
qed

text \<open>A session of one request for the witnesses, in two fragments with an interruption between them.\<close>

definition demo_stream :: socket where
  "demo_stream =
     \<lparr>sk_in = [Data (take 3 (frame (encode_request demo_get []))), ReadErr EINTR,
               Data (drop 3 (frame (encode_request demo_get [])))] @ Eof # [],
      sk_out = [Accept 2000000], sk_sent = []\<rparr>"

lemma drain_all: "0 < n \<Longrightarrow> n \<le> k \<Longrightarrow> drain n (Accept k # ws) = Some ws"
  by (cases n) simp_all

theorem session_served_witness:
  "\<exists>c. serve_loop BinaryCodec demo_libm demo_env (\<lambda>_. 5) 0 (conn_make demo_stream) demo_handler
        = Some (c, snd (handle demo_libm demo_env 5 demo_get demo_handler))
     \<and> sk_sent (cn_stream c) = frame (encode_response (fst (handle demo_libm demo_env 5 demo_get demo_handler)) [])"
proof -
  obtain r h' where h: "handle demo_libm demo_env 5 demo_get demo_handler = (r, h')" by fastforce
  have s: "handler_small demo_handler" by (rule handler_make_small [OF demo_handler_made])
  let ?f = "frame (encode_request demo_get [])"
  have "request_body_valid (req_body demo_get)" by (simp add: demo_get_def)
  then have "small_body (resp_body r)" by (rule handle_small(2) [OF s _ h])
  then have "\<not> bad_size (length (encode_response r []))" by (rule response_fits_binary)
  then have "lets_through (sk_out demo_stream) [length (frame (encode_response r []))]"
    by (simp add: demo_stream_def frame_def bad_size_def drain_all)
  moreover have "handle_all demo_libm demo_env (zip (map (\<lambda>_. 5) [0..<length [demo_get]]) [demo_get]) demo_handler = ([r], h')"
    using h by (simp add: handle_all_def)
  moreover have "benign [Data (take 3 ?f), ReadErr EINTR, Data (drop 3 ?f)]" by (simp add: frame_def be4)
  ultimately show ?thesis
    using session_served [of demo_handler "[demo_get]" demo_stream "[Data (take 3 ?f), ReadErr EINTR, Data (drop 3 ?f)]"
        "[]" demo_libm demo_env "\<lambda>_. 5" "[r]" h'] s h \<open>request_body_valid (req_body demo_get)\<close>
    by (auto simp: demo_stream_def)
qed

end
