(* ===== verification/Server.thy ===== *)
theory Server
  imports Serve Connection_Registry Thread_Pool Unix_Socket
begin

section \<open>The daemon (include/lrd/daemon/server.hpp, src/daemon/server.cpp)\<close>

text \<open>
  \<open>Server\<close> puts the parts together: the acceptor thread polls the listener and the stop pipe, posts each
  accepted connection to the pool, and on a stop closes the listener, breaks the live connections and
  discards the queue; a worker that takes a connection registers it, serves it turn by turn, and
  deregisters it. The daemon is a transition system over these steps: the acceptor, the closing
  sequence, the pool's own steps and the half turns of all connections interleave freely. A call of
  \<open>handle\<close> is one step; its locks are per shard, and the theory does not look inside it.
\<close>

definition EMFILE :: int where "EMFILE = 24"
definition ENFILE :: int where "ENFILE = 23"
definition ECONNABORTED :: int where "ECONNABORTED = 103"

record ServerConfig =
  socket_path :: cstring
  cache_capacity :: u64
  cache_shards :: u64
  thread_count :: u64
  max_queued_connections :: u64
  cfg_codec_name :: cstring
  cfg_scoring :: ScoringConfig
  cfg_policy :: PolicyConfig
  cfg_privacy :: PrivacyConfig
  verbose :: bool

definition default_policy :: PolicyConfig where
  "default_policy = \<lparr>exposure_cap = 0, frequency_limit = 0, frequency_window = 3600000,
     max_tracked_items = 100000, fail_open_when_full = False\<rparr>"

definition default_server_config :: ServerConfig where
  "default_server_config = \<lparr>socket_path = [], cache_capacity = 10000, cache_shards = 16, thread_count = 4,
     max_queued_connections = 64, cfg_codec_name = lit ''binary'', cfg_scoring = default_scoring,
     cfg_policy = default_policy, cfg_privacy = default_privacy, verbose = False\<rparr>"

record ServerStats =
  ss_accepted :: u64
  ss_rejected :: u64
  ss_completed :: u64

record StopPipe =
  stop_read :: Fd
  stop_write :: Fd

text \<open>A task of the pool is the descriptor of the connection it serves; \<open>sv_stop_bytes\<close> is what the stop pipe holds.\<close>

record Server =
  sv_config :: ServerConfig
  sv_listener :: UnixListener
  sv_handler :: Handler
  sv_registry :: ConnectionRegistry
  sv_codec :: codec
  sv_stop :: StopPipe
  sv_stop_bytes :: nat
  sv_accepted :: u64
  sv_rejected :: u64
  sv_completed :: u64
  sv_pool :: "int ThreadPool"

datatype server_error = SystemFailure SystemError | HandlerFailure handler_error | PoolFailure "int pool_error"

text \<open>\<open>pipe2\<close> reports an error or fills in two descriptors.\<close>

definition make_stop_pipe :: "int + (int \<times> int) \<Rightarrow> SystemError + StopPipe" where
  "make_stop_pipe pipe2 =
     (case pipe2 of
        Inl e \<Rightarrow> Inl \<lparr>error_number = e, error_context = lit ''pipe2''\<rparr>
      | Inr (r, w) \<Rightarrow> Inr \<lparr>stop_read = r, stop_write = w\<rparr>)"

text \<open>
  The constructor: members in declaration order, then the check of the codec; what was built is
  destroyed in reverse when an exception leaves.
\<close>

definition server_make ::
  "pb_runtime option \<Rightarrow> (ItemId \<Rightarrow> u64) \<Rightarrow> noise_env \<Rightarrow> int + (int \<times> int) \<Rightarrow> nat \<Rightarrow> ServerConfig \<Rightarrow> kernel \<Rightarrow>
   ((server_error + Server) \<times> kernel) option" where
  "server_make build hasher env pipe2 spawnable config k =
     (case listener_bind (socket_path config) 128 k of
        None \<Rightarrow> None
      | Some (Inl e, k) \<Rightarrow> Some (Inl (SystemFailure e), k)
      | Some (Inr l, k) \<Rightarrow>
          let drop_listener = (\<lambda>k. snd (listener_close l k)) in
          (case handler_make hasher env (cache_capacity config) (cache_shards config) (cfg_scoring config)
                  (cfg_policy config) (cfg_privacy config) of
             Inl e \<Rightarrow> Some (Inl (HandlerFailure e), drop_listener k)
           | Inr h \<Rightarrow>
               let codec = make_codec build (cfg_codec_name config) in
               (case make_stop_pipe pipe2 of
                  Inl e \<Rightarrow> Some (Inl (SystemFailure e), drop_listener k)
                | Inr stop \<Rightarrow>
                    let drop_stop = (\<lambda>k. drop_listener (snd (fd_close (stop_read stop) (snd (fd_close (stop_write stop) k))))) in
                    (case pool_make spawnable (thread_count config) (max_queued_connections config) of
                       Inl e \<Rightarrow> Some (Inl (PoolFailure e), drop_stop k)
                     | Inr pool \<Rightarrow>
                         (case codec of
                            None \<Rightarrow> Some (Inl (SystemFailure
                              \<lparr>error_number = EINVAL,
                               error_context = lit ''unknown codec '' @ [39] @ cfg_codec_name config @ [39]
                                 @ lit ''; available: '' @ available_codecs build\<rparr>), drop_stop k)
                          | Some c \<Rightarrow>
                              Some (Inr \<lparr>sv_config = config, sv_listener = l, sv_handler = h,
                                sv_registry = registry_make, sv_codec = c, sv_stop = stop, sv_stop_bytes = 0,
                                sv_accepted = 0, sv_rejected = 0, sv_completed = 0, sv_pool = pool\<rparr>, k))))))"

text \<open>\<open>request_stop\<close> writes one byte to a non-blocking pipe of 64 KiB and ignores the result.\<close>

definition request_stop :: "Server \<Rightarrow> Server" where
  "request_stop sv = sv\<lparr>sv_stop_bytes := (if sv_stop_bytes sv < 65536 then Suc (sv_stop_bytes sv) else sv_stop_bytes sv)\<rparr>"

text \<open>The signal handler: the stop request if a server is installed, and errno as it was.\<close>

definition handle_stop_signal :: "bool \<Rightarrow> int \<Rightarrow> Server \<Rightarrow> int \<times> Server" where
  "handle_stop_signal installed errno sv =
     (let saved_errno = errno;
          sv = (if installed then request_stop sv else sv)
      in (saved_errno, sv))"

text \<open>What the process does with a signal, before and after the handlers are installed.\<close>

definition SIGINT :: int where "SIGINT = 2"
definition SIGPIPE :: int where "SIGPIPE = 13"
definition SIGTERM :: int where "SIGTERM = 15"

datatype disposition = SigDefault | SigIgnored | SigStops

definition install_signal_handlers :: "(int \<Rightarrow> disposition) \<Rightarrow> bool \<times> (int \<Rightarrow> disposition)" where
  "install_signal_handlers actions =
     (let installed = True;
          actions = actions(SIGINT := SigStops);
          actions = actions(SIGTERM := SigStops)
      in (installed, actions(SIGPIPE := SigIgnored)))"

definition signal_arrives :: "bool \<times> (int \<Rightarrow> disposition) \<Rightarrow> int \<Rightarrow> int \<Rightarrow> Server \<Rightarrow> (int \<times> Server) option" where
  "signal_arrives process signo errno sv =
     (case snd process signo of
        SigDefault \<Rightarrow> None
      | SigIgnored \<Rightarrow> Some (errno, sv)
      | SigStops \<Rightarrow> Some (handle_stop_signal (fst process) errno sv))"

lemma signals_installed:
  "signal_arrives (install_signal_handlers actions) SIGINT errno sv = Some (errno, request_stop sv)"
  "signal_arrives (install_signal_handlers actions) SIGTERM errno sv = Some (errno, request_stop sv)"
  "signal_arrives (install_signal_handlers actions) SIGPIPE errno sv = Some (errno, sv)"
  by (simp_all add: signal_arrives_def install_signal_handlers_def handle_stop_signal_def SIGINT_def SIGTERM_def
      SIGPIPE_def Let_def)

function drain_stop_pipe :: "nat \<Rightarrow> nat" where
  "drain_stop_pipe bytes = (let n = min 64 bytes in if 0 < n then drain_stop_pipe (bytes - n) else bytes)"
  by pat_completeness auto

termination
  by (relation "measure (\<lambda>b. b)") auto

declare drain_stop_pipe.simps [simp del]

definition accept_one :: "Server \<Rightarrow> Server io" where
  "accept_one sv =
     andThen (listener_accept (sv_listener sv)) (\<lambda>fd k.
       let sv = sv\<lparr>sv_accepted := sv_accepted sv + 1\<rparr>;
           (status, pool) = post fd (sv_pool sv);
           sv = sv\<lparr>sv_pool := pool\<rparr>
       in if status \<noteq> Accepted
          then give (sv\<lparr>sv_rejected := sv_rejected sv + 1\<rparr>) (snd (fd_close fd k))
          else give sv k)"

text \<open>
  One iteration of \<open>run\<close>'s loop. The poll fails, or finds the listener ready or not; the stop pipe is
  ready when it holds a byte. The result says whether the loop is left.
\<close>

datatype poll_outcome = PollFailed int | Polled bool

definition run_turn :: "poll_outcome \<Rightarrow> Server \<Rightarrow> (bool \<times> Server) io" where
  "run_turn poll sv k =
     (case poll of
        PollFailed e \<Rightarrow> if e = EINTR then give (False, sv) k else throw_errno e (lit ''poll'') k
      | Polled listener_ready \<Rightarrow>
          if 0 < sv_stop_bytes sv then give (True, sv\<lparr>sv_stop_bytes := drain_stop_pipe (sv_stop_bytes sv)\<rparr>) k
          else if listener_ready then
            (case accept_one sv k of
               None \<Rightarrow> None
             | Some (Inr sv', k) \<Rightarrow> give (False, sv') k
             | Some (Inl e, k) \<Rightarrow>
                 if error_number e = ECONNABORTED then give (False, sv) k
                 else if error_number e = EMFILE \<or> error_number e = ENFILE then give (False, sv) k
                 else Some (Inl e, k))
          else give (False, sv) k)"

text \<open>
  The destructor: connections are broken, the pool closed, and the server is no longer the target of
  signals. The descriptors are those that are shut down.
\<close>

definition server_destroy :: "Server \<Rightarrow> int list \<times> bool \<times> Server" where
  "server_destroy sv =
     (let (fds, registry) = stop_all (sv_registry sv);
          sv = sv\<lparr>sv_registry := registry\<rparr>
      in (fds, False, sv\<lparr>sv_pool := shutdown Discard (sv_pool sv)\<rparr>))"

definition server_stats :: "Server \<Rightarrow> ServerStats" where
  "server_stats sv = \<lparr>ss_accepted = sv_accepted sv, ss_rejected = sv_rejected sv, ss_completed = sv_completed sv\<rparr>"

subsection \<open>The running daemon\<close>

text \<open>Where the acceptor thread is: in its loop, in the closing sequence, joining, or leaving with an exception.\<close>

datatype acceptor = Looping | ClosingListener | StoppingConnections | StoppingPool | Joining | Thrown SystemError

text \<open>Where a worker is in \<open>serve_connection\<close>.\<close>

datatype turn = Reading | Replying Response bool | Ended

record session =
  se_fd :: int
  se_token :: u64
  se_conn :: conn
  se_turn :: turn

record daemon =
  dm_server :: Server
  dm_kernel :: kernel
  dm_acceptor :: acceptor
  dm_sessions :: "session option list"

definition daemon_make :: "Server \<Rightarrow> kernel \<Rightarrow> daemon" where
  "daemon_make sv k = \<lparr>dm_server = sv, dm_kernel = k, dm_acceptor = Looping,
     dm_sessions = replicate (length (workers (sv_pool sv))) None\<rparr>"

text \<open>
  What \<open>shutdown(fd, SHUT_RDWR)\<close> does to a connection: after some of what had arrived the stream ends, and
  nothing can be sent any more.
\<close>

definition shut :: "nat \<Rightarrow> socket \<Rightarrow> socket" where
  "shut n s = s\<lparr>sk_in := take n (sk_in s) @ [Eof], sk_out := [WriteErr EPIPE]\<rparr>"

definition shut_session :: "int list \<Rightarrow> nat \<Rightarrow> session \<Rightarrow> session" where
  "shut_session fds n se =
     (if se_fd se \<in> set fds then se\<lparr>se_conn := (se_conn se)\<lparr>cn_stream := shut n (cn_stream (se_conn se))\<rparr>\<rparr> else se)"

datatype daemon_event =
    EvRequestStop
  | EvTurn poll_outcome
  | EvCloseListener
  | EvStopAll
  | EvStopPool
  | EvPool "int pool_event"
  | EvBegin nat int
  | EvReceive nat Timestamp "(Request \<times> Response) option"
  | EvReply nat bool
  | EvEnd nat

text \<open>The parts of \<open>serve_connection\<close> before and after its loop.\<close>

definition begin_session :: "nat \<Rightarrow> int \<Rightarrow> socket \<Rightarrow> daemon \<Rightarrow> daemon" where
  "begin_session i fd stream d =
     (let (token, registry) = guard_enter fd (sv_registry (dm_server d));
          d = d\<lparr>dm_server := (dm_server d)\<lparr>sv_registry := registry\<rparr>\<rparr>
      in if \<not> guard_ok token then d
         else d\<lparr>dm_sessions := (dm_sessions d)
                [i := Some \<lparr>se_fd = fd, se_token = token, se_conn = conn_make stream, se_turn = Reading\<rparr>]\<rparr>)"

definition end_session :: "nat \<Rightarrow> session \<Rightarrow> daemon \<Rightarrow> daemon" where
  "end_session i se d =
     (let sv = dm_server d;
          sv = sv\<lparr>sv_completed := sv_completed sv + 1, sv_registry := guard_exit (se_token se) (sv_registry sv)\<rparr>
      in d\<lparr>dm_server := sv, dm_kernel := snd (fd_close (se_fd se) (dm_kernel d)),
           dm_sessions := (dm_sessions d)[i := None]\<rparr>)"

abbreviation with_pool :: "daemon \<Rightarrow> int ThreadPool \<Rightarrow> daemon" where
  "with_pool d p \<equiv> d\<lparr>dm_server := (dm_server d)\<lparr>sv_pool := p\<rparr>\<rparr>"

abbreviation with_session :: "daemon \<Rightarrow> nat \<Rightarrow> session \<Rightarrow> daemon" where
  "with_session d i se \<equiv> d\<lparr>dm_sessions := (dm_sessions d)[i := Some se]\<rparr>"

abbreviation session_at :: "daemon \<Rightarrow> nat \<Rightarrow> session \<Rightarrow> bool" where
  "session_at d i se \<equiv> i < length (dm_sessions d) \<and> dm_sessions d ! i = Some se"

text \<open>The pool's steps that start or finish no task.\<close>

fun pool_only :: "int pool_event \<Rightarrow> bool" where
  "pool_only NotifyOne \<longleftrightarrow> True"
| "pool_only NotifyAll \<longleftrightarrow> True"
| "pool_only (Spurious i) \<longleftrightarrow> True"
| "pool_only (Section i None) \<longleftrightarrow> True"
| "pool_only _ \<longleftrightarrow> False"

inductive daemon_step :: "libm \<Rightarrow> noise_env \<Rightarrow> daemon \<Rightarrow> daemon_event \<Rightarrow> daemon \<Rightarrow> bool" for m env where
  request: "daemon_step m env d EvRequestStop (d\<lparr>dm_server := request_stop (dm_server d)\<rparr>)"
| turn: "dm_acceptor d = Looping \<Longrightarrow>
    run_turn poll (dm_server d) (dm_kernel d) = Some (Inr (stop, sv), k) \<Longrightarrow>
    daemon_step m env d (EvTurn poll)
      (d\<lparr>dm_server := sv, dm_kernel := k, dm_acceptor := (if stop then ClosingListener else Looping)\<rparr>)"
| turn_throws: "dm_acceptor d = Looping \<Longrightarrow>
    run_turn poll (dm_server d) (dm_kernel d) = Some (Inl e, k) \<Longrightarrow>
    daemon_step m env d (EvTurn poll) (d\<lparr>dm_kernel := k, dm_acceptor := Thrown e\<rparr>)"
| close_listener: "dm_acceptor d = ClosingListener \<Longrightarrow>
    listener_close (sv_listener (dm_server d)) (dm_kernel d) = (l, k) \<Longrightarrow>
    daemon_step m env d EvCloseListener
      (d\<lparr>dm_server := (dm_server d)\<lparr>sv_listener := l\<rparr>, dm_kernel := k, dm_acceptor := StoppingConnections\<rparr>)"
| stop_connections: "dm_acceptor d = StoppingConnections \<or> (\<exists>e. dm_acceptor d = Thrown e) \<Longrightarrow>
    stop_all (sv_registry (dm_server d)) = (fds, registry) \<Longrightarrow>
    daemon_step m env d EvStopAll
      (d\<lparr>dm_server := (dm_server d)\<lparr>sv_registry := registry\<rparr>, dm_acceptor := StoppingPool,
         dm_sessions := map2 (\<lambda>n. map_option (shut_session fds n)) (map arrived [0..<length (dm_sessions d)]) (dm_sessions d)\<rparr>)"
| stop_pool: "dm_acceptor d = StoppingPool \<Longrightarrow>
    daemon_step m env d EvStopPool
      ((with_pool d (shutdown Discard (sv_pool (dm_server d))))\<lparr>dm_acceptor := Joining\<rparr>)"
| pool: "pool_only e \<Longrightarrow> pool_step (sv_pool (dm_server d)) e p \<Longrightarrow> daemon_step m env d (EvPool e) (with_pool d p)"
| begin_connection: "pool_step (sv_pool (dm_server d)) (Section i (Some fd)) p \<Longrightarrow> sk_sent stream = [] \<Longrightarrow>
    daemon_step m env d (EvBegin i fd) (begin_session i fd stream (with_pool d p))"
| receive_other: "session_at d i se \<Longrightarrow> se_turn se = Reading \<Longrightarrow>
    serve_receive (sv_codec (dm_server d)) m env now (se_conn se) (sv_handler (dm_server d)) = Some (x, c, h) \<Longrightarrow>
    \<forall>r. x \<noteq> Reply r True \<Longrightarrow>
    daemon_step m env d (EvReceive i now None)
      (with_session d i (se\<lparr>se_conn := c, se_turn := (case x of HangUp \<Rightarrow> Ended | Reply r b \<Rightarrow> Replying r b)\<rparr>))"
| receive_request: "session_at d i se \<Longrightarrow> se_turn se = Reading \<Longrightarrow>
    serve_receive (sv_codec (dm_server d)) m env now (se_conn se) (sv_handler (dm_server d)) = Some (Reply r True, c, h) \<Longrightarrow>
    dec_request (sv_codec (dm_server d)) (cn_request_body c) default_request = (NoError, q) \<Longrightarrow>
    daemon_step m env d (EvReceive i now (Some (q, r)))
      ((with_session d i (se\<lparr>se_conn := c, se_turn := Replying r True\<rparr>))
         \<lparr>dm_server := (dm_server d)\<lparr>sv_handler := h\<rparr>\<rparr>)"
| reply: "session_at d i se \<Longrightarrow> se_turn se = Replying r b \<Longrightarrow>
    serve_reply (sv_codec (dm_server d)) r b (se_conn se) = Some (ok, c) \<Longrightarrow>
    daemon_step m env d (EvReply i ok) (with_session d i (se\<lparr>se_conn := c, se_turn := (if ok then Reading else Ended)\<rparr>))"
| end_connection: "session_at d i se \<Longrightarrow> se_turn se = Ended \<Longrightarrow>
    pool_step (sv_pool (dm_server d)) (Done i (se_fd se) False) p \<Longrightarrow>
    daemon_step m env d (EvEnd i) (end_session i se (with_pool d p))"
| end_abandoned: "i < length (dm_sessions d) \<Longrightarrow> dm_sessions d ! i = None \<Longrightarrow>
    pool_step (sv_pool (dm_server d)) (Done i fd False) p \<Longrightarrow>
    daemon_step m env d (EvEnd i) ((with_pool d p)\<lparr>dm_kernel := snd (fd_close fd (dm_kernel d))\<rparr>)"

inductive_cases daemon_stepE: "daemon_step m env d e d'"

inductive daemon_run :: "libm \<Rightarrow> noise_env \<Rightarrow> daemon \<Rightarrow> daemon_event list \<Rightarrow> daemon \<Rightarrow> bool" for m env where
  run_start: "daemon_run m env d [] d"
| run_step: "daemon_run m env d es d' \<Longrightarrow> daemon_step m env d' e d'' \<Longrightarrow> daemon_run m env d (es @ [e]) d''"

text \<open>The calls of the handler in the order they were made.\<close>

fun handled_by :: "daemon_event \<Rightarrow> ((Timestamp \<times> Request) \<times> Response) option" where
  "handled_by (EvReceive i now (Some (q, r))) = Some ((now, q), r)"
| "handled_by _ = None"

definition handled :: "daemon_event list \<Rightarrow> ((Timestamp \<times> Request) \<times> Response) list" where
  "handled es = List.map_filter handled_by es"

lemma handled_simps [simp]:
  "handled [] = []" "handled (es @ [e]) = handled es @ (case handled_by e of None \<Rightarrow> [] | Some x \<Rightarrow> [x])"
  by (simp_all add: handled_def map_filter_def split: option.splits)

subsection \<open>What the steps do to the parts\<close>

lemma drain_stop_pipe_empty: "drain_stop_pipe b = 0"
proof (induction b rule: drain_stop_pipe.induct)
  case (1 b)
  then show ?case by (subst drain_stop_pipe.simps) (auto simp: Let_def)
qed

lemma run_turn_effect:
  assumes "run_turn poll sv k = Some (Inr (stop, sv'), k')"
  shows "sv_registry sv' = sv_registry sv" "sv_handler sv' = sv_handler sv" "sv_codec sv' = sv_codec sv"
    "sv_config sv' = sv_config sv" "sv_completed sv' = sv_completed sv"
  using assms
  by (auto simp: run_turn_def accept_one_def andThen_def give_def throw_errno_def Let_def
      split: poll_outcome.splits if_splits option.splits sum.splits prod.splits)

lemma run_turn_posts:
  assumes "run_turn poll sv k = Some (Inr (stop, sv'), k')"
  shows "(sv_pool sv' = sv_pool sv \<and> sv_accepted sv' = sv_accepted sv \<and> sv_rejected sv' = sv_rejected sv) \<or>
     (\<exists>fd status. post fd (sv_pool sv) = (status, sv_pool sv') \<and> sv_accepted sv' = sv_accepted sv + 1
        \<and> sv_rejected sv' = sv_rejected sv + (if status = Accepted then 0 else 1))"
proof (cases "0 < sv_stop_bytes sv \<or> poll \<noteq> Polled True")
  case True
  then show ?thesis using assms by (auto simp: run_turn_def give_def throw_errno_def split: poll_outcome.splits if_splits)
next
  case False
  show ?thesis
  proof (cases "listener_accept (sv_listener sv) k")
    case None
    then show ?thesis using assms False by (simp add: run_turn_def accept_one_def andThen_def)
  next
    case (Some a)
    then obtain r k1 where a: "listener_accept (sv_listener sv) k = Some (r, k1)" by (cases a) auto
    show ?thesis
    proof (cases r)
      case (Inl e)
      then show ?thesis using assms False a by (auto simp: run_turn_def accept_one_def andThen_def give_def split: if_splits)
    next
      case (Inr fd)
      obtain status p where p: "post fd (sv_pool sv) = (status, p)" by fastforce
      then have "sv_pool sv' = p \<and> sv_accepted sv' = sv_accepted sv + 1
          \<and> sv_rejected sv' = sv_rejected sv + (if status = Accepted then 0 else 1)"
        using assms False a Inr by (auto simp: run_turn_def accept_one_def andThen_def give_def Let_def split: if_splits)
      with p show ?thesis by blast
    qed
  qed
qed

text \<open>A task runs from the section that took it to the end of it, whatever else happens.\<close>

lemma pool_only_running:
  assumes "pool_step p e p'" "pool_only e"
  shows "length (workers p') = length (workers p)" "j < length (workers p) \<Longrightarrow> workers p ! j = Running t \<Longrightarrow> workers p' ! j = Running t"
    "posted p' = posted p" "rejected p' = rejected p"
proof -
  show "length (workers p') = length (workers p)" using pool_step_workers [OF assms(1)] by simp
  show "workers p' ! j = Running t" if "j < length (workers p)" "workers p ! j = Running t"
    using assms(1)
  proof (cases rule: pool_step.cases)
    case (step_section i)
    then show ?thesis using that assms(2)
      by (cases "queue p") (auto simp: worker_section_def nth_list_update split: if_splits)
  qed (use that assms(2) in \<open>auto simp: nth_list_update wake_def\<close>)
  show "posted p' = posted p" "rejected p' = rejected p"
    using assms by (auto elim!: pool_step.cases simp: worker_section_def split: list.splits)
qed

lemma pool_begin:
  assumes "pool_step p (Section i (Some fd)) p'"
  shows "i < length (workers p)" "workers p ! i = AtTop" "workers p' = (workers p)[i := Running fd]"
    "posted p' = posted p" "rejected p' = rejected p" "queue p = fd # queue p'" "stopping p' = stopping p"
  using assms by (auto elim!: pool_step.cases simp: worker_section_def split: list.splits)

lemma pool_finish:
  assumes "pool_step p (Done i fd b) p'"
  shows "i < length (workers p)" "workers p ! i = Running fd" "workers p' = (workers p)[i := AtTop]"
    "posted p' = posted p" "rejected p' = rejected p" "stopping p' = stopping p" "queue p' = queue p"
  using assms by (cases b; auto elim!: pool_step.cases simp: worker_done_def Let_def)+

lemma post_effect:
  assumes "post fd p = (status, p')"
  shows "workers p' = workers p" "posted p' + rejected p' = posted p + rejected p + 1"
    "rejected p' = rejected p + (if status = Accepted then 0 else 1)" "stopping p' = stopping p"
  using assms by (auto simp: post_def split: if_splits)

lemma shutdown_effect [simp]: "workers (shutdown pl p) = workers p" "posted (shutdown pl p) = posted p"
    "rejected (shutdown pl p) = rejected p" "stopping (shutdown pl p)"
  by (simp_all add: shutdown_def)

lemma begin_session_fields [simp]:
  "sv_pool (dm_server (begin_session i fd s d)) = sv_pool (dm_server d)"
  "sv_handler (dm_server (begin_session i fd s d)) = sv_handler (dm_server d)"
  "sv_codec (dm_server (begin_session i fd s d)) = sv_codec (dm_server d)"
  "sv_accepted (dm_server (begin_session i fd s d)) = sv_accepted (dm_server d)"
  "sv_rejected (dm_server (begin_session i fd s d)) = sv_rejected (dm_server d)"
  "dm_acceptor (begin_session i fd s d) = dm_acceptor d"
  "length (dm_sessions (begin_session i fd s d)) = length (dm_sessions d)"
  by (simp_all add: begin_session_def Let_def split: prod.splits)

lemma end_session_fields [simp]:
  "sv_pool (dm_server (end_session i se d)) = sv_pool (dm_server d)"
  "sv_handler (dm_server (end_session i se d)) = sv_handler (dm_server d)"
  "sv_codec (dm_server (end_session i se d)) = sv_codec (dm_server d)"
  "sv_accepted (dm_server (end_session i se d)) = sv_accepted (dm_server d)"
  "sv_rejected (dm_server (end_session i se d)) = sv_rejected (dm_server d)"
  "sv_registry (dm_server (end_session i se d)) = guard_exit (se_token se) (sv_registry (dm_server d))"
  "dm_sessions (end_session i se d) = (dm_sessions d)[i := None]"
  "dm_acceptor (end_session i se d) = dm_acceptor d"
  by (simp_all add: end_session_def Let_def)

subsection \<open>Workers and sessions\<close>

definition workers_inv :: "daemon \<Rightarrow> bool" where
  "workers_inv d \<longleftrightarrow> pool_inv (sv_pool (dm_server d))
     \<and> length (dm_sessions d) = length (workers (sv_pool (dm_server d)))
     \<and> (\<forall>i se. session_at d i se \<longrightarrow> workers (sv_pool (dm_server d)) ! i = Running (se_fd se))"

lemma workers_inv_step:
  assumes "daemon_step m env d e d'" "workers_inv d"
  shows "workers_inv d'"
proof -
  let ?p = "sv_pool (dm_server d)"
  have w: "pool_inv ?p" "length (dm_sessions d) = length (workers ?p)"
    and run: "\<And>i se. session_at d i se \<Longrightarrow> workers ?p ! i = Running (se_fd se)"
    using assms(2) by (auto simp: workers_inv_def)
  show ?thesis
    using assms(1)
  proof (cases rule: daemon_step.cases)
    case (turn ready stop sv k)
    have "workers (sv_pool sv) = workers ?p \<and> pool_inv (sv_pool sv)"
      using run_turn_posts [OF turn(4)] post_effect(1) pool_step_inv [OF step_post] w(1) by auto
    then show ?thesis using turn(2) w(2) run by (simp add: workers_inv_def)
  next
    case stop_pool
    then show ?thesis using w run pool_step_inv [OF step_shutdown w(1)] by (simp add: workers_inv_def)
  next
    case (pool e p)
    then show ?thesis
      using w run pool_only_running(1,2) [OF pool(4,3)] pool_step_inv [OF pool(4) w(1)] by (simp add: workers_inv_def)
  next
    case (begin_connection i fd p stream)
    note b = pool_begin(1-3) [OF begin_connection(3)]
    have "workers p ! j = Running (se_fd se)" if "session_at d' j se" for j se
    proof (cases "j = i")
      case True
      have "dm_sessions d ! i \<noteq> Some se'" for se' using run [of i se'] b(1,2) w(2) by auto
      then have "se_fd se = fd" using that True begin_connection(2) b(1) w(2)
        by (auto simp: begin_session_def Let_def split: prod.splits if_splits)
      then show ?thesis using True b(1,3) by simp
    next
      case False
      then have "session_at d j se" using that begin_connection(2)
        by (auto simp: begin_session_def Let_def split: prod.splits if_splits)
      then show ?thesis using False b(3) run by simp
    qed
    then show ?thesis using begin_connection(2) w(2) b(3) pool_step_inv [OF begin_connection(3) w(1)]
      by (simp add: workers_inv_def)
  next
    case (end_connection i se p)
    note f = pool_finish(1-3) [OF end_connection(5)]
    have "workers p ! j = Running (se_fd se')" if "session_at d' j se'" for j se'
    proof -
      have "j \<noteq> i" using that end_connection(2,3) by auto
      then show ?thesis using that end_connection(2) f(3) run by simp
    qed
    then show ?thesis using end_connection(2) w(2) f(3) pool_step_inv [OF end_connection(5) w(1)]
      by (simp add: workers_inv_def)
  next
    case (end_abandoned i fd p)
    note f = pool_finish(1-3) [OF end_abandoned(5)]
    have "workers p ! j = Running (se_fd se')" if "session_at d j se'" for j se'
      using that end_abandoned(4) f(3) run [OF that] by (cases "j = i") auto
    then show ?thesis using end_abandoned(2) w(2) f(3) pool_step_inv [OF end_abandoned(5) w(1)]
      by (simp add: workers_inv_def)
  next
    case (stop_connections fds registry arrived)
    then show ?thesis using w run by (auto simp: workers_inv_def shut_session_def)
  next
    case (receive_other i se now x c h)
    then show ?thesis using w run by (auto simp: workers_inv_def nth_list_update split: if_splits)
  next
    case (receive_request i se now r c h q)
    then show ?thesis using w run by (auto simp: workers_inv_def nth_list_update split: if_splits)
  next
    case (reply i se r b ok c)
    then show ?thesis using w run by (auto simp: workers_inv_def nth_list_update split: if_splits)
  qed (use w run in \<open>simp_all add: workers_inv_def request_stop_def\<close>)
qed

subsection \<open>The registry and the sessions\<close>

lemma guard_enter_inv:
  assumes "registry_inv n r" "Suc n < 2 ^ 64 - 1" "guard_enter fd r = (token, r')"
  shows "(rg_stopping r \<and> token = 0 \<and> r' = r) \<or>
    (\<not> rg_stopping r \<and> token \<noteq> 0 \<and> token \<notin> fst ` set (rg_connections r) \<and> registry_inv (Suc n) r'
       \<and> rg_connections r' = (token, fd) # rg_connections r \<and> rg_stopping r' = rg_stopping r)"
proof (cases "rg_stopping r")
  case True
  then show ?thesis using assms(3) by (simp add: guard_enter_def registry_add_def)
next
  case False
  let ?t = "rg_next_token r"
  have t: "unat ?t = Suc n" using assms(1) by (simp add: registry_inv_def)
  then have "?t \<noteq> 0" by auto
  moreover have "unat (?t + 1) = Suc (Suc n)" using t assms(2) by (simp add: unat_word_ariths)
  moreover have "?t \<notin> fst ` set (rg_connections r)" using assms(1) t by (force simp: registry_inv_def)
  moreover have "\<forall>t \<in> set (map fst (rg_connections r)). t \<noteq> 0 \<and> unat t \<le> Suc n"
    using assms(1) by (auto simp: registry_inv_def dest!: bspec intro: le_SucI)
  ultimately show ?thesis using assms False t
    by (auto simp: guard_enter_def registry_add_def umap_emplace_def registry_inv_def map_of_eq_None_iff Let_def)
qed

lemma guard_exit_inv:
  assumes "registry_inv n r" "token \<noteq> 0"
  shows "registry_inv n (guard_exit token r)"
    "rg_connections (guard_exit token r) = filter (\<lambda>c. fst c \<noteq> token) (rg_connections r)"
    "rg_stopping (guard_exit token r) = rg_stopping r"
  using assms by (auto simp: guard_exit_def registry_remove_def umap_delete_filter registry_inv_def distinct_map_filter)

definition entry :: "session \<Rightarrow> u64 \<times> int" where
  "entry se = (se_token se, se_fd se)"

definition entries :: "daemon \<Rightarrow> (u64 \<times> int) option list" where
  "entries d = map (map_option entry) (dm_sessions d)"

text \<open>The registry holds the entries of the running sessions, one token each.\<close>

definition one_token :: "(u64 \<times> int) option list \<Rightarrow> bool" where
  "one_token es \<longleftrightarrow>
     (\<forall>i < length es. \<forall>j < length es. \<forall>x y. es ! i = Some x \<longrightarrow> es ! j = Some y \<longrightarrow> fst x = fst y \<longrightarrow> i = j)"

lemma one_tokenD:
  "one_token es \<Longrightarrow> i < length es \<Longrightarrow> j < length es \<Longrightarrow> es ! i = Some x \<Longrightarrow> es ! j = Some y \<Longrightarrow> fst x = fst y \<Longrightarrow> i = j"
  unfolding one_token_def by blast

lemma one_token_None: "one_token es \<Longrightarrow> one_token (es[i := None])"
proof -
  assume o: "one_token es"
  have "es ! j = Some x" if "es[i := None] ! j = Some x" "j < length es" for j x using that by (cases "j = i") simp_all
  then show ?thesis using one_tokenD [OF o] unfolding one_token_def by simp
qed

lemma one_token_Some:
  assumes "one_token es" "\<And>x. Some x \<in> set es \<Longrightarrow> t \<noteq> fst x"
  shows "one_token (es[i := Some (t, fd)])"
proof -
  have new: "t \<noteq> fst z" if "l < length es" "es ! l = Some z" for l z using assms(2) nth_mem [OF that(1)] that(2) by simp
  have "j = k" if "j < length es" "k < length es" "es[i := Some (t, fd)] ! j = Some x" "es[i := Some (t, fd)] ! k = Some y"
    "fst x = fst y" for j k x y
  proof (cases "j = i")
    case True
    then have "x = (t, fd)" using that(1,3) by simp
    then have "fst y = t" using that(5) by simp
    then show ?thesis using new [OF that(2), of y] that(4) True by (cases "k = i") simp_all
  next
    case False
    then have x: "es ! j = Some x" using that(3) by simp
    show ?thesis
    proof (cases "k = i")
      case True
      then have "y = (t, fd)" using that(2,4) by simp
      then show ?thesis using new [OF that(1) x] that(5) by simp
    next
      case False
      then have "es ! k = Some y" using that(4) by simp
      then show ?thesis by (rule one_tokenD [OF assms(1) that(1,2) x _ that(5)])
    qed
  qed
  then show ?thesis unfolding one_token_def length_list_update by blast
qed

definition registered :: "nat \<Rightarrow> ConnectionRegistry \<Rightarrow> (u64 \<times> int) option list \<Rightarrow> bool" where
  "registered n r es \<longleftrightarrow> registry_inv n r \<and> {x. Some x \<in> set es} = set (rg_connections r) \<and> one_token es"

lemma registered_enter:
  assumes "registered n r es" "Suc n < 2 ^ 64 - 1" "guard_enter fd r = (token, r')" "i < length es" "es ! i = None"
  shows "\<exists>n' \<le> Suc n. registered n' r' (if token = 0 then es else es[i := Some (token, fd)])"
proof (cases "rg_stopping r")
  case True
  then show ?thesis using guard_enter_inv [OF _ assms(2,3)] assms(1) by (intro exI [of _ n]) (auto simp: registered_def)
next
  case False
  have r: "registry_inv n r" using assms(1) by (simp add: registered_def)
  note g = guard_enter_inv [OF r assms(2,3)]
  have old: "token \<noteq> fst x" if "Some x \<in> set es" for x
    using g assms(1) False that by (force simp: registered_def)
  have "{x. Some x \<in> set (es[i := Some (token, fd)])} = insert (token, fd) {x. Some x \<in> set es}"
  proof (intro set_eqI iffI)
    fix x assume "x \<in> {x. Some x \<in> set (es[i := Some (token, fd)])}"
    then show "x \<in> insert (token, fd) {x. Some x \<in> set es}" using set_update_subset_insert [of es i "Some (token, fd)"] by auto
  next
    fix x assume x: "x \<in> insert (token, fd) {x. Some x \<in> set es}"
    show "x \<in> {x. Some x \<in> set (es[i := Some (token, fd)])}"
    proof (cases "x = (token, fd)")
      case True
      then show ?thesis using assms(4) by (simp add: set_update_memI)
    next
      case False
      then obtain j where "j < length es" "es ! j = Some x" using x by (auto simp: in_set_conv_nth)
      moreover from this have "j \<noteq> i" using assms(5) by auto
      ultimately show ?thesis by (auto simp: in_set_conv_nth nth_list_update intro!: exI [of _ j])
    qed
  qed
  moreover have "one_token (es[i := Some (token, fd)])"
    using assms(1) old by (intro one_token_Some) (auto simp: registered_def)
  ultimately show ?thesis using g assms(1) False by (intro exI [of _ "Suc n"]) (auto simp: registered_def)
qed

lemma registered_exit:
  assumes "registered n r es" "i < length es" "es ! i = Some (token, fd)"
  shows "registered n (guard_exit token r) (es[i := None])"
proof -
  have r: "registry_inv n r" "Some (token, fd) \<in> set es" using assms nth_mem by (fastforce simp: registered_def)+
  then have "token \<noteq> 0" using assms(1) by (force simp: registered_def registry_inv_def)
  note g = guard_exit_inv [OF r(1) this]
  have "{x. Some x \<in> set (es[i := None])} = {x. Some x \<in> set es \<and> fst x \<noteq> token}"
  proof (intro set_eqI iffI CollectI)
    fix x assume "x \<in> {x. Some x \<in> set (es[i := None])}"
    then obtain j where j: "j < length es" "es[i := None] ! j = Some x" by (auto simp: in_set_conv_nth)
    then have "j \<noteq> i" by auto
    with j have j: "j < length es" "j \<noteq> i" "es ! j = Some x" by simp_all
    have "one_token es" using assms(1) by (simp add: registered_def)
    then have "fst x \<noteq> token" using one_tokenD [OF _ j(1) assms(2) j(3) assms(3)] j(2) by auto
    moreover have "Some x \<in> set es" using j by (metis nth_mem)
    ultimately show "Some x \<in> set es \<and> fst x \<noteq> token" by simp
  next
    fix x assume "x \<in> {x. Some x \<in> set es \<and> fst x \<noteq> token}"
    then obtain j where "j < length es" "es ! j = Some x" "fst x \<noteq> token" by (auto simp: in_set_conv_nth)
    moreover from this have "j \<noteq> i" using assms(3) by auto
    ultimately show "Some x \<in> set (es[i := None])" by (auto simp: in_set_conv_nth nth_list_update intro!: exI [of _ j])
  qed
  moreover have "one_token (es[i := None])" using assms(1) by (auto simp: registered_def one_token_None)
  ultimately show ?thesis using g assms(1) by (auto simp: registered_def)
qed

lemma registered_stop:
  assumes "registered n r es" "stop_all r = (fds, r')"
  shows "registered n r' es" "rg_stopping r'" "\<And>x. Some x \<in> set es \<Longrightarrow> snd x \<in> set fds"
proof -
  have r: "fds = map snd (rg_connections r)" "r' = r\<lparr>rg_stopping := True\<rparr>" using assms(2) by (simp_all add: stop_all_def)
  show "registered n r' es" "rg_stopping r'" using assms(1) by (simp_all add: registered_def registry_inv_def r)
  fix x assume "Some x \<in> set es"
  then have "x \<in> set (rg_connections r)" using assms(1) unfolding registered_def by blast
  then show "snd x \<in> set fds" by (simp add: r)
qed

lemma entries_fields [simp]:
  "entries (d\<lparr>dm_server := sv\<rparr>) = entries d" "entries (d\<lparr>dm_kernel := k\<rparr>) = entries d"
  "entries (d\<lparr>dm_acceptor := a\<rparr>) = entries d"
  by (simp_all add: entries_def)

lemma entries_same_session:
  assumes "session_at d i se" "entry se' = entry se"
  shows "entries (with_session d i se') = entries d"
proof -
  have "(map (map_option entry) (dm_sessions d))[i := Some (entry se)] = map (map_option entry) (dm_sessions d)"
    using assms(1) by (intro list_update_same_conv [THEN iffD2]) simp_all
  then show ?thesis using assms(2) by (simp add: entries_def map_update)
qed

lemma entries_sessions: "Some x \<in> set (entries d) \<longleftrightarrow> (\<exists>i se. session_at d i se \<and> x = entry se)"
proof
  assume "Some x \<in> set (entries d)"
  then obtain i where i: "i < length (entries d)" "entries d ! i = Some x" unfolding in_set_conv_nth by blast
  then show "\<exists>i se. session_at d i se \<and> x = entry se"
    by (cases "dm_sessions d ! i") (auto simp: entries_def)
next
  assume "\<exists>i se. session_at d i se \<and> x = entry se"
  then obtain i se where "session_at d i se" "x = entry se" by blast
  then have "i < length (entries d)" "entries d ! i = Some x" by (simp_all add: entries_def)
  then show "Some x \<in> set (entries d)" by (metis nth_mem)
qed

lemma entry_shut [simp]: "entry (shut_session fds n se) = entry se"
  by (simp add: entry_def shut_session_def)

lemma entries_shut:
  "map (map_option entry) (map2 (\<lambda>n. map_option (shut_session fds n)) (map f [0..<length ss]) ss) = map (map_option entry) ss"
proof (rule nth_equalityI)
  fix i
  assume "i < length (map (map_option entry) (map2 (\<lambda>n. map_option (shut_session fds n)) (map f [0..<length ss]) ss))"
  then have "i < length ss" by simp
  then show "map (map_option entry) (map2 (\<lambda>n. map_option (shut_session fds n)) (map f [0..<length ss]) ss) ! i
      = map (map_option entry) ss ! i"
    by (cases "ss ! i") simp_all
qed simp

definition sessions_inv :: "nat \<Rightarrow> daemon \<Rightarrow> bool" where
  "sessions_inv n d \<longleftrightarrow> registered n (sv_registry (dm_server d)) (entries d)"

lemma sessions_inv_same:
  "sessions_inv n d \<Longrightarrow> sv_registry (dm_server d') = sv_registry (dm_server d) \<Longrightarrow> entries d' = entries d \<Longrightarrow>
   \<exists>n' \<le> Suc n. sessions_inv n' d'"
  by (intro exI [of _ n]) (simp add: sessions_inv_def)

lemma sessions_inv_step:
  assumes "daemon_step m env d e d'" "workers_inv d" "sessions_inv n d" "Suc n < 2 ^ 64 - 1"
  shows "\<exists>n' \<le> Suc n. sessions_inv n' d'"
  using assms(1)
proof (cases rule: daemon_step.cases)
  case (begin_connection i fd p stream)
  note b = pool_begin [OF begin_connection(3)]
  have i: "i < length (entries d)" using assms(2) b(1) by (simp add: workers_inv_def entries_def)
  have none: "entries d ! i = None"
  proof (cases "dm_sessions d ! i")
    case (Some se)
    then have "workers (sv_pool (dm_server d)) ! i = Running (se_fd se)"
      using assms(2) i by (simp add: workers_inv_def entries_def)
    then show ?thesis using b(2) by simp
  qed (use i in \<open>simp add: entries_def\<close>)
  obtain token r where g: "guard_enter fd (sv_registry (dm_server d)) = (token, r)" by fastforce
  obtain n' where n: "n' \<le> Suc n" "registered n' r (if token = 0 then entries d else (entries d)[i := Some (token, fd)])"
    using registered_enter [OF _ assms(4) g i none] assms(3) by (auto simp: sessions_inv_def)
  have "entries d' = (if token = 0 then entries d else (entries d)[i := Some (token, fd)])" "sv_registry (dm_server d') = r"
    using begin_connection g
    by (cases "token = 0"; simp add: begin_session_def guard_ok_def entries_def entry_def map_update Let_def)+
  then show ?thesis using n by (intro exI [of _ n']) (simp add: sessions_inv_def)
next
  case (end_connection i se p)
  have "registered n (guard_exit (se_token se) (sv_registry (dm_server d))) ((entries d)[i := None])"
    using registered_exit [of n "sv_registry (dm_server d)" "entries d" i "se_token se" "se_fd se"] end_connection assms(3)
    by (simp add: sessions_inv_def entries_def entry_def)
  moreover have "entries d' = (entries d)[i := None]" using end_connection by (simp add: entries_def map_update)
  ultimately show ?thesis using end_connection by (intro exI [of _ n]) (simp add: sessions_inv_def)
next
  case (turn ready stop sv k)
  have "sv_registry (dm_server d') = sv_registry (dm_server d)" "entries d' = entries d"
    using run_turn_effect(1) [OF turn(4)] by (simp_all add: turn(2))
  with assms(3) show ?thesis by (rule sessions_inv_same)
next
  case (stop_connections fds registry arrived)
  have "entries d' = entries d" unfolding stop_connections(2) by (simp add: entries_def entries_shut del: map_map)
  moreover have "sv_registry (dm_server d') = registry" by (simp add: stop_connections(2))
  moreover have "registered n registry (entries d)"
    using registered_stop(1) [OF _ stop_connections(4)] assms(3) by (simp add: sessions_inv_def)
  ultimately show ?thesis by (intro exI [of _ n]) (simp add: sessions_inv_def)
next
  case (receive_other i se now x c h)
  have "entries d' = entries d"
    unfolding receive_other(2) by (rule entries_same_session [OF receive_other(3)]) (simp add: entry_def)
  then show ?thesis using receive_other(2) by (intro sessions_inv_same [OF assms(3)]) simp_all
next
  case (receive_request i se now r c h q)
  have "entries d' = entries d"
    unfolding receive_request(2) entries_fields
    by (rule entries_same_session [OF receive_request(3)]) (simp add: entry_def)
  then show ?thesis using receive_request(2) by (intro sessions_inv_same [OF assms(3)]) simp_all
next
  case (reply i se r b ok c)
  have "entries d' = entries d"
    unfolding reply(2) by (rule entries_same_session [OF reply(3)]) (simp add: entry_def)
  then show ?thesis using reply(2) by (intro sessions_inv_same [OF assms(3)]) simp_all
qed (rule sessions_inv_same [OF assms(3)]; simp add: request_stop_def)+

subsection \<open>Connections after the stop\<close>

definition dying :: "session \<Rightarrow> bool" where
  "dying se \<longleftrightarrow> se_turn se = Ended \<or>
     (Eof \<in> set (sk_in (cn_stream (se_conn se))) \<and> (\<exists>ws. sk_out (cn_stream (se_conn se)) = WriteErr EPIPE # ws))"

text \<open>The codecs that the factory makes.\<close>

definition made_codec :: "codec \<Rightarrow> bool" where
  "made_codec c \<longleftrightarrow> c = BinaryCodec \<or> (\<exists>rt. c = ProtobufCodec rt)"

definition closing_inv :: "daemon \<Rightarrow> bool" where
  "closing_inv d \<longleftrightarrow> made_codec (sv_codec (dm_server d))
     \<and> (rg_stopping (sv_registry (dm_server d)) \<longrightarrow> (\<forall>i se. session_at d i se \<longrightarrow> dying se))
     \<and> (dm_acceptor d \<in> {StoppingPool, Joining} \<longrightarrow> rg_stopping (sv_registry (dm_server d)))
     \<and> (dm_acceptor d = Joining \<longrightarrow> stopping (sv_pool (dm_server d)))"

lemma make_codec_made: "make_codec build name = Some c \<Longrightarrow> made_codec c"
  by (cases build) (auto simp: make_codec_def made_codec_def split: if_splits)

lemma made_codec_appends: "made_codec c \<Longrightarrow> enc_response c r buf = buf @ enc_response c r []"
  unfolding made_codec_def using bin.appends [of r buf] pb.appends [of _ r buf] by (elim disjE exE) simp_all

lemma serve_receive_keeps_end:
  assumes "serve_receive codec m env now c h = Some (x, c', h')" "Eof \<in> set (sk_in (cn_stream c))"
  shows "Eof \<in> set (sk_in (cn_stream c'))"
proof -
  obtain fr buf s where f: "read_frame (cn_stream c) (cn_request_body c) = Some (fr, buf, s)" "Eof \<in> set (sk_in s)"
    using read_frame_ends [OF assms(2)] by blast
  then have "cn_stream c' = s" using assms(1) by (auto simp: serve_receive_def Let_def split: if_splits prod.splits)
  then show ?thesis using f(2) by simp
qed

lemma dying_receive:
  assumes "dying se" "se_turn se = Reading" "serve_receive codec m env now (se_conn se) h = Some (x, c, h')"
  shows "dying (se\<lparr>se_conn := c, se_turn := t\<rparr>)"
  using assms serve_receive_keeps_end [OF assms(3)] serve_receive_out(1) [OF assms(3)] by (auto simp: dying_def)

lemma dying_reply:
  assumes "dying se" "se_turn se = Replying r b" "made_codec codec" "serve_reply codec r b (se_conn se) = Some (ok, c)"
  shows "\<not> ok"
proof -
  obtain ws where "sk_out (cn_stream (se_conn se)) = WriteErr EPIPE # ws" using assms(1,2) by (auto simp: dying_def)
  from serve_reply_broken [OF this made_codec_appends [OF assms(3)], of r b] assms(4) show ?thesis by force
qed

lemma shut_dying: "se_fd se \<in> set fds \<Longrightarrow> dying (shut_session fds n se)"
  by (simp add: dying_def shut_session_def shut_def)

lemma guard_enter_stopping: "guard_enter fd r = (token, r') \<Longrightarrow> rg_stopping r' = rg_stopping r \<and> (rg_stopping r \<longrightarrow> token = 0)"
  by (auto simp: guard_enter_def registry_add_def Let_def split: if_splits)

lemma guard_exit_stopping [simp]: "rg_stopping (guard_exit t r) = rg_stopping r"
  by (simp add: guard_exit_def registry_remove_def)

lemma pool_step_stopping: "pool_step p e p' \<Longrightarrow> stopping p \<Longrightarrow> stopping p'"
  by (auto elim!: pool_step.cases simp: post_def shutdown_def worker_section_def worker_done_def Let_def
      split: if_splits list.splits)

lemma closing_inv_step:
  assumes "daemon_step m env d e d'" "closing_inv d" "sessions_inv n d"
  shows "closing_inv d'"
proof -
  let ?sv = "dm_server d"
  have c: "made_codec (sv_codec ?sv)"
    and dy: "\<And>i se. rg_stopping (sv_registry ?sv) \<Longrightarrow> session_at d i se \<Longrightarrow> dying se"
    and ph: "dm_acceptor d \<in> {StoppingPool, Joining} \<Longrightarrow> rg_stopping (sv_registry ?sv)"
      "dm_acceptor d = Joining \<Longrightarrow> stopping (sv_pool ?sv)"
    using assms(2) unfolding closing_inv_def by blast+
  show ?thesis
    using assms(1)
  proof (cases rule: daemon_step.cases)
    case (turn ready stop sv k)
    then show ?thesis using run_turn_effect(1,3) [OF turn(4)] c dy by (auto simp: closing_inv_def)
  next
    case (stop_connections fds registry arrived)
    note r = registered_stop [OF _ stop_connections(4), of n "entries d"]
    have "dying se" if at: "session_at d' i se" for i se
    proof -
      have i: "i < length (dm_sessions d)" using at stop_connections(2) by simp
      then obtain se0 where s: "dm_sessions d ! i = Some se0" "se = shut_session fds (arrived i) se0"
        using at stop_connections(2) by auto
      then have "Some (entry se0) \<in> set (entries d)" using i unfolding entries_sessions by blast
      then have "se_fd se0 \<in> set fds" using r(3) [of "entry se0"] assms(3) by (simp add: sessions_inv_def entry_def)
      then show ?thesis using s(2) shut_dying by simp
    qed
    then show ?thesis using stop_connections(2) r(2) assms(3) c by (simp add: closing_inv_def sessions_inv_def)
  next
    case (begin_connection i fd p stream)
    obtain token r where g: "guard_enter fd (sv_registry ?sv) = (token, r)" by fastforce
    note gs = guard_enter_stopping [OF g]
    have "d' = (with_pool d p)\<lparr>dm_server := (dm_server (with_pool d p))\<lparr>sv_registry := r\<rparr>\<rparr>" if "rg_stopping (sv_registry ?sv)"
      using that begin_connection(2) g gs by (simp add: begin_session_def guard_ok_def)
    moreover have "sv_registry (dm_server d') = r"
      using begin_connection(2) g by (simp add: begin_session_def Let_def)
    ultimately show ?thesis
      using begin_connection(2) c dy ph gs pool_step_stopping [OF begin_connection(3)]
      by (cases "rg_stopping (sv_registry ?sv)") (auto simp: closing_inv_def)
  next
    case (receive_other i se now x co h)
    then show ?thesis using c dy ph dying_receive [OF _ receive_other(4,5)]
      by (auto simp: closing_inv_def nth_list_update split: if_splits)
  next
    case (receive_request i se now r co h q)
    then show ?thesis using c dy ph dying_receive [OF _ receive_request(4,5)]
      by (auto simp: closing_inv_def nth_list_update split: if_splits)
  next
    case (reply i se r b ok co)
    have "dying (se\<lparr>se_conn := co, se_turn := (if ok then Reading else Ended)\<rparr>)" if "rg_stopping (sv_registry ?sv)"
      using dying_reply [OF dy [OF that reply(3)] reply(4) c reply(5)] by (simp add: dying_def)
    then show ?thesis using reply(2,3) c dy ph by (auto simp: closing_inv_def nth_list_update split: if_splits)
  next
    case (end_connection i se p)
    then show ?thesis using c dy ph pool_finish(6) [OF end_connection(5)]
      by (auto simp: closing_inv_def nth_list_update split: if_splits)
  next
    case (end_abandoned i fd p)
    then show ?thesis using c dy ph pool_finish(6) [OF end_abandoned(5)] by (auto simp: closing_inv_def)
  next
    case (pool e p)
    then show ?thesis using c dy ph pool_step_stopping [OF pool(4)] by (auto simp: closing_inv_def)
  qed (use c dy ph in \<open>auto simp: closing_inv_def request_stop_def\<close>)
qed

subsection \<open>Runs\<close>

definition counters_inv :: "daemon \<Rightarrow> bool" where
  "counters_inv d \<longleftrightarrow>
     sv_accepted (dm_server d) = posted (sv_pool (dm_server d)) + rejected (sv_pool (dm_server d))
     \<and> sv_rejected (dm_server d) = rejected (sv_pool (dm_server d))"

lemma counters_inv_step:
  assumes "daemon_step m env d e d'" "counters_inv d"
  shows "counters_inv d'"
  using assms(1)
proof (cases rule: daemon_step.cases)
  case (turn ready stop sv k)
  show ?thesis
    using run_turn_posts [OF turn(4)]
  proof (elim disjE exE conjE)
    fix fd status
    assume a: "post fd (sv_pool (dm_server d)) = (status, sv_pool sv)" "sv_accepted sv = sv_accepted (dm_server d) + 1"
      "sv_rejected sv = sv_rejected (dm_server d) + (if status = Accepted then 0 else 1)"
    show ?thesis using post_effect(2,3) [OF a(1)] a(2,3) assms(2) turn(2) by (simp add: counters_inv_def)
  qed (use turn(2) assms(2) in \<open>simp add: counters_inv_def\<close>)
next
  case (pool e p)
  then show ?thesis using pool_only_running(3,4) [OF pool(4,3)] assms(2) by (simp add: counters_inv_def)
next
  case (begin_connection i fd p stream)
  then show ?thesis using pool_begin(4,5) [OF begin_connection(3)] assms(2) by (simp add: counters_inv_def)
next
  case (end_connection i se p)
  then show ?thesis using pool_finish(4,5) [OF end_connection(5)] assms(2) by (simp add: counters_inv_def)
next
  case (end_abandoned i fd p)
  then show ?thesis using pool_finish(4,5) [OF end_abandoned(5)] assms(2) by (simp add: counters_inv_def)
qed (use assms(2) in \<open>simp_all add: counters_inv_def request_stop_def\<close>)

lemma daemon_make_inv:
  assumes "server_make build hasher env pipe2 spawnable config k = Some (Inr sv, k')"
  shows "workers_inv (daemon_make sv k')" "sessions_inv 0 (daemon_make sv k')" "closing_inv (daemon_make sv k')"
    "counters_inv (daemon_make sv k')" "0 < length (workers (sv_pool sv))"
    "handler_make hasher env (cache_capacity config) (cache_shards config) (cfg_scoring config) (cfg_policy config)
       (cfg_privacy config) = Inr (sv_handler sv)"
proof -
  have made: "handler_make hasher env (cache_capacity config) (cache_shards config) (cfg_scoring config) (cfg_policy config)
       (cfg_privacy config) = Inr (sv_handler sv)"
    "pool_make spawnable (thread_count config) (max_queued_connections config) = Inr (sv_pool sv)"
    "make_codec build (cfg_codec_name config) = Some (sv_codec sv)" "sv_registry sv = registry_make"
    "sv_accepted sv = 0" "sv_rejected sv = 0"
    using assms by (auto simp: server_make_def Let_def split: option.splits sum.splits)
  note p = pool_make_inv(1) [OF made(2)] pool_make_start [OF made(2)]
  have "made_codec (sv_codec sv)" by (rule make_codec_made [OF made(3)])
  then show "workers_inv (daemon_make sv k')" "sessions_inv 0 (daemon_make sv k')" "closing_inv (daemon_make sv k')"
    "counters_inv (daemon_make sv k')" "0 < length (workers (sv_pool sv))"
    using p made(4-6) make_inv
    by (auto simp: daemon_make_def workers_inv_def sessions_inv_def registered_def entries_def one_token_def
        closing_inv_def counters_inv_def registry_make_def)
  show "handler_make hasher env (cache_capacity config) (cache_shards config) (cfg_scoring config) (cfg_policy config)
       (cfg_privacy config) = Inr (sv_handler sv)" by (rule made(1))
qed

text \<open>All invariants along a run, with at most one token per step.\<close>

lemma daemon_run_inv:
  assumes "daemon_run m env d0 es d" "workers_inv d0" "sessions_inv 0 d0" "closing_inv d0" "counters_inv d0"
    and "length es < 2 ^ 64 - 2"
  shows "workers_inv d \<and> closing_inv d \<and> counters_inv d \<and> (\<exists>n \<le> length es. sessions_inv n d)
    \<and> length (workers (sv_pool (dm_server d))) = length (workers (sv_pool (dm_server d0)))"
  using assms
proof (induction rule: daemon_run.induct)
  case (run_step d0 es d e d')
  then obtain n where i: "workers_inv d" "closing_inv d" "counters_inv d" "n \<le> length es" "sessions_inv n d"
      "length (workers (sv_pool (dm_server d))) = length (workers (sv_pool (dm_server d0)))" by auto
  have "Suc n < 2 ^ 64 - 1" using i(4) run_step.prems(5) by simp
  then obtain n' where n: "n' \<le> Suc n" "sessions_inv n' d'" using sessions_inv_step [OF run_step.hyps(2) i(1,5)] by blast
  have w: "workers_inv d'" by (rule workers_inv_step [OF run_step.hyps(2) i(1)])
  have "length (dm_sessions d') = length (dm_sessions d)"
    using run_step.hyps(2) by (cases rule: daemon_step.cases) simp_all
  then have "length (workers (sv_pool (dm_server d'))) = length (workers (sv_pool (dm_server d)))"
    using i(1) w by (simp add: workers_inv_def)
  then show ?case
    using w closing_inv_step [OF run_step.hyps(2) i(2,5)] counters_inv_step [OF run_step.hyps(2) i(3)] n i(4,6)
    by (auto intro!: exI [of _ n'])
qed auto

text \<open>The handler has seen exactly the calls of the run, in their order.\<close>

lemma daemon_run_handled:
  assumes "daemon_run m env d0 es d"
  shows "handle_all m env (map fst (handled es)) (sv_handler (dm_server d0)) = (map snd (handled es), sv_handler (dm_server d))"
  using assms
proof (induction rule: daemon_run.induct)
  case (run_step d0 es d e d')
  show ?case
  proof (cases "handled_by e")
    case None
    have "sv_handler (dm_server d') = sv_handler (dm_server d)"
      using run_step.hyps(2) None
      by (cases rule: daemon_step.cases) (auto simp: request_stop_def dest: run_turn_effect(2))
    then show ?thesis using run_step.IH None by simp
  next
    case (Some y)
    from run_step.hyps(2) obtain now q r where y: "y = ((now, q), r)"
        "handle m env now q (sv_handler (dm_server d)) = (r, sv_handler (dm_server d'))"
    proof (cases rule: daemon_step.cases)
      case (receive_request i se now r c h q)
      have "handle m env now q (sv_handler (dm_server d)) = (r, h)"
        using serve_receive_handles [OF receive_request(5)] receive_request(6) by auto
      then show ?thesis using that [of now q r] Some receive_request(1,2) by auto
    qed (use Some in auto)
    then show ?thesis using run_step.IH Some by (simp add: handle_all_def run_ops_append)
  qed
qed (simp add: handle_all_def)

subsection \<open>Shutting down\<close>

text \<open>The steps the daemon takes by itself, as opposed to calls and the closing thread.\<close>

fun own_step :: "daemon_event \<Rightarrow> bool" where
  "own_step (EvPool e) \<longleftrightarrow> True"
| "own_step (EvBegin i fd) \<longleftrightarrow> True"
| "own_step (EvReceive i now q) \<longleftrightarrow> True"
| "own_step (EvReply i ok) \<longleftrightarrow> True"
| "own_step (EvEnd i) \<longleftrightarrow> True"
| "own_step _ \<longleftrightarrow> False"

fun turns_left :: "session option \<Rightarrow> nat" where
  "turns_left None = 0"
| "turns_left (Some se) = (case se_turn se of Reading \<Rightarrow> 2 | Replying r b \<Rightarrow> 1 | Ended \<Rightarrow> 0)"

definition work_left :: "daemon \<Rightarrow> nat" where
  "work_left d = remaining_work (sv_pool (dm_server d)) + sum_list (map turns_left (dm_sessions d))"

lemma pool_only_internal: "pool_only e \<Longrightarrow> internal e"
  by (cases e rule: pool_only.cases) simp_all

lemma joining_step:
  assumes "daemon_step m env d e d'" "own_step e" "dm_acceptor d = Joining" "workers_inv d" "closing_inv d"
  shows "work_left d' < work_left d" "dm_acceptor d' = Joining"
proof -
  let ?p = "sv_pool (dm_server d)"
  have c: "made_codec (sv_codec (dm_server d))" "rg_stopping (sv_registry (dm_server d))" "stopping ?p"
    and dy: "\<And>i se. session_at d i se \<Longrightarrow> dying se"
    using assms(3,5) by (auto simp: closing_inv_def)
  have "work_left d' < work_left d \<and> dm_acceptor d' = Joining"
    using assms(1)
  proof (cases rule: daemon_step.cases)
    case (pool e p)
    then show ?thesis using stopped_step(1) [OF pool(4) pool_only_internal [OF pool(3)] c(3)] assms(3)
      by (simp add: work_left_def)
  next
    case (begin_connection i fd p stream)
    obtain token r where g: "guard_enter fd (sv_registry (dm_server d)) = (token, r)" by fastforce
    then have "token = 0" using guard_enter_stopping c(2) by blast
    then have "dm_sessions d' = dm_sessions d" using begin_connection(2) g by (simp add: begin_session_def guard_ok_def)
    then show ?thesis using stopped_step(1) [OF begin_connection(3) _ c(3)] begin_connection(2) assms(3)
      by (simp add: work_left_def)
  next
    case (receive_other i se now x co h)
    then show ?thesis
      using weight_update [of i "dm_sessions d" turns_left "Some (se\<lparr>se_conn := co, se_turn := (case x of HangUp \<Rightarrow> Ended | Reply r b \<Rightarrow> Replying r b)\<rparr>)"]
        assms(3)
      by (auto simp: work_left_def split: received.splits)
  next
    case (receive_request i se now r co h q)
    then show ?thesis
      using weight_update [of i "dm_sessions d" turns_left "Some (se\<lparr>se_conn := co, se_turn := Replying r True\<rparr>)"] assms(3)
      by (simp add: work_left_def)
  next
    case (reply i se r b ok co)
    have "\<not> ok" by (rule dying_reply [OF dy [OF reply(3)] reply(4) c(1) reply(5)])
    then show ?thesis
      using reply(2-4) weight_update [of i "dm_sessions d" turns_left "Some (se\<lparr>se_conn := co, se_turn := Ended\<rparr>)"] assms(3)
      by (simp add: work_left_def)
  next
    case (end_connection i se p)
    then show ?thesis
      using weight_update [of i "dm_sessions d" turns_left None] stopped_step(1) [OF end_connection(5) _ c(3)] assms(3)
      by (simp add: work_left_def)
  next
    case (end_abandoned i fd p)
    then show ?thesis using stopped_step(1) [OF end_abandoned(5) _ c(3)] assms(3) by (simp add: work_left_def)
  qed (use assms(2) in simp_all)
  then show "work_left d' < work_left d" "dm_acceptor d' = Joining" by simp_all
qed

text \<open>A worker with a connection that was shut down can always move on.\<close>

lemma own_stepI: "daemon_step m env d e d' \<Longrightarrow> own_step e \<Longrightarrow> \<exists>e d'. daemon_step m env d e d' \<and> own_step e"
  by blast

lemma session_moves:
  assumes "session_at d i se" "dying se" "made_codec (sv_codec (dm_server d))" "workers_inv d"
  shows "\<exists>e d'. daemon_step m env d e d' \<and> own_step e"
proof (cases "se_turn se")
  case Reading
  then have "Eof \<in> set (sk_in (cn_stream (se_conn se)))" using assms(2) by (simp add: dying_def)
  then obtain x c h where x: "serve_receive (sv_codec (dm_server d)) m env 0 (se_conn se) (sv_handler (dm_server d)) = Some (x, c, h)"
    using serve_receive_ends by blast
  from serve_receive_handles [OF x] show ?thesis
  proof (elim disjE exE conjE)
    assume "\<forall>r. x \<noteq> Reply r True"
    from daemon_step.receive_other [OF assms(1) Reading x this] show ?thesis by (rule own_stepI) simp
  next
    fix q r assume "dec_request (sv_codec (dm_server d)) (cn_request_body c) default_request = (NoError, q)" "x = Reply r True"
    from daemon_step.receive_request [OF assms(1) Reading x [unfolded this(2)] this(1)] show ?thesis by (rule own_stepI) simp
  qed
next
  case (Replying r b)
  then obtain ws where "sk_out (cn_stream (se_conn se)) = WriteErr EPIPE # ws" using assms(2) by (auto simp: dying_def)
  from serve_reply_broken [OF this made_codec_appends [OF assms(3)], of r b]
  obtain c where "serve_reply (sv_codec (dm_server d)) r b (se_conn se) = Some (False, c)" by blast
  from daemon_step.reply [OF assms(1) Replying this] show ?thesis by (rule own_stepI) simp
next
  case Ended
  have "workers (sv_pool (dm_server d)) ! i = Running (se_fd se)" "i < length (workers (sv_pool (dm_server d)))"
    using assms(1,4) by (simp_all add: workers_inv_def)
  from step_done [OF this(2,1), of False] have "pool_step (sv_pool (dm_server d)) (Done i (se_fd se) False)
      (worker_done i False (sv_pool (dm_server d)))" .
  from daemon_step.end_connection [OF assms(1) Ended this] show ?thesis by (rule own_stepI) simp
qed

lemma joining_progress:
  assumes "dm_acceptor d = Joining" "workers_inv d" "closing_inv d" "\<not> joined (sv_pool (dm_server d))"
  shows "\<exists>e d'. daemon_step m env d e d' \<and> own_step e"
proof -
  let ?p = "sv_pool (dm_server d)"
  have c: "made_codec (sv_codec (dm_server d))" "stopping ?p" and dy: "\<And>i se. session_at d i se \<Longrightarrow> dying se"
    using assms(1,3) by (auto simp: closing_inv_def)
  have "pool_inv ?p" using assms(2) by (simp add: workers_inv_def)
  from progress [OF this _ assms(4)] c(2) obtain e p where e: "pool_step ?p e p" "internal e" by blast
  show ?thesis
  proof (cases "pool_only e")
    case True
    from daemon_step.pool [OF this e(1)] show ?thesis by (rule own_stepI) simp
  next
    case False
    with e(2) consider i fd where "e = Section i (Some fd)" | i fd b where "e = Done i fd b"
      by (cases e rule: pool_only.cases) auto
    then show ?thesis
    proof cases
      case (1 i fd)
      from daemon_step.begin_connection [OF e(1) [unfolded 1], of "\<lparr>sk_in = [], sk_out = [], sk_sent = []\<rparr>"]
      show ?thesis by (rule own_stepI) simp_all
    next
      case (2 i fd b)
      note f = pool_finish(1,2) [OF e(1) [unfolded 2]]
      then have i: "i < length (dm_sessions d)" using assms(2) by (simp add: workers_inv_def)
      show ?thesis
      proof (cases "dm_sessions d ! i")
        case None
        from daemon_step.end_abandoned [OF i None step_done [OF f, of False]] show ?thesis by (rule own_stepI) simp
      next
        case (Some se)
        then show ?thesis using session_moves [OF _ _ c(1) assms(2), of i se] dy [of i se] i by simp
      qed
    qed
  qed
qed

lemma joined_empty:
  assumes "joined (sv_pool (dm_server d))" "workers_inv d" "sessions_inv n d" "0 < length (workers (sv_pool (dm_server d)))"
  shows "queue (sv_pool (dm_server d)) = []" "active (sv_registry (dm_server d)) = 0" "session_at d i se \<Longrightarrow> False"
proof -
  let ?p = "sv_pool (dm_server d)"
  have none: False if "session_at d i se" for i se
    using that assms(1,2) nth_mem [of i "workers ?p"] by (auto simp: workers_inv_def joined_def list_all_iff)
  then show "session_at d i se \<Longrightarrow> False" .
  have "set (rg_connections (sv_registry (dm_server d))) = {x. Some x \<in> set (entries d)}"
    using assms(3) unfolding sessions_inv_def registered_def by blast
  also have "\<dots> = {}" unfolding entries_sessions using none by blast
  finally show "active (sv_registry (dm_server d)) = 0" by (simp add: active_def)
  show "queue ?p = []" using assms(1,2,4) by (cases "workers ?p") (auto simp: workers_inv_def pool_inv_def joined_def)
qed

subsection \<open>Properties\<close>


text \<open>
  C5. The whole daemon shuts down: once \<open>run\<close> has closed the listener, stopped the connections and
  closed the pool, its own steps are bounded in number by the work that is left; as long as the workers
  are not all joined one of them is possible, whatever the clients do; and when they are joined no
  connection is served any more, the registry is empty and nothing is queued.
\<close>

theorem daemon_shutdown_completes:
  assumes "server_make build hasher env pipe2 spawnable config k = Some (Inr sv, k')"
    and "daemon_run m env (daemon_make sv k') es d" and "length es < 2 ^ 64 - 2" and "dm_acceptor d = Joining"
  shows "(daemon_step m env d e d' \<and> own_step e \<longrightarrow> work_left d' < work_left d \<and> dm_acceptor d' = Joining) \<and>
    (\<not> joined (sv_pool (dm_server d)) \<longrightarrow> (\<exists>e d'. daemon_step m env d e d' \<and> own_step e)) \<and>
    (joined (sv_pool (dm_server d)) \<longrightarrow> queue (sv_pool (dm_server d)) = [] \<and> active (sv_registry (dm_server d)) = 0
       \<and> \<not> session_at d i se)"
proof -
  note i = daemon_make_inv [OF assms(1)]
  from daemon_run_inv [OF assms(2) i(1-4) assms(3)] obtain n where
    n: "workers_inv d" "closing_inv d" "sessions_inv n d" "0 < length (workers (sv_pool (dm_server d)))"
    using i(5) by (auto simp: daemon_make_def)
  show ?thesis
    using joining_step [OF _ _ assms(4) n(1,2), where m = m and env = env and e = e and d' = d'] joining_progress [OF assms(4) n(1,2), where m = m and env = env]
      joined_empty [OF _ n(1,3,4)] by blast
qed


subsection \<open>Instances\<close>

text \<open>A daemon with one worker on a fresh path, whose first accepted connection is descriptor 5.\<close>

definition demo_server_config :: ServerConfig where
  "demo_server_config = default_server_config\<lparr>socket_path := [47, 115], cache_capacity := 4, cache_shards := 2,
     thread_count := 1, max_queued_connections := 2, cfg_scoring := demo_scoring, cfg_policy := demo_config\<rparr>"

definition demo_boot :: kernel where
  "demo_boot = \<lparr>k_script = [SysErr ENOENT, SysOk 3, SysOk 0, SysOk 0, SysOk 5], k_trace = [], k_umask = 18\<rparr>"

definition demo_workers :: "int ThreadPool" where
  "demo_workers = projr (pool_make 1 1 2)"

lemma demo_workers: "pool_make 1 1 2 = Inr demo_workers" "workers demo_workers = [AtTop]" "queue demo_workers = []"
    "stopping demo_workers = False" "max_queued_tasks demo_workers = 2"
  by (simp_all add: demo_workers_def pool_make_def)

definition demo_server :: Server where
  "demo_server = \<lparr>sv_config = demo_server_config, sv_listener = \<lparr>ls_fd = 3, ls_path = [47, 115]\<rparr>,
     sv_handler = demo_handler, sv_registry = registry_make, sv_codec = BinaryCodec,
     sv_stop = \<lparr>stop_read = 10, stop_write = 11\<rparr>, sv_stop_bytes = 0, sv_accepted = 0, sv_rejected = 0,
     sv_completed = 0, sv_pool = demo_workers\<rparr>"

lemma demo_server_made:
  obtains k' where "server_make None (\<lambda>i. i) demo_env (Inr (10, 11)) 1 demo_server_config demo_boot = Some (Inr demo_server, k')"
    "k_script k' = [SysOk 5]"
proof -
  obtain k' where k: "listener_bind [47, 115] 128 demo_boot = Some (Inr \<lparr>ls_fd = 3, ls_path = [47, 115]\<rparr>, k')" "k_script k' = [SysOk 5]"
    by (simp add: listener_bind_def clear_stale_def make_address_def make_socket_def kMaxSocketPathLength_def io_simps
        demo_boot_def Let_def)
  have "server_make None (\<lambda>i. i) demo_env (Inr (10, 11)) 1 demo_server_config demo_boot = Some (Inr demo_server, k')"
    using k(1) demo_handler_made demo_workers(1)
    by (simp add: server_make_def demo_server_config_def default_server_config_def make_codec_def make_stop_pipe_def
        demo_server_def Let_def)
  then show ?thesis using that k(2) by blast
qed

text \<open>The connection is accepted, taken by the worker, and its first request handled.\<close>

lemma demo_request_run:
  assumes "k_script k' = [SysOk 5]"
  shows "\<exists>q r d. daemon_run demo_libm demo_env (daemon_make demo_server k')
    [EvTurn (Polled True), EvBegin 0 5, EvReceive 0 9 (Some (q, r))] d"
proof -
  let ?d0 = "daemon_make demo_server k'"
  obtain p1 where p1: "post 5 demo_workers = (Accepted, p1)" "workers p1 = [AtTop]" "queue p1 = [5]"
    by (simp add: post_def demo_workers)
  obtain k1 where "run_turn (Polled True) demo_server k' = Some (Inr (False, demo_server\<lparr>sv_accepted := 1, sv_pool := p1\<rparr>), k1)"
    using p1(1) assms
    by (simp add: run_turn_def accept_one_def listener_accept_def accept_loop.simps andThen_def give_def demo_server_def Let_def)
  then obtain d1 where 1: "daemon_step demo_libm demo_env ?d0 (EvTurn (Polled True)) d1" "sv_pool (dm_server d1) = p1"
      "sv_registry (dm_server d1) = registry_make" "sv_handler (dm_server d1) = demo_handler"
      "sv_codec (dm_server d1) = BinaryCodec" "dm_sessions d1 = [None]"
    using daemon_step.turn [of ?d0 "Polled True" False _ k1 demo_libm demo_env]
    by (auto simp: daemon_make_def demo_server_def demo_workers)
  have "pool_step p1 (Section 0 (Some 5)) (worker_section 0 p1)" using step_section [of 0 p1] p1 by simp
  then obtain d2 se where 2: "daemon_step demo_libm demo_env d1 (EvBegin 0 5) d2" "dm_sessions d2 = [Some se]"
      "se_turn se = Reading" "se_conn se = conn_make demo_stream" "sv_handler (dm_server d2) = demo_handler"
      "sv_codec (dm_server d2) = BinaryCodec"
    using daemon_step.begin_connection [of d1 0 5 "worker_section 0 p1" demo_stream demo_libm demo_env] 1
    by (auto simp: begin_session_def guard_enter_def registry_add_def registry_make_def guard_ok_def demo_stream_def Let_def)
  obtain r h' where h: "handle demo_libm demo_env 9 demo_get demo_handler = (r, h')" by fastforce
  let ?f = "frame (encode_request demo_get [])"
  have "benign [Data (take 3 ?f), ReadErr EINTR, Data (drop 3 ?f)]" by (simp add: frame_def be4)
  moreover have "request_body_valid (req_body demo_get)" by (simp add: demo_get_def)
  ultimately obtain c where c: "serve_receive BinaryCodec demo_libm demo_env 9 (conn_make demo_stream) demo_handler = Some (Reply r True, c, h')"
    using bin.receive_request [of demo_get "conn_make demo_stream" "[Data (take 3 ?f), ReadErr EINTR, Data (drop 3 ?f)]" "[Eof]" "[]",
        OF _ _ _ _ h]
    by (auto simp: conn_make_def demo_stream_def BinaryCodec_def)
  then obtain q where "dec_request BinaryCodec (cn_request_body c) default_request = (NoError, q)"
    using serve_receive_handles [OF c] by auto
  then obtain d3 where "daemon_step demo_libm demo_env d2 (EvReceive 0 9 (Some (q, r))) d3"
    using daemon_step.receive_request [where d = d2 and i = 0 and se = se and m = demo_libm and env = demo_env
        and now = 9 and r = r and c = c and h = h' and q = q] 2 c by auto
  from daemon_run.run_step [OF daemon_run.run_step [OF daemon_run.run_step [OF daemon_run.run_start 1(1)] 2(1)] this]
  show ?thesis by auto
qed

text \<open>A stop request, and the closing sequence up to the join.\<close>

lemma demo_closing_run:
  "\<exists>d. daemon_run demo_libm demo_env (daemon_make demo_server k')
     [EvRequestStop, EvTurn (Polled False), EvCloseListener, EvStopAll, EvStopPool] d \<and> dm_acceptor d = Joining"
proof -
  let ?step = "daemon_step demo_libm demo_env"
  let ?d0 = "daemon_make demo_server k'"
  let ?d1 = "?d0\<lparr>dm_server := request_stop demo_server\<rparr>"
  have 1: "?step ?d0 EvRequestStop ?d1" using daemon_step.request [of demo_libm demo_env ?d0] by (simp add: daemon_make_def)
  have "run_turn (Polled False) (dm_server ?d1) (dm_kernel ?d1)
      = Some (Inr (True, (request_stop demo_server)\<lparr>sv_stop_bytes := drain_stop_pipe 1\<rparr>), dm_kernel ?d1)"
    by (simp add: run_turn_def request_stop_def demo_server_def give_def)
  from daemon_step.turn [OF _ this] obtain d2 where 2: "?step ?d1 (EvTurn (Polled False)) d2" "dm_acceptor d2 = ClosingListener"
    by (force simp: daemon_make_def)
  from daemon_step.close_listener [OF 2(2) prod.collapse [symmetric]]
  obtain d3 where 3: "?step d2 EvCloseListener d3" "dm_acceptor d3 = StoppingConnections" by force
  from daemon_step.stop_connections [OF disjI1 [OF 3(2)] prod.collapse [symmetric]]
  obtain d4 where 4: "?step d3 EvStopAll d4" "dm_acceptor d4 = StoppingPool" by force
  from daemon_step.stop_pool [OF 4(2)]
  obtain d5 where 5: "?step d4 EvStopPool d5" "dm_acceptor d5 = Joining" by force
  from daemon_run.run_step [OF daemon_run.run_step [OF daemon_run.run_step [OF daemon_run.run_step [OF
      daemon_run.run_step [OF daemon_run.run_start 1] 2(1)] 3(1)] 4(1)] 5(1)] 5(2)
  show ?thesis by auto
qed


theorem daemon_shutdown_completes_witness:
  "\<exists>k' es d. daemon_run demo_libm demo_env (daemon_make demo_server k') es d \<and> dm_acceptor d = Joining \<and>
     (joined (sv_pool (dm_server d)) \<or> (\<exists>e d'. daemon_step demo_libm demo_env d e d' \<and> own_step e))"
proof -
  obtain k' where k: "server_make None (\<lambda>i. i) demo_env (Inr (10, 11)) 1 demo_server_config demo_boot = Some (Inr demo_server, k')"
    by (rule demo_server_made)
  obtain d where d: "daemon_run demo_libm demo_env (daemon_make demo_server k')
     [EvRequestStop, EvTurn (Polled False), EvCloseListener, EvStopAll, EvStopPool] d" "dm_acceptor d = Joining"
    using demo_closing_run by blast
  then show ?thesis using daemon_shutdown_completes [OF k d(1) _ d(2)] by fastforce
qed


end
