(* ===== verification/Client_Connection.thy ===== *)
theory Client_Connection
  imports Serve Unix_Socket
begin

section \<open>One client connection (include/lrd/client/connection.hpp, src/client/connection.cpp)\<close>

text \<open>
  \<open>Connection\<close> is the client's end of the stream: a call writes one request frame, reads one response frame,
  checks that it answers this request, and turns the failures of the layers below into a \<open>CallStatus\<close>.
  Every output parameter of a method is passed in and returned, so that a failing call can be seen to
  leave it alone. None means that a read or write blocks for ever.
\<close>

definition EBADF :: int where "EBADF = 9"

fun type_to_string :: "MessageType \<Rightarrow> cstring" where
  "type_to_string GetItemRequest = lit ''GetItemRequest''"
| "type_to_string PutItemRequest = lit ''PutItemRequest''"
| "type_to_string DeleteItemRequest = lit ''DeleteItemRequest''"
| "type_to_string StatsRequest = lit ''StatsRequest''"
| "type_to_string RecommendRequest = lit ''RecommendRequest''"
| "type_to_string GetItemResponse = lit ''GetItemResponse''"
| "type_to_string PutItemResponse = lit ''PutItemResponse''"
| "type_to_string DeleteItemResponse = lit ''DeleteItemResponse''"
| "type_to_string StatsResponse = lit ''StatsResponse''"
| "type_to_string RecommendResponse = lit ''RecommendResponse''"
| "type_to_string ErrorResponse = lit ''ErrorResponse''"

datatype CallStatus =
    CallOk | CallNotFound | CallInvalidRequest | CallServerError | CallConnectionLost | CallProtocolError

fun call_status_to_string :: "CallStatus \<Rightarrow> cstring" where
  "call_status_to_string CallOk = lit ''Ok''"
| "call_status_to_string CallNotFound = lit ''NotFound''"
| "call_status_to_string CallInvalidRequest = lit ''InvalidRequest''"
| "call_status_to_string CallServerError = lit ''ServerError''"
| "call_status_to_string CallConnectionLost = lit ''ConnectionLost''"
| "call_status_to_string CallProtocolError = lit ''ProtocolError''"

record Connection =
  cl_fd :: Fd
  cl_stream :: socket
  cl_codec :: codec
  cl_read_buffer :: bytes
  cl_write_buffer :: bytes
  cl_next_request_id :: u64
  cl_last_error :: cstring

definition connected :: "Connection \<Rightarrow> bool" where
  "connected c \<longleftrightarrow> fd_valid (cl_fd c)"

text \<open>The constructor; the error is the text of the \<open>invalid_argument\<close> it throws.\<close>

definition connection_make :: "pb_runtime option \<Rightarrow> Fd \<Rightarrow> socket \<Rightarrow> cstring \<Rightarrow> cstring + Connection" where
  "connection_make build fd stream name =
     (case make_codec build name of
        None \<Rightarrow> Inl (lit ''unknown codec '' @ [39] @ name @ [39] @ lit ''; available: '' @ available_codecs build)
      | Some codec \<Rightarrow>
          Inr \<lparr>cl_fd = fd, cl_stream = stream, cl_codec = codec, cl_read_buffer = [], cl_write_buffer = [],
               cl_next_request_id = 1, cl_last_error = []\<rparr>)"

text \<open>\<open>Connection::connect\<close>: the exception is the system's or the constructor's, which drops the stream it was given.\<close>

datatype open_error = OpenSystem SystemError | OpenInvalid cstring

definition connection_connect ::
  "pb_runtime option \<Rightarrow> socket \<Rightarrow> cstring \<Rightarrow> cstring \<Rightarrow> kernel \<Rightarrow> ((open_error + Connection) \<times> kernel) option" where
  "connection_connect build stream path name k =
     (case stream_connect path k of
        None \<Rightarrow> None
      | Some (Inl e, k) \<Rightarrow> Some (Inl (OpenSystem e), k)
      | Some (Inr fd, k) \<Rightarrow>
          (case connection_make build fd stream name of
             Inl message \<Rightarrow> Some (Inl (OpenInvalid message), snd (fd_close fd k))
           | Inr c \<Rightarrow> Some (Inr c, k)))"

text \<open>What the system calls on the descriptor do: a closed one answers with an error and transfers nothing.\<close>

definition transport :: "Connection \<Rightarrow> socket" where
  "transport c =
     (if connected c then cl_stream c
      else (cl_stream c)\<lparr>sk_in := [ReadErr EBADF], sk_out := [WriteErr EBADF]\<rparr>)"

definition stream_close :: "Connection \<Rightarrow> Connection" where
  "stream_close c = c\<lparr>cl_fd := kInvalid\<rparr>"

definition connection_fail :: "CallStatus \<Rightarrow> cstring \<Rightarrow> Connection \<Rightarrow> CallStatus \<times> Connection" where
  "connection_fail status message c = (status, c\<lparr>cl_last_error := message\<rparr>)"

definition connection_call :: "Request \<Rightarrow> Response \<Rightarrow> Connection \<Rightarrow> (CallStatus \<times> Response \<times> Connection) option" where
  "connection_call request response c0 =
     (let c = c0\<lparr>cl_last_error := []\<rparr>;
          failing = (\<lambda>status message response c. let (st, c) = connection_fail status message c in Some (st, response, c))
      in case write_message (enc_request (cl_codec c)) (transport c) request (cl_write_buffer c) of
           None \<Rightarrow> None
         | Some (written, buf, s) \<Rightarrow>
             let c = c\<lparr>cl_stream := s, cl_write_buffer := buf\<rparr> in
             if \<not> frame_ok written then
               failing CallConnectionLost (lit ''send failed: '' @ frame_status_to_string (fr_status written)) response
                 (stream_close c)
             else (case read_frame (transport c) (cl_read_buffer c) of
                 None \<Rightarrow> None
               | Some (rd, body, s) \<Rightarrow>
                   let c = c\<lparr>cl_stream := s, cl_read_buffer := body\<rparr> in
                   if \<not> frame_ok rd then
                     failing CallConnectionLost (lit ''receive failed: '' @ frame_status_to_string (fr_status rd)) response
                       (stream_close c)
                   else
                     let (err, response) = dec_response (cl_codec c) body response in
                     if err \<noteq> NoError then
                       failing CallProtocolError (lit ''decode failed: '' @ decode_error_to_string err) response (stream_close c)
                     else if response_id response \<noteq> request_id request then
                       failing CallProtocolError
                         (lit ''response id '' @ decimal (unat (response_id response)) @ lit '' does not match request id ''
                            @ decimal (unat (request_id request))) response (stream_close c)
                     else (case resp_body response of
                         Failure status message \<Rightarrow>
                           failing (if status = InvalidRequest then CallInvalidRequest else CallServerError) message response c
                       | _ \<Rightarrow> Some (CallOk, response, c))))"

definition expect :: "(ResponseBody \<Rightarrow> 'a option) \<Rightarrow> Response \<Rightarrow> Connection \<Rightarrow> 'a option \<times> CallStatus \<times> Connection" where
  "expect alternative response c =
     (case alternative (resp_body response) of
        None \<Rightarrow> (None, connection_fail CallProtocolError
                          (lit ''unexpected reply type '' @ type_to_string (type_of_response (resp_body response))) c)
      | Some result \<Rightarrow> (Some result, CallOk, c))"

text \<open>
  The part the five methods share: the next id, the call, and the alternative of the variant that is
  expected. The result is there exactly when the method goes on.
\<close>

definition exchange ::
  "RequestBody \<Rightarrow> (ResponseBody \<Rightarrow> 'a option) \<Rightarrow> Connection \<Rightarrow> ('a option \<times> CallStatus \<times> Connection) option" where
  "exchange body alternative c =
     (let request = \<lparr>request_id = cl_next_request_id c, req_body = body\<rparr>;
          c = c\<lparr>cl_next_request_id := cl_next_request_id c + 1\<rparr>
      in case connection_call request default_response c of
           None \<Rightarrow> None
         | Some (status, response, c) \<Rightarrow>
             if status \<noteq> CallOk then Some (None, status, c) else Some (expect alternative response c))"

fun put_result :: "ResponseBody \<Rightarrow> StatusCode option" where
  "put_result (PutItemResult s) = Some s" | "put_result _ = None"

fun get_result :: "ResponseBody \<Rightarrow> (StatusCode \<times> Item) option" where
  "get_result (GetItemResult s it) = Some (s, it)" | "get_result _ = None"

fun delete_result :: "ResponseBody \<Rightarrow> StatusCode option" where
  "delete_result (DeleteItemResult s) = Some s" | "delete_result _ = None"

fun recommend_result :: "ResponseBody \<Rightarrow> RankedItem list option" where
  "recommend_result (RecommendResult s items) = Some items" | "recommend_result _ = None"

fun stats_result :: "ResponseBody \<Rightarrow> Stats option" where
  "stats_result (StatsResult s stats) = Some stats" | "stats_result _ = None"

definition put_item :: "Item \<Rightarrow> Connection \<Rightarrow> (CallStatus \<times> Connection) option" where
  "put_item item c =
     (if unat kMaxCategoryLength < length (category item) then
        Some (connection_fail CallInvalidRequest
          (lit ''category is '' @ decimal (length (category item)) @ lit '' bytes, limit is ''
             @ decimal (unat kMaxCategoryLength)) c)
      else if unat kMaxAdvertiserLength < length (advertiser item) then
        Some (connection_fail CallInvalidRequest
          (lit ''advertiser is '' @ decimal (length (advertiser item)) @ lit '' bytes, limit is ''
             @ decimal (unat kMaxAdvertiserLength)) c)
      else map_option (\<lambda>(result, status, c). (status, c)) (exchange (PutItem item) put_result c))"

definition get_item :: "ItemId \<Rightarrow> Item \<Rightarrow> Connection \<Rightarrow> (CallStatus \<times> Item \<times> Connection) option" where
  "get_item iid item c =
     map_option (\<lambda>(result, status, c).
       case result of
         None \<Rightarrow> (status, item, c)
       | Some (st, found) \<Rightarrow> if st = NotFound then (CallNotFound, item, c) else (CallOk, found, c))
       (exchange (GetItem iid) get_result c)"

definition delete_item :: "ItemId \<Rightarrow> Connection \<Rightarrow> (CallStatus \<times> Connection) option" where
  "delete_item iid c =
     map_option (\<lambda>(result, status, c).
       case result of
         None \<Rightarrow> (status, c)
       | Some st \<Rightarrow> (if st = NotFound then CallNotFound else CallOk, c))
       (exchange (DeleteItem iid) delete_result c)"

definition recommend ::
  "UserSignal \<Rightarrow> u32 \<Rightarrow> RankedItem list \<Rightarrow> bool \<Rightarrow> Connection \<Rightarrow> (CallStatus \<times> RankedItem list \<times> Connection) option" where
  "recommend signal wanted items dry_run c =
     (if wanted = 0 \<or> kMaxRecommendCount < wanted then
        let (status, c) = connection_fail CallInvalidRequest
          (lit ''count must be between 1 and '' @ decimal (unat kMaxRecommendCount)) c in Some (status, items, c)
      else map_option (\<lambda>(result, status, c).
          case result of None \<Rightarrow> (status, items, c) | Some found \<Rightarrow> (CallOk, found, c))
          (exchange (RecommendBody \<lparr>rec_signal = signal, rec_count = wanted, rec_dry_run = dry_run\<rparr>) recommend_result c))"

definition fetch_stats :: "Stats \<Rightarrow> Connection \<Rightarrow> (CallStatus \<times> Stats \<times> Connection) option" where
  "fetch_stats stats c =
     map_option (\<lambda>(result, status, c).
       case result of None \<Rightarrow> (status, stats, c) | Some found \<Rightarrow> (CallOk, found, c))
       (exchange GetStats stats_result c)"

subsection \<open>Frames on the wire\<close>

lemma read_exact_sound:
  assumes "read_exact want buf es = Some (r, buf', es')" "length buf = want" "io_ok r"
  shows "incoming es = buf' @ incoming es'" "length buf' = want"
proof -
  obtain got where "incoming es = got @ incoming es'" "buf' = store_at buf 0 got" "transferred r = length got" "length got = want"
    using read_loop_sound [OF assms(1) [unfolded read_exact_def]] assms(2,3) by (auto simp: io_ok_def)
  then show "incoming es = buf' @ incoming es'" "length buf' = want" using assms(2) by (simp_all add: store_at_def)
qed

lemma be_load:
  assumes "length p = 4"
  shows "be 4 (load_be_u32 p) = p"
proof -
  obtain a b c d where p: "p = [a, b, c, d]" using assms by (auto simp: length_Suc_conv numeral_eq_Suc)
  have mask: "(0xFF :: u32) = mask 8" by (simp add: mask_eq_exp_minus_1)
  have "prefix_byte (load_be_u32 p) 24 = a" "prefix_byte (load_be_u32 p) 16 = b"
    "prefix_byte (load_be_u32 p) 8 = c" "prefix_byte (load_be_u32 p) 0 = d"
    by (intro bit_word_eqI; auto simp: p load_be_u32_def prefix_byte_def mask bit_simps dest: bit_imp_le_length)+
  then show ?thesis by (simp add: be4 p)
qed

text \<open>A frame that was read was there: prefix and body, and nothing more was consumed.\<close>

lemma read_frame_sound:
  assumes "read_frame s buf = Some (r, body, s')" "frame_ok r"
  shows "incoming (sk_in s) = frame body @ incoming (sk_in s')" "\<not> bad_size (length body)"
proof -
  obtain io p es where 1: "read_exact kLengthPrefixSize (replicate kLengthPrefixSize 0) (sk_in s) = Some (io, p, es)"
    using assms by (auto simp: read_frame_def split: option.splits)
  have io: "io_ok io"
    using assms 1 by (auto simp: read_frame_def Let_def frame_ok_def from_io_def io_ok_def split: if_splits IoStatus.splits)
  note p = read_exact_sound [OF 1 _ io]
  let ?b = "resize buf (unat (load_be_u32 p))"
  have len: "kMinFrameSize \<le> load_be_u32 p" "load_be_u32 p \<le> kMaxFrameSize"
    using assms 1 io by (auto simp: read_frame_def Let_def frame_ok_def not_less split: if_splits)
  then obtain io2 b es2 where 2: "read_exact (length ?b) ?b es = Some (io2, b, es2)" "sk_in s' = es2" "io_ok io2" "body = b"
    using assms 1 io
    by (auto simp: read_frame_def Let_def frame_ok_def from_io_def io_ok_def not_less split: option.splits if_splits IoStatus.splits)
  note q = read_exact_sound [OF 2(1) refl 2(3)]
  show "incoming (sk_in s) = frame body @ incoming (sk_in s')"
    using p q 2 be_load [of p] by (simp add: frame_def kLengthPrefixSize_def)
  show "\<not> bad_size (length body)" using q(2) 2(4) len by (simp add: bad_size_def word_le_nat_alt)
qed

lemma write_message_sent:
  assumes "write_message encode s msg scratch = Some (r, scratch', s')" "frame_ok r" "\<And>out. encode msg out = out @ body"
  shows "sk_sent s' = sk_sent s @ frame body"
proof (cases "bad_size (length body)")
  case True
  then show ?thesis using assms(1,2) write_message_eq [of encode msg body s scratch, OF assms(3)]
    by (auto simp: oversized_def frame_ok_def)
next
  case False
  then have "send_framed s (word_of_nat (length body)) (frame body) = Some (r, s')"
    using assms(1) write_message_eq [of encode msg body s scratch, OF assms(3)] by auto
  then show ?thesis using send_framed_Ok(1) assms(2) by blast
qed

subsection \<open>One call\<close>

lemma connected_fields [simp]:
  "connected (c\<lparr>cl_stream := s\<rparr>) = connected c" "connected (c\<lparr>cl_write_buffer := b\<rparr>) = connected c"
  "connected (c\<lparr>cl_read_buffer := b\<rparr>) = connected c" "connected (c\<lparr>cl_last_error := e\<rparr>) = connected c"
  "connected (c\<lparr>cl_next_request_id := i\<rparr>) = connected c" "\<not> connected (stream_close c)"
  by (simp_all add: connected_def stream_close_def fd_valid_def)

lemma transport_connected [simp]: "connected c \<Longrightarrow> transport c = cl_stream c"
  by (simp add: transport_def)

lemma closed_write:
  assumes "sk_out s = [WriteErr EBADF]" "\<And>out. encode msg out = out @ body"
  shows "\<exists>r buf s'. write_message encode s msg scratch = Some (r, buf, s') \<and> \<not> frame_ok r \<and> sk_sent s' = sk_sent s"
proof (cases "bad_size (length body)")
  case True
  then show ?thesis using write_message_eq [of encode msg body s scratch, OF assms(2)]
    by (simp add: oversized_def frame_ok_def)
next
  case False
  have "write_all (frame body) s = Some (\<lparr>io_status = IoError, io_error = EBADF, transferred = 0\<rparr>, s\<lparr>sk_out := []\<rparr>)"
    using assms(1) by (simp add: write_all_def EBADF_def errno_defs frame_def)
  then have "send_framed s (word_of_nat (length body)) (frame body)
     = Some ((from_io \<lparr>io_status = IoError, io_error = EBADF, transferred = 0\<rparr>)\<lparr>fr_length := word_of_nat (length body)\<rparr>, s\<lparr>sk_out := []\<rparr>)"
    by (simp add: send_framed_def)
  then show ?thesis using write_message_eq [of encode msg body s scratch, OF assms(2)] False
    by (simp add: frame_ok_def from_io_def)
qed

text \<open>A finished connection stays finished: nothing is sent and the output is left alone.\<close>

lemma connection_call_closed:
  assumes "\<not> connected c" "\<And>out. enc_request (cl_codec c) q out = out @ enc_request (cl_codec c) q []"
  shows "\<exists>c'. connection_call q r c = Some (CallConnectionLost, r, c') \<and> \<not> connected c'
    \<and> sk_sent (cl_stream c') = sk_sent (cl_stream c)"
proof -
  let ?s = "(cl_stream c)\<lparr>sk_in := [ReadErr EBADF], sk_out := [WriteErr EBADF]\<rparr>"
  obtain wr buf s where "write_message (enc_request (cl_codec c)) ?s q (cl_write_buffer c) = Some (wr, buf, s)" "\<not> frame_ok wr"
      "sk_sent s = sk_sent (cl_stream c)"
    using closed_write [of ?s "enc_request (cl_codec c)" q "enc_request (cl_codec c) q []" "cl_write_buffer c", OF _ assms(2)] by auto
  then show ?thesis using assms(1)
    by (simp add: connection_call_def transport_def Let_def connection_fail_def stream_close_def connected_def fd_valid_def)
qed

text \<open>What a call on a live connection has done when it returns.\<close>

lemma connection_call_effect:
  assumes "connection_call q out c = Some (st, r, c')" "connected c"
    and "\<And>out. enc_request (cl_codec c) q out = out @ enc_request (cl_codec c) q []"
  shows "connected c' \<longleftrightarrow> st \<noteq> CallConnectionLost \<and> st \<noteq> CallProtocolError"
    "connected c' \<Longrightarrow> response_id r = request_id q \<and>
       sk_sent (cl_stream c') = sk_sent (cl_stream c) @ frame (enc_request (cl_codec c) q []) \<and>
       (\<exists>body. incoming (sk_in (cl_stream c)) = frame body @ incoming (sk_in (cl_stream c'))
          \<and> dec_response (cl_codec c) body out = (NoError, r))"
    "cl_codec c' = cl_codec c" "st = CallConnectionLost \<Longrightarrow> r = out"
proof -
  obtain wr wb s where w: "write_message (enc_request (cl_codec c)) (cl_stream c) q (cl_write_buffer c) = Some (wr, wb, s)"
    using assms(1,2) by (auto simp: connection_call_def Let_def split: option.splits)
  have "(connected c' \<longleftrightarrow> st \<noteq> CallConnectionLost \<and> st \<noteq> CallProtocolError) \<and> (connected c' \<longrightarrow> response_id r = request_id q \<and>
       sk_sent (cl_stream c') = sk_sent (cl_stream c) @ frame (enc_request (cl_codec c) q []) \<and>
       (\<exists>body. incoming (sk_in (cl_stream c)) = frame body @ incoming (sk_in (cl_stream c'))
          \<and> dec_response (cl_codec c) body out = (NoError, r))) \<and> cl_codec c' = cl_codec c \<and> (st = CallConnectionLost \<longrightarrow> r = out)"
  proof (cases "frame_ok wr")
    case False
    then have "st = CallConnectionLost \<and> r = out \<and> \<not> connected c' \<and> cl_codec c' = cl_codec c" using assms(1,2) w
      by (auto simp: connection_call_def Let_def connection_fail_def stream_close_def connected_def fd_valid_def)
    then show ?thesis by simp
  next
    case True
    note sent = write_message_sent [OF w True assms(3)]
    obtain rr body s2 where rd: "read_frame s (cl_read_buffer c) = Some (rr, body, s2)"
      using assms(1,2) w True by (auto simp: connection_call_def Let_def split: option.splits)
    show ?thesis
    proof (cases "frame_ok rr")
      case False
      then have "st = CallConnectionLost \<and> r = out \<and> \<not> connected c' \<and> cl_codec c' = cl_codec c" using assms(1,2) w rd True
        by (auto simp: connection_call_def Let_def connection_fail_def stream_close_def connected_def fd_valid_def)
      then show ?thesis by simp
    next
      case ok: True
      have "incoming (sk_in (cl_stream c)) = frame body @ incoming (sk_in s2)" "sk_sent s2 = sk_sent s"
        using read_frame_sound(1) [OF rd ok] write_message_in [OF w] read_frame_incoming(3) [OF rd] by simp_all
      then show ?thesis using assms(1,2) w rd True ok sent
        by (auto simp: connection_call_def Let_def connection_fail_def stream_close_def connected_def fd_valid_def
            split: prod.splits if_splits ResponseBody.splits)
    qed
  qed
  then show "connected c' \<longleftrightarrow> st \<noteq> CallConnectionLost \<and> st \<noteq> CallProtocolError"
    "connected c' \<Longrightarrow> response_id r = request_id q \<and>
       sk_sent (cl_stream c') = sk_sent (cl_stream c) @ frame (enc_request (cl_codec c) q []) \<and>
       (\<exists>body. incoming (sk_in (cl_stream c)) = frame body @ incoming (sk_in (cl_stream c'))
          \<and> dec_response (cl_codec c) body out = (NoError, r))"
    "cl_codec c' = cl_codec c" "st = CallConnectionLost \<Longrightarrow> r = out"
    by simp_all
qed

subsection \<open>Calling a daemon\<close>

text \<open>The status of a call that got this response.\<close>

fun reply_status :: "ResponseBody \<Rightarrow> CallStatus" where
  "reply_status (Failure s m) = (if s = InvalidRequest then CallInvalidRequest else CallServerError)"
| "reply_status _ = CallOk"

fun connection_calls :: "Request list \<Rightarrow> Connection \<Rightarrow> ((CallStatus \<times> Response) list \<times> Connection) option" where
  "connection_calls [] c = Some ([], c)"
| "connection_calls (q # qs) c =
     (case connection_call q default_response c of
        None \<Rightarrow> None
      | Some (st, r, c) \<Rightarrow> map_option (\<lambda>(rs, c). ((st, r) # rs, c)) (connection_calls qs c))"

text \<open>The client asks of a codec what the server does, and the same in the other direction.\<close>

locale called_codec = served_codec +
  assumes request_appends: "enc_request codec q buf = buf @ enc_request codec q []"
    and response_decodes: "okr r \<Longrightarrow> dec_response codec (enc_response codec r []) out = (NoError, r)"
begin

lemma remote_call:
  assumes "cl_codec c = codec" "connected c" "okq q" "okr r" "response_id r = request_id q"
    and "drain (length (frame (enc_request codec q []))) (sk_out (cl_stream c)) = Some ws"
    and "sk_in (cl_stream c) = es @ t" "benign es" "incoming es = frame (enc_response codec r []) @ rest"
  shows "\<exists>c' es'. connection_call q out c = Some (reply_status (resp_body r), r, c') \<and> cl_codec c' = codec \<and> connected c'
    \<and> cl_next_request_id c' = cl_next_request_id c \<and> sk_out (cl_stream c') = ws
    \<and> sk_in (cl_stream c') = es' @ t \<and> benign es' \<and> incoming es' = rest
    \<and> sk_sent (cl_stream c') = sk_sent (cl_stream c) @ frame (enc_request codec q [])"
proof -
  let ?s = "(cl_stream c)\<lparr>sk_out := ws, sk_sent := sk_sent (cl_stream c) @ frame (enc_request codec q [])\<rparr>"
  let ?b = "enc_response codec r []"
  note w = write_message_goes_through [of "enc_request codec" q "enc_request codec q []" "cl_stream c",
      OF request_appends request_fits [OF assms(3)] assms(6), of "cl_write_buffer c"]
  obtain s' where rd: "read_frame (?s\<lparr>sk_in := es\<rparr>) (cl_read_buffer c)
      = Some (\<lparr>fr_status = FrOk, fr_io_error = 0, fr_length = word_of_nat (length ?b)\<rparr>, ?b, s')"
      "benign (sk_in s')" "incoming (sk_in s') = rest" "sk_out s' = ws" "sk_sent s' = sk_sent (cl_stream c) @ frame (enc_request codec q [])"
    using read_frame_Ok [of "?s\<lparr>sk_in := es\<rparr>" ?b rest "cl_read_buffer c"] assms(8,9) response_fits [OF assms(4)] by auto
  have "?s\<lparr>sk_in := es @ t\<rparr> = ?s" using assms(7) by simp
  then show ?thesis
    using read_frame_append [OF rd(1), of t] rd(2-) w response_decodes [OF assms(4)] assms(1,2,5)
    by (cases "resp_body r") (auto simp: connection_call_def connection_fail_def frame_ok_def Let_def)
qed

lemma remote_calls:
  assumes "cl_codec c = codec" "connected c" "list_all okq qs" "list_all okr rs" "map response_id rs = map request_id qs"
    and "lets_through (sk_out (cl_stream c)) (map (\<lambda>q. length (frame (enc_request codec q []))) qs)"
    and "sk_in (cl_stream c) = es @ t" "benign es" "incoming es = concat (map (\<lambda>r. frame (enc_response codec r [])) rs)"
  shows "\<exists>c'. connection_calls qs c = Some (map (\<lambda>r. (reply_status (resp_body r), r)) rs, c') \<and> connected c'
    \<and> sk_sent (cl_stream c') = sk_sent (cl_stream c) @ concat (map (\<lambda>q. frame (enc_request codec q [])) qs)"
  using assms
proof (induction qs arbitrary: c es rs)
  case Nil
  then show ?case by simp
next
  case (Cons q qs)
  obtain r rs' where rs: "rs = r # rs'" using Cons.prems(5) by (cases rs) auto
  obtain ws where ws: "drain (length (frame (enc_request codec q []))) (sk_out (cl_stream c)) = Some ws"
      "lets_through ws (map (\<lambda>q. length (frame (enc_request codec q []))) qs)"
    using Cons.prems(6) by (auto split: option.splits)
  obtain c1 es1 where 1: "connection_call q default_response c = Some (reply_status (resp_body r), r, c1)" "cl_codec c1 = codec"
      "connected c1" "sk_out (cl_stream c1) = ws" "sk_in (cl_stream c1) = es1 @ t" "benign es1"
      "incoming es1 = concat (map (\<lambda>r. frame (enc_response codec r [])) rs')"
      "sk_sent (cl_stream c1) = sk_sent (cl_stream c) @ frame (enc_request codec q [])"
    using remote_call [OF Cons.prems(1,2) _ _ _ ws(1) Cons.prems(7,8), of r "concat (map (\<lambda>r. frame (enc_response codec r [])) rs')"
        default_response] Cons.prems(3,4,5,9) rs by auto
  obtain c' where "connection_calls qs c1 = Some (map (\<lambda>r. (reply_status (resp_body r), r)) rs', c')" "connected c'"
      "sk_sent (cl_stream c') = sk_sent (cl_stream c1) @ concat (map (\<lambda>q. frame (enc_request codec q [])) qs)"
    using Cons.IH [OF 1(2,3) _ _ _ _ 1(5,6,7)] Cons.prems(3-5) rs ws(2) 1(4) by auto
  then show ?case using 1(1,8) rs by simp
qed

text \<open>The typed methods, on the response the handler gave.\<close>

lemma remote_exchange:
  assumes "cl_codec c = codec" "connected c" "q = \<lparr>request_id = cl_next_request_id c, req_body = body\<rparr>" "okq q" "okr r"
    and "response_id r = request_id q"
    and "drain (length (frame (enc_request codec q []))) (sk_out (cl_stream c)) = Some ws"
    and "sk_in (cl_stream c) = es @ t" "benign es" "incoming es = frame (enc_response codec r []) @ rest"
    and "alternative (resp_body r) = Some x" "reply_status (resp_body r) = CallOk"
  shows "\<exists>c' es'. exchange body alternative c = Some (Some x, CallOk, c') \<and> cl_codec c' = codec \<and> connected c'
    \<and> cl_next_request_id c' = cl_next_request_id c + 1 \<and> sk_out (cl_stream c') = ws
    \<and> sk_in (cl_stream c') = es' @ t \<and> benign es' \<and> incoming es' = rest
    \<and> sk_sent (cl_stream c') = sk_sent (cl_stream c) @ frame (enc_request codec q [])"
  using remote_call [of "c\<lparr>cl_next_request_id := cl_next_request_id c + 1\<rparr>" q r ws es t rest default_response] assms
  by (auto simp: exchange_def expect_def Let_def)

end

lemma small_body_valid: "small_body body \<Longrightarrow> response_body_valid body"
  by (cases body) (auto simp: list_all_iff)

lemma encode_request_appends: "encode_request q out = out @ encode_request q []"
  by (cases "req_body q") (simp_all add: encode_request_def wire_simps Let_def)

interpretation bin_call: called_codec BinaryCodec "\<lambda>q. request_body_valid (req_body q)" "\<lambda>r. small_body (resp_body r)"
proof
  show "enc_request BinaryCodec q buf = buf @ enc_request BinaryCodec q []" for q buf
    using encode_request_appends [of q buf] by (simp add: BinaryCodec_def)
  show "dec_response BinaryCodec (enc_response BinaryCodec r []) out = (NoError, r)" if "small_body (resp_body r)" for r out
    using resp.round_trip [OF small_body_valid [OF that]] by (simp add: BinaryCodec_def)
qed

interpretation pb_call: called_codec "ProtobufCodec rt"
  "\<lambda>q. request_body_valid (req_body q) \<and> carries rt (request_envelope q) \<and> \<not> bad_size (length (serialize rt (request_envelope q)))"
  "\<lambda>r. response_body_valid (resp_body r) \<and> known_status (status_of (resp_body r)) \<and> carries rt (response_envelope r)
     \<and> \<not> bad_size (length (serialize rt (response_envelope r)))" for rt
proof
  show "dec_request (ProtobufCodec rt) (enc_request (ProtobufCodec rt) q []) out = (NoError, q)"
    if "request_body_valid (req_body q) \<and> carries rt (request_envelope q) \<and> \<not> bad_size (length (serialize rt (request_envelope q)))"
    for q out
    using pb.decodes [OF that] .
  show "dec_response (ProtobufCodec rt) (enc_response (ProtobufCodec rt) r []) out = (NoError, r)"
    if "response_body_valid (resp_body r) \<and> known_status (status_of (resp_body r)) \<and> carries rt (response_envelope r)
     \<and> \<not> bad_size (length (serialize rt (response_envelope r)))" for r out
    using pb_resp.round_trip [of r rt out] that by (simp add: ProtobufCodec_def)
qed (simp_all add: ProtobufCodec_def pb_encode_request_def pb_encode_response_def append_serialized_def)

lemma handle_all_ids:
  "handle_all m env reqs h = (resps, h') \<Longrightarrow> map response_id resps = map request_id (map snd reqs)"
proof (induction reqs arbitrary: h resps)
  case (Cons x reqs)
  obtain now q where x: "x = (now, q)" by fastforce
  obtain r h1 where 1: "handle m env now q h = (r, h1)" by fastforce
  obtain rs where 2: "handle_all m env reqs h1 = (rs, h')" "resps = r # rs"
    using Cons.prems 1 x by (auto simp: handle_all_def split: prod.splits)
  then show ?case using Cons.IH [OF 2(1)] handle_dispatch(2) [OF 1] x by simp
qed (simp add: handle_all_def)

subsection \<open>Properties\<close>

text \<open>
  C9. A connection is never used out of step, with either codec: a call that comes back with the
  connection still open has sent exactly the frame of its request, has consumed exactly one frame, and
  returns the response in it, which carries the request's id. The connection is closed exactly when
  the call is lost or makes no sense, and a call on a closed connection fails, sends nothing and leaves its output alone.
\<close>

theorem call_in_step:
  assumes "connection_call q out c = Some (st, r, c')" and "connected c" and "cl_codec c \<in> {BinaryCodec, ProtobufCodec rt}"
  shows "(connected c' \<longleftrightarrow> st \<notin> {CallConnectionLost, CallProtocolError}) \<and>
    (connected c' \<longrightarrow> response_id r = request_id q
       \<and> sk_sent (cl_stream c') = sk_sent (cl_stream c) @ frame (enc_request (cl_codec c) q [])
       \<and> (\<exists>body. incoming (sk_in (cl_stream c)) = frame body @ incoming (sk_in (cl_stream c'))
             \<and> dec_response (cl_codec c) body out = (NoError, r))) \<and>
    (\<not> connected c' \<longrightarrow> (\<exists>c''. connection_call q' out' c' = Some (CallConnectionLost, out', c'')
       \<and> \<not> connected c'' \<and> sk_sent (cl_stream c'') = sk_sent (cl_stream c')))"
proof -
  have a: "enc_request (cl_codec c) q buf = buf @ enc_request (cl_codec c) q []" for q buf
    using assms(3) bin_call.request_appends [of q buf] pb_call.request_appends [of rt q buf] by auto
  note e = connection_call_effect [OF assms(1,2) a]
  show ?thesis using e(1,2) connection_call_closed [of c' q' out', unfolded e(3), OF _ a] by blast
qed

text \<open>
  C7. A remote call is a local call: when a client connection and a connection of the daemon are joined,
  each receiving what the other sends in whatever fragments, a sequence of valid requests returns to the client
  exactly the responses the handler computes for them in order, each with its status, and both
  ends put on the wire exactly what the other one reads.
\<close>

theorem remote_session:
  assumes "handler_make hasher env capacity n scoring policy privacy = Inr h"
    and "list_all (\<lambda>q. request_body_valid (req_body q)) reqs"
    and "handle_all m env (zip (map clock [0..<length reqs]) reqs) h = (resps, h')"
    and "connected c" and "cl_codec c = BinaryCodec"
    and "sk_in (cl_stream c) = down @ t" and "benign down"
    and "incoming down = concat (map (\<lambda>r. frame (encode_response r [])) resps)"
    and "lets_through (sk_out (cl_stream c)) (map (\<lambda>q. length (frame (encode_request q []))) reqs)"
    and "sk_in stream = up @ Eof # t'" and "benign up"
    and "incoming up = concat (map (\<lambda>q. frame (encode_request q [])) reqs)"
    and "lets_through (sk_out stream) (map (\<lambda>r. length (frame (encode_response r []))) resps)"
  shows "\<exists>c' sc. connection_calls reqs c = Some (map (\<lambda>r. (reply_status (resp_body r), r)) resps, c')
      \<and> sk_sent (cl_stream c') = sk_sent (cl_stream c) @ incoming up
      \<and> serve_loop BinaryCodec m env clock 0 (conn_make stream) h = Some (sc, h')
      \<and> sk_sent (cn_stream sc) = sk_sent stream @ incoming down"
proof -
  have "list_all (\<lambda>(now, q). request_body_valid (req_body q)) (zip (map clock [0..<length reqs]) reqs)"
    using assms(2) by (auto simp: list_all_iff dest: set_zip_rightD)
  from handle_all_small [OF handler_make_small [OF assms(1)] this assms(3)]
  have small: "list_all (\<lambda>r. small_body (resp_body r)) resps" by simp
  have ids: "map response_id resps = map request_id reqs"
    using handle_all_ids [OF assms(3)] by (simp del: map_map)
  obtain c' where "connection_calls reqs c = Some (map (\<lambda>r. (reply_status (resp_body r), r)) resps, c')"
      "sk_sent (cl_stream c') = sk_sent (cl_stream c) @ incoming up"
    using bin_call.remote_calls [OF assms(5,4,2) small ids _ assms(6,7)] assms(8,9,12) by (auto simp: BinaryCodec_def)
  moreover obtain sc where "serve_loop BinaryCodec m env clock 0 (conn_make stream) h = Some (sc, h')"
      "sk_sent (cn_stream sc) = sk_sent stream @ incoming down"
    using bin.session [of reqs "conn_make stream" up t' m env clock 0 h resps h'] assms(2,3,8,10-13) small
    by (auto simp: conn_make_def BinaryCodec_def)
  ultimately show ?thesis by blast
qed


subsection \<open>Instances\<close>

definition demo_connection :: "Response list \<Rightarrow> Connection" where
  "demo_connection resps = \<lparr>cl_fd = 4,
     cl_stream = \<lparr>sk_in = map (\<lambda>r. Data (frame (encode_response r []))) resps, sk_out = [Accept 2000000, Accept 2000000], sk_sent = []\<rparr>,
     cl_codec = BinaryCodec, cl_read_buffer = [], cl_write_buffer = [], cl_next_request_id = 1, cl_last_error = []\<rparr>"

lemma demo_connection [simp]:
  "connected (demo_connection resps)" "cl_codec (demo_connection resps) = BinaryCodec"
  "sk_in (cl_stream (demo_connection resps)) = map (\<lambda>r. Data (frame (encode_response r []))) resps"
  "sk_out (cl_stream (demo_connection resps)) = [Accept 2000000, Accept 2000000]"
  "sk_sent (cl_stream (demo_connection resps)) = []" "cl_next_request_id (demo_connection resps) = 1"
  by (simp_all add: demo_connection_def connected_def fd_valid_def kInvalid_def)

lemma demo_drain:
  assumes "\<not> bad_size (length b)"
  shows "drain (length (frame b)) (Accept 2000000 # ws) = Some ws"
  using assms by (intro drain_all) (simp_all add: bad_size_def frame_def)

lemma demo_benign: "benign (map (\<lambda>r. Data (frame (encode_response r []))) resps)"
  by (induction resps) (simp_all add: frame_def be4)

theorem call_in_step_witness:
  "\<exists>r c' c''. connection_call demo_get default_response (demo_connection [demo_put_ok\<lparr>response_id := 77\<rparr>]) = Some (CallProtocolError, r, c')
     \<and> \<not> connected c' \<and> connection_call demo_get default_response c' = Some (CallConnectionLost, default_response, c'')"
proof -
  let ?r = "demo_put_ok\<lparr>response_id := 77\<rparr>"
  let ?c = "demo_connection [?r]"
  have fits: "\<not> bad_size (length (encode_request demo_get []))" "\<not> bad_size (length (encode_response ?r []))"
    by (simp_all add: request_fits_binary response_fits_binary demo_get_def demo_put_ok_def)
  have "write_message encode_request (cl_stream ?c) demo_get (cl_write_buffer ?c)
     = Some (\<lparr>fr_status = FrOk, fr_io_error = 0, fr_length = word_of_nat (length (encode_request demo_get []))\<rparr>,
         frame (encode_request demo_get []),
         (cl_stream ?c)\<lparr>sk_out := [Accept 2000000], sk_sent := frame (encode_request demo_get [])\<rparr>)"
    using write_message_goes_through [of encode_request demo_get "encode_request demo_get []" "cl_stream ?c" "[Accept 2000000]",
        OF encode_request_appends fits(1)] demo_drain [OF fits(1)] by simp
  moreover obtain s' where "read_frame ((cl_stream ?c)\<lparr>sk_out := [Accept 2000000], sk_sent := frame (encode_request demo_get [])\<rparr>)
        (cl_read_buffer ?c)
      = Some (\<lparr>fr_status = FrOk, fr_io_error = 0, fr_length = word_of_nat (length (encode_response ?r []))\<rparr>, encode_response ?r [], s')"
    using read_frame_Ok [of "(cl_stream ?c)\<lparr>sk_out := [Accept 2000000], sk_sent := frame (encode_request demo_get [])\<rparr>"
        "encode_response ?r []" "[]" "cl_read_buffer ?c"] fits(2) demo_benign [of "[?r]"] by auto
  moreover have "decode_response (encode_response ?r []) default_response = (NoError, ?r)"
    using resp.round_trip [OF small_body_valid, of ?r default_response] by (simp add: demo_put_ok_def)
  moreover have "request_id demo_get \<noteq> 77" by (simp add: demo_get_def)
  ultimately obtain r c' where c: "connection_call demo_get default_response ?c = Some (CallProtocolError, r, c')"
    by (simp add: connection_call_def connection_fail_def frame_ok_def BinaryCodec_def Let_def)
  then show ?thesis using call_in_step [OF c, of demo_runtime demo_get default_response] by auto
qed

theorem remote_session_witness:
  "\<exists>c' sc. connection_calls [demo_get] (demo_connection [fst (handle demo_libm demo_env 5 demo_get demo_handler)])
        = Some ([(CallOk, fst (handle demo_libm demo_env 5 demo_get demo_handler))], c')
      \<and> serve_loop BinaryCodec demo_libm demo_env (\<lambda>_. 5) 0 (conn_make demo_stream) demo_handler
          = Some (sc, snd (handle demo_libm demo_env 5 demo_get demo_handler))
      \<and> sk_sent (cn_stream sc) = incoming (sk_in (cl_stream (demo_connection [fst (handle demo_libm demo_env 5 demo_get demo_handler)])))"
proof -
  obtain r h' where h: "handle demo_libm demo_env 5 demo_get demo_handler = (r, h')" by fastforce
  let ?f = "frame (encode_request demo_get [])"
  have q: "request_body_valid (req_body demo_get)" by (simp add: demo_get_def)
  have s: "small_body (resp_body r)" by (rule handle_small(2) [OF handler_make_small [OF demo_handler_made] q h])
  have ok: "reply_status (resp_body r) = CallOk"
  proof -
    have "resp_body r = fst (dispatch demo_libm demo_env 5 (req_body demo_get) (demo_handler\<lparr>hn_requests := hn_requests demo_handler + 1\<rparr>))"
      using handle_dispatch(1) [OF h] by simp
    then show ?thesis by (simp add: demo_get_def dispatch_def on_get_def Let_def split: prod.splits option.splits)
  qed
  have b: "benign [Data (take 3 ?f), ReadErr EINTR, Data (drop 3 ?f)]" by (simp add: frame_def be4)
  have d: "sk_in demo_stream = [Data (take 3 ?f), ReadErr EINTR, Data (drop 3 ?f)] @ Eof # []" "sk_out demo_stream = [Accept 2000000]"
    "sk_sent demo_stream = []" by (simp_all add: demo_stream_def)
  show ?thesis
    using remote_session [OF demo_handler_made, of "[demo_get]" demo_libm "\<lambda>_. 5" "[r]" h' "demo_connection [r]"
        "[Data (frame (encode_response r []))]" "[]" demo_stream "[Data (take 3 ?f), ReadErr EINTR, Data (drop 3 ?f)]" "[]"]
      q h ok b d demo_benign [of "[r]"] demo_drain [OF request_fits_binary [OF q]] demo_drain [OF response_fits_binary [OF s]]
    by (auto simp: handle_all_def)
qed


end
