(* ===== verification/Sdk_Client.thy ===== *)
theory Sdk_Client
  imports Client_Connection
begin

section \<open>The shared client (include/lrd/sdk, src/sdk/client.cpp)\<close>

text \<open>
  \<open>Client\<close> is shared by threads: each call checks a \<open>Connection\<close> out of a bounded pool, makes the call, and
  gives the connection back or drops it; a failed call may be tried again. \<open>invoke\<close> is modelled
  as a transition system in which any number of callers interleave, one step per section under the
  mutex, per opening of a connection and per call. A caller that waits may re-evaluate its condition at any
  moment, as \<open>wait_for\<close> may wake at any moment, so notifications need no state. The text of an exception
  is a parameter \<open>what\<close>, and so is the protobuf runtime of the build.
\<close>

subsection \<open>Status\<close>

datatype SdkCode =
    SdkOk | SdkNotFound | SdkInvalidArgument | SdkUnavailable | SdkDeadlineExceeded | SdkInternal | SdkProtocolError

fun sdk_code_to_string :: "SdkCode \<Rightarrow> cstring" where
  "sdk_code_to_string SdkOk = lit ''Ok''"
| "sdk_code_to_string SdkNotFound = lit ''NotFound''"
| "sdk_code_to_string SdkInvalidArgument = lit ''InvalidArgument''"
| "sdk_code_to_string SdkUnavailable = lit ''Unavailable''"
| "sdk_code_to_string SdkDeadlineExceeded = lit ''DeadlineExceeded''"
| "sdk_code_to_string SdkInternal = lit ''Internal''"
| "sdk_code_to_string SdkProtocolError = lit ''ProtocolError''"

record Status =
  sdk_code :: SdkCode
  sdk_message :: cstring

definition success :: Status where
  "success = \<lparr>sdk_code = SdkOk, sdk_message = []\<rparr>"

definition status_make :: "SdkCode \<Rightarrow> cstring \<Rightarrow> Status" where
  "status_make code message = success\<lparr>sdk_code := code, sdk_message := message\<rparr>"

definition status_ok :: "Status \<Rightarrow> bool" where
  "status_ok s \<longleftrightarrow> sdk_code s = SdkOk"

definition is_not_found :: "Status \<Rightarrow> bool" where
  "is_not_found s \<longleftrightarrow> sdk_code s = SdkNotFound"

fun map_status :: "CallStatus \<Rightarrow> SdkCode" where
  "map_status CallOk = SdkOk"
| "map_status CallNotFound = SdkNotFound"
| "map_status CallInvalidRequest = SdkInvalidArgument"
| "map_status CallServerError = SdkInternal"
| "map_status CallConnectionLost = SdkUnavailable"
| "map_status CallProtocolError = SdkProtocolError"

definition is_retryable_failure :: "SdkCode \<Rightarrow> bool" where
  "is_retryable_failure code \<longleftrightarrow> code = SdkUnavailable \<or> code = SdkDeadlineExceeded"

subsection \<open>Configuration, counters and the pool\<close>

record ClientConfig =
  cc_socket_path :: cstring
  cc_codec :: cstring
  request_timeout :: int
  max_connections :: u64
  acquire_timeout :: int
  max_retries :: u64
  retry_backoff :: int
  retry_recording_recommendations :: bool

definition default_client_config :: ClientConfig where
  "default_client_config =
     \<lparr>cc_socket_path = lit ''/tmp/lrd.sock'', cc_codec = lit ''binary'', request_timeout = 2000, max_connections = 8,
      acquire_timeout = 1000, max_retries = 2, retry_backoff = 10, retry_recording_recommendations = False\<rparr>"

record SdkStats =
  sdk_requests :: u64
  sdk_gets :: u64
  sdk_puts :: u64
  sdk_deletes :: u64
  sdk_recommends :: u64
  sdk_hits :: u64
  sdk_misses :: u64
  sdk_evictions :: u64
  sdk_entries :: u64
  sdk_capacity :: u64
  sdk_policy_allowed :: u64
  sdk_policy_exposure_blocked :: u64
  sdk_policy_frequency_blocked :: u64
  sdk_policy_store_full :: u64
  sdk_policy_tracked :: u64

definition copy_stats :: "Stats \<Rightarrow> SdkStats" where
  "copy_stats wire =
     \<lparr>sdk_requests = st_requests wire, sdk_gets = st_gets wire, sdk_puts = st_puts wire, sdk_deletes = st_deletes wire,
      sdk_recommends = st_recommends wire, sdk_hits = st_hits wire, sdk_misses = st_misses wire,
      sdk_evictions = st_evictions wire, sdk_entries = st_entries wire, sdk_capacity = st_capacity wire,
      sdk_policy_allowed = st_policy_allowed wire, sdk_policy_exposure_blocked = st_policy_exposure_blocked wire,
      sdk_policy_frequency_blocked = st_policy_frequency_blocked wire, sdk_policy_store_full = st_policy_store_full wire,
      sdk_policy_tracked = st_policy_tracked wire\<rparr>"

record Impl =
  im_config :: ClientConfig
  im_idle :: "Connection list"
  im_total :: u64

definition impl_make :: "ClientConfig \<Rightarrow> Impl" where
  "impl_make config = \<lparr>im_config = config, im_idle = [], im_total = 0\<rparr>"

definition open_connection ::
  "pb_runtime option \<Rightarrow> socket \<Rightarrow> ClientConfig \<Rightarrow> kernel \<Rightarrow> ((open_error + Connection) \<times> kernel) option" where
  "open_connection build stream config k =
     (case andThen (stream_connect (cc_socket_path config)) (\<lambda>fd.
             owned fd (andThen (set_timeouts (request_timeout config) (request_timeout config) fd) (\<lambda>_. give fd))) k of
        None \<Rightarrow> None
      | Some (Inl e, k) \<Rightarrow> Some (Inl (OpenSystem e), k)
      | Some (Inr fd, k) \<Rightarrow>
          (case connection_make build fd stream (cc_codec config) of
             Inl message \<Rightarrow> Some (Inl (OpenInvalid message), snd (fd_close fd k))
           | Inr c \<Rightarrow> Some (Inr c, k)))"

definition client_connect ::
  "pb_runtime option \<Rightarrow> (SystemError \<Rightarrow> cstring) \<Rightarrow> socket \<Rightarrow> ClientConfig \<Rightarrow> Impl option \<Rightarrow> kernel \<Rightarrow>
   ((Status \<times> Impl option) \<times> kernel) option" where
  "client_connect build what stream config out k =
     (if max_connections config = 0 then
        Some ((status_make SdkInvalidArgument (lit ''max_connections must be at least 1''), out), k)
      else
        let impl = impl_make config in
        case open_connection build stream config k of
          None \<Rightarrow> None
        | Some (Inl (OpenSystem e), k) \<Rightarrow>
            Some ((status_make SdkUnavailable
                     (lit ''cannot reach daemon at '' @ cc_socket_path (im_config impl) @ lit '': '' @ what e), out), k)
        | Some (Inl (OpenInvalid message), k) \<Rightarrow> Some ((status_make SdkInvalidArgument message, out), k)
        | Some (Inr first, k) \<Rightarrow>
            Some ((success, Some (impl\<lparr>im_idle := first # im_idle impl, im_total := 1\<rparr>)), k))"

definition open_connections :: "Impl \<Rightarrow> u64" where
  "open_connections impl = im_total impl"

subsection \<open>The six operations\<close>

datatype operation =
    PutOp Item | GetOp ItemId | DeleteOp ItemId | RecommendOp UserSignal u32 | PreviewOp UserSignal u32 | StatsOp

record outputs =
  out_item :: Item
  out_items :: "RankedItem list"
  out_stats :: Stats

fun perform :: "operation \<Rightarrow> outputs \<Rightarrow> Connection \<Rightarrow> (CallStatus \<times> outputs \<times> Connection) option" where
  "perform (PutOp item) out c = map_option (\<lambda>(st, c). (st, out, c)) (put_item item c)"
| "perform (GetOp iid) out c = map_option (\<lambda>(st, x, c). (st, out\<lparr>out_item := x\<rparr>, c)) (get_item iid (out_item out) c)"
| "perform (DeleteOp iid) out c = map_option (\<lambda>(st, c). (st, out, c)) (delete_item iid c)"
| "perform (RecommendOp signal wanted) out c =
     map_option (\<lambda>(st, x, c). (st, out\<lparr>out_items := x\<rparr>, c)) (recommend signal wanted (out_items out) False c)"
| "perform (PreviewOp signal wanted) out c =
     map_option (\<lambda>(st, x, c). (st, out\<lparr>out_items := x\<rparr>, c)) (recommend signal wanted (out_items out) True c)"
| "perform StatsOp out c = map_option (\<lambda>(st, x, c). (st, out\<lparr>out_stats := x\<rparr>, c)) (fetch_stats (out_stats out) c)"

text \<open>\<open>Client::stats\<close> copies the counters out only when the call succeeded.\<close>

definition client_stats :: "Status \<Rightarrow> outputs \<Rightarrow> SdkStats \<Rightarrow> SdkStats" where
  "client_stats status out stats = (if \<not> status_ok status then stats else copy_stats (out_stats out))"

fun retryable :: "ClientConfig \<Rightarrow> operation \<Rightarrow> bool" where
  "retryable config (RecommendOp signal wanted) = retry_recording_recommendations config"
| "retryable config _ = True"

subsection \<open>invoke\<close>

datatype stage =
    AtLoop | Acquiring | OpeningSlot | InCall Connection | Giving Connection bool "Status option" | Returned Status

record caller =
  ca_op :: operation
  ca_attempt :: u64
  ca_backoff :: int
  ca_last :: Status
  ca_out :: outputs
  ca_stage :: stage

definition attempts :: "ClientConfig \<Rightarrow> operation \<Rightarrow> u64" where
  "attempts config op = (if retryable config op then max_retries config + 1 else 1)"

definition caller_make :: "ClientConfig \<Rightarrow> operation \<Rightarrow> outputs \<Rightarrow> caller" where
  "caller_make config op out =
     \<lparr>ca_op = op, ca_attempt = 0, ca_backoff = retry_backoff config,
      ca_last = status_make SdkUnavailable (lit ''no attempt was made''), ca_out = out, ca_stage = AtLoop\<rparr>"

definition next_attempt :: "caller \<Rightarrow> caller" where
  "next_attempt t = t\<lparr>ca_attempt := ca_attempt t + 1, ca_stage := AtLoop\<rparr>"

text \<open>The head of the loop: leave it, or sleep before every attempt but the first.\<close>

definition begin_attempt :: "ClientConfig \<Rightarrow> caller \<Rightarrow> caller" where
  "begin_attempt config t =
     (if ca_attempt t < attempts config (ca_op t)
      then t\<lparr>ca_backoff := (if 0 < ca_attempt t then ca_backoff t * 2 else ca_backoff t), ca_stage := Acquiring\<rparr>
      else t\<lparr>ca_stage := Returned (ca_last t)\<rparr>)"

definition pool_ready :: "Impl \<Rightarrow> bool" where
  "pool_ready impl \<longleftrightarrow> im_idle impl \<noteq> [] \<or> im_total impl < max_connections (im_config impl)"

definition acquire :: "Impl \<Rightarrow> caller \<Rightarrow> Impl \<times> caller" where
  "acquire impl t =
     (if \<not> pool_ready impl then
        (impl, next_attempt (t\<lparr>ca_last := status_make SdkUnavailable (lit ''timed out waiting for a free connection'')\<rparr>))
      else case im_idle impl of
        c # idle \<Rightarrow> (impl\<lparr>im_idle := idle\<rparr>, t\<lparr>ca_stage := InCall c\<rparr>)
      | [] \<Rightarrow> (impl\<lparr>im_total := im_total impl + 1\<rparr>, t\<lparr>ca_stage := OpeningSlot\<rparr>))"

fun open_message :: "(SystemError \<Rightarrow> cstring) \<Rightarrow> open_error \<Rightarrow> cstring" where
  "open_message what (OpenSystem e) = what e"
| "open_message what (OpenInvalid message) = message"

definition opened :: "(SystemError \<Rightarrow> cstring) \<Rightarrow> open_error + Connection \<Rightarrow> Impl \<Rightarrow> caller \<Rightarrow> Impl \<times> caller" where
  "opened what result impl t =
     (case result of
        Inr c \<Rightarrow> (impl, t\<lparr>ca_stage := InCall c\<rparr>)
      | Inl e \<Rightarrow> (impl\<lparr>im_total := im_total impl - 1\<rparr>,
                  next_attempt (t\<lparr>ca_last := status_make SdkUnavailable (open_message what e)\<rparr>)))"

definition after_call :: "CallStatus \<Rightarrow> outputs \<Rightarrow> Connection \<Rightarrow> caller \<Rightarrow> caller" where
  "after_call result out c t0 =
     (let code = map_status result; t = t0\<lparr>ca_out := out\<rparr> in
      if code = SdkOk then t\<lparr>ca_stage := Giving c True (Some success)\<rparr>
      else
        let healthy = \<not> (code = SdkUnavailable \<or> code = SdkProtocolError \<or> code = SdkDeadlineExceeded);
            last = status_make code (cl_last_error c);
            t = t\<lparr>ca_last := last\<rparr>
        in if code = SdkNotFound then t\<lparr>ca_stage := Giving c healthy (Some last)\<rparr>
           else if \<not> is_retryable_failure code then t\<lparr>ca_stage := Giving c healthy (Some last)\<rparr>
           else t\<lparr>ca_stage := Giving c healthy None\<rparr>)"

definition give_back :: "Connection \<Rightarrow> bool \<Rightarrow> Impl \<Rightarrow> Impl" where
  "give_back c healthy impl =
     (if healthy \<and> connected c then impl\<lparr>im_idle := c # im_idle impl\<rparr> else impl\<lparr>im_total := im_total impl - 1\<rparr>)"

definition leave :: "Status option \<Rightarrow> caller \<Rightarrow> caller" where
  "leave result t = (case result of Some st \<Rightarrow> t\<lparr>ca_stage := Returned st\<rparr> | None \<Rightarrow> next_attempt t)"

record sdk =
  sd_impl :: Impl
  sd_callers :: "caller list"

definition with_caller :: "sdk \<Rightarrow> nat \<Rightarrow> Impl \<times> caller \<Rightarrow> sdk" where
  "with_caller d i x = d\<lparr>sd_impl := fst x, sd_callers := (sd_callers d)[i := snd x]\<rparr>"

definition caller_at :: "sdk \<Rightarrow> nat \<Rightarrow> caller \<Rightarrow> bool" where
  "caller_at d i t \<longleftrightarrow> i < length (sd_callers d) \<and> sd_callers d ! i = t"

datatype sdk_event =
    SdkStart operation outputs | SdkBegin nat | SdkAcquire nat | SdkOpen nat | SdkCall nat Connection CallStatus | SdkGive nat

inductive sdk_step :: "pb_runtime option \<Rightarrow> (SystemError \<Rightarrow> cstring) \<Rightarrow> sdk \<Rightarrow> sdk_event \<Rightarrow> sdk \<Rightarrow> bool" for build what where
  sdk_start: "sdk_step build what d (SdkStart op out)
    (d\<lparr>sd_callers := sd_callers d @ [caller_make (im_config (sd_impl d)) op out]\<rparr>)"
| sdk_begin: "caller_at d i t \<Longrightarrow> ca_stage t = AtLoop \<Longrightarrow>
    sdk_step build what d (SdkBegin i) (with_caller d i (sd_impl d, begin_attempt (im_config (sd_impl d)) t))"
| sdk_acquire: "caller_at d i t \<Longrightarrow> ca_stage t = Acquiring \<Longrightarrow>
    sdk_step build what d (SdkAcquire i) (with_caller d i (acquire (sd_impl d) t))"
| sdk_open: "caller_at d i t \<Longrightarrow> ca_stage t = OpeningSlot \<Longrightarrow>
    open_connection build stream (im_config (sd_impl d)) k = Some (result, k') \<Longrightarrow>
    sdk_step build what d (SdkOpen i) (with_caller d i (opened what result (sd_impl d) t))"
| sdk_call: "caller_at d i t \<Longrightarrow> ca_stage t = InCall c \<Longrightarrow> perform (ca_op t) (ca_out t) c = Some (st, out, c') \<Longrightarrow>
    sdk_step build what d (SdkCall i c st) (with_caller d i (sd_impl d, after_call st out c' t))"
| sdk_give: "caller_at d i t \<Longrightarrow> ca_stage t = Giving c healthy result \<Longrightarrow>
    sdk_step build what d (SdkGive i) (with_caller d i (give_back c healthy (sd_impl d), leave result t))"

inductive sdk_run :: "pb_runtime option \<Rightarrow> (SystemError \<Rightarrow> cstring) \<Rightarrow> sdk \<Rightarrow> sdk_event list \<Rightarrow> sdk \<Rightarrow> bool" for build what where
  sdk_run_start: "sdk_run build what d [] d"
| sdk_run_step: "sdk_run build what d es d' \<Longrightarrow> sdk_step build what d' e d'' \<Longrightarrow> sdk_run build what d (es @ [e]) d''"

subsection \<open>The pool's books\<close>

fun in_use :: "stage \<Rightarrow> nat" where
  "in_use OpeningSlot = 1"
| "in_use (InCall c) = 1"
| "in_use (Giving c healthy result) = 1"
| "in_use _ = 0"

definition checked_out :: "sdk \<Rightarrow> nat" where
  "checked_out d = (\<Sum>t\<leftarrow>sd_callers d. in_use (ca_stage t))"

definition books_inv :: "sdk \<Rightarrow> bool" where
  "books_inv d \<longleftrightarrow> unat (im_total (sd_impl d)) = length (im_idle (sd_impl d)) + checked_out d
     \<and> im_total (sd_impl d) \<le> max_connections (im_config (sd_impl d)) \<and> list_all connected (im_idle (sd_impl d))"

lemma sum_list_swap:
  fixes f :: "'a \<Rightarrow> nat"
  shows "i < length xs \<Longrightarrow> (\<Sum>x\<leftarrow>xs[i := y]. f x) + f (xs ! i) = (\<Sum>x\<leftarrow>xs. f x) + f y"
  by (induction xs arbitrary: i) (auto split: nat.splits)

lemma checked_out_with_caller:
  "caller_at d i t \<Longrightarrow> checked_out (with_caller d i x) + in_use (ca_stage t) = checked_out d + in_use (ca_stage (snd x))"
  using sum_list_swap [of i "sd_callers d" "\<lambda>t. in_use (ca_stage t)" "snd x"]
  by (simp add: checked_out_def with_caller_def caller_at_def)

lemma with_caller_impl [simp]: "sd_impl (with_caller d i x) = fst x"
  by (simp add: with_caller_def)

lemma next_attempt_fields [simp]:
  "ca_stage (next_attempt t) = AtLoop" "ca_attempt (next_attempt t) = ca_attempt t + 1" "ca_op (next_attempt t) = ca_op t"
  "ca_last (next_attempt t) = ca_last t"
  by (simp_all add: next_attempt_def)

lemma step_config:
  assumes "sdk_step build what d e d'"
  shows "im_config (sd_impl d') = im_config (sd_impl d)"
  using assms by cases (auto simp: acquire_def opened_def give_back_def split: list.splits sum.splits)

text \<open>The five moves of a caller keep the books, each by its own bookkeeping.\<close>

lemma books_move:
  assumes "books_inv d" "caller_at d i t" "im_config (fst x) = im_config (sd_impl d)"
    and "unat (im_total (fst x)) + length (im_idle (sd_impl d)) + in_use (ca_stage t)
       = unat (im_total (sd_impl d)) + length (im_idle (fst x)) + in_use (ca_stage (snd x))"
    and "im_total (fst x) \<le> max_connections (im_config (sd_impl d))" "list_all connected (im_idle (fst x))"
  shows "books_inv (with_caller d i x)"
  using assms checked_out_with_caller [OF assms(2), of x] by (simp add: books_inv_def)

lemma in_use_positive:
  assumes "books_inv d" "caller_at d i t" "in_use (ca_stage t) = 1"
  shows "0 < im_total (sd_impl d)" "Suc (unat (im_total (sd_impl d) - 1)) = unat (im_total (sd_impl d))"
    "im_total (sd_impl d) - 1 \<le> im_total (sd_impl d)"
proof -
  have "t \<in> set (sd_callers d)" using assms(2) by (auto simp: caller_at_def)
  then have "in_use (ca_stage t) \<le> checked_out d"
    unfolding checked_out_def by (intro member_le_sum_list) simp_all
  then have "1 \<le> unat (im_total (sd_impl d))" using assms(1,3) by (simp add: books_inv_def)
  then show p: "0 < im_total (sd_impl d)" by (simp add: word_less_nat_alt)
  then show "Suc (unat (im_total (sd_impl d) - 1)) = unat (im_total (sd_impl d))"
    by (simp add: unat_minus_one word_neq_0_conv unat_gt_0)
  then show "im_total (sd_impl d) - 1 \<le> im_total (sd_impl d)" by (simp add: word_le_nat_alt)
qed

lemma sdk_step_books:
  assumes "sdk_step build what d e d'" "books_inv d"
  shows "books_inv d'"
  using assms(1)
proof cases
  case (sdk_start op out)
  then show ?thesis using assms(2) by (simp add: books_inv_def checked_out_def caller_make_def)
next
  case (sdk_begin i t)
  show ?thesis unfolding sdk_begin(2)
    by (rule books_move [OF assms(2) sdk_begin(3)]) (use assms(2) sdk_begin(4) in \<open>auto simp: books_inv_def begin_attempt_def\<close>)
next
  case (sdk_acquire i t)
  have "im_total (sd_impl d) < m \<Longrightarrow> unat (im_total (sd_impl d) + 1) = unat (im_total (sd_impl d)) + 1 \<and> im_total (sd_impl d) + 1 \<le> m" for m
    by (simp add: word_less_nat_alt word_le_nat_alt unat_Suc_less)
  then show ?thesis unfolding sdk_acquire(2)
    by (intro books_move [OF assms(2) sdk_acquire(3)])
      (use assms(2) sdk_acquire(4) in \<open>auto simp: books_inv_def acquire_def pool_ready_def split: list.splits\<close>)
next
  case (sdk_open i t stream k result k')
  show ?thesis unfolding sdk_open(2)
    by (rule books_move [OF assms(2) sdk_open(3)])
      (use assms(2) sdk_open(4) in_use_positive [OF assms(2) sdk_open(3)] in
        \<open>auto simp: books_inv_def opened_def unat_gt_0 split: sum.splits\<close>)
next
  case (sdk_call i t c st out c')
  have "in_use (ca_stage (after_call st out c' t)) = 1" by (simp add: after_call_def Let_def)
  then show ?thesis unfolding sdk_call(2)
    by (intro books_move [OF assms(2) sdk_call(3)]) (use assms(2) sdk_call(4) in \<open>auto simp: books_inv_def\<close>)
next
  case (sdk_give i t c healthy result)
  show ?thesis unfolding sdk_give(2)
    by (rule books_move [OF assms(2) sdk_give(3)])
      (use assms(2) sdk_give(4) in_use_positive [OF assms(2) sdk_give(3)] in
        \<open>auto simp: books_inv_def give_back_def leave_def unat_gt_0 split: option.splits\<close>)
qed

subsection \<open>What one caller does\<close>

fun moved_by :: "nat \<Rightarrow> sdk_event \<Rightarrow> bool" where
  "moved_by i (SdkStart op out) \<longleftrightarrow> False"
| "moved_by i (SdkBegin j) \<longleftrightarrow> j = i"
| "moved_by i (SdkAcquire j) \<longleftrightarrow> j = i"
| "moved_by i (SdkOpen j) \<longleftrightarrow> j = i"
| "moved_by i (SdkCall j c st) \<longleftrightarrow> j = i"
| "moved_by i (SdkGive j) \<longleftrightarrow> j = i"

fun is_call :: "nat \<Rightarrow> sdk_event \<Rightarrow> bool" where
  "is_call i (SdkCall j c st) \<longleftrightarrow> j = i"
| "is_call i _ \<longleftrightarrow> False"

definition calls_of :: "nat \<Rightarrow> sdk_event list \<Rightarrow> nat" where
  "calls_of i es = length (filter (is_call i) es)"

fun stage_left :: "stage \<Rightarrow> nat" where
  "stage_left AtLoop = 5"
| "stage_left Acquiring = 4"
| "stage_left OpeningSlot = 3"
| "stage_left (InCall c) = 2"
| "stage_left (Giving c healthy result) = 1"
| "stage_left (Returned st) = 0"

definition steps_left :: "ClientConfig \<Rightarrow> caller \<Rightarrow> nat" where
  "steps_left config t = (unat (attempts config (ca_op t)) - unat (ca_attempt t)) * 6 + stage_left (ca_stage t)"

text \<open>Inside an attempt the counter is below the limit, so it never wraps; no status is DeadlineExceeded.\<close>

definition caller_ok :: "ClientConfig \<Rightarrow> caller \<Rightarrow> bool" where
  "caller_ok config t \<longleftrightarrow> ca_attempt t \<le> attempts config (ca_op t)
     \<and> (ca_stage t \<noteq> AtLoop \<longrightarrow> (\<forall>st. ca_stage t \<noteq> Returned st) \<longrightarrow> ca_attempt t < attempts config (ca_op t))
     \<and> sdk_code (ca_last t) \<noteq> SdkDeadlineExceeded
     \<and> (case ca_stage t of Returned st \<Rightarrow> sdk_code st \<noteq> SdkDeadlineExceeded
          | Giving c healthy (Some st) \<Rightarrow> sdk_code st \<noteq> SdkDeadlineExceeded | _ \<Rightarrow> True)"

text \<open>How many calls a caller at this point can have made.\<close>

definition calls_bound :: "ClientConfig \<Rightarrow> caller \<Rightarrow> nat" where
  "calls_bound config t = (case ca_stage t of
      Giving c healthy result \<Rightarrow> unat (ca_attempt t) + 1
    | Returned st \<Rightarrow> unat (attempts config (ca_op t))
    | _ \<Rightarrow> unat (ca_attempt t))"

text \<open>One move of a caller, whoever makes the opening and the call succeed or fail.\<close>

inductive move :: "ClientConfig \<Rightarrow> caller \<Rightarrow> bool \<Rightarrow> caller \<Rightarrow> bool" for config where
  move_begin: "ca_stage t = AtLoop \<Longrightarrow> move config t False (begin_attempt config t)"
| move_acquire: "ca_stage t = Acquiring \<Longrightarrow> move config t False (snd (acquire impl t))"
| move_open: "ca_stage t = OpeningSlot \<Longrightarrow> move config t False (snd (opened what result impl t))"
| move_call: "ca_stage t = InCall c \<Longrightarrow> move config t True (after_call st out c' t)"
| move_give: "ca_stage t = Giving c healthy result \<Longrightarrow> move config t False (leave result t)"

lemma sdk_step_move:
  assumes "sdk_step build what d e d'" "\<And>op out. e \<noteq> SdkStart op out"
  obtains i t t' where "caller_at d i t" "move (im_config (sd_impl d)) t (is_call i e) t'" "moved_by i e"
    "sd_callers d' = (sd_callers d)[i := t']"
  using assms
proof cases
  case (sdk_begin i t)
  then show ?thesis using move_begin [of t "im_config (sd_impl d)"] by (intro that [of i t]) (simp_all add: with_caller_def)
next
  case (sdk_acquire i t)
  then show ?thesis using move_acquire [of t "im_config (sd_impl d)" "sd_impl d"] by (intro that [of i t]) (simp_all add: with_caller_def)
next
  case (sdk_open i t stream k result k')
  then show ?thesis using move_open [of t "im_config (sd_impl d)" what result "sd_impl d"]
    by (intro that [of i t]) (simp_all add: with_caller_def)
next
  case (sdk_call i t c st out c')
  then show ?thesis using move_call [of t c "im_config (sd_impl d)" st out c'] by (intro that [of i t]) (simp_all add: with_caller_def)
next
  case (sdk_give i t c healthy result)
  then show ?thesis using move_give [of t c healthy result "im_config (sd_impl d)"] by (intro that [of i t]) (simp_all add: with_caller_def)
qed auto

lemma map_status_no_deadline [simp]: "map_status st \<noteq> SdkDeadlineExceeded"
  by (cases st) simp_all

lemma next_attempt_ok:
  assumes "ca_attempt t < attempts config (ca_op t)" "sdk_code (ca_last t) \<noteq> SdkDeadlineExceeded"
  shows "caller_ok config (next_attempt t)" "unat (ca_attempt t + 1) = Suc (unat (ca_attempt t))"
    "steps_left config (next_attempt t) + 1 = (unat (attempts config (ca_op t)) - unat (ca_attempt t)) * 6"
proof -
  show s: "unat (ca_attempt t + 1) = Suc (unat (ca_attempt t))"
    using assms(1) unat_Suc_less [of "ca_attempt t" "attempts config (ca_op t)"] by (simp add: word_less_nat_alt)
  show "caller_ok config (next_attempt t)" using assms s by (simp add: caller_ok_def word_le_nat_alt word_less_nat_alt)
  show "steps_left config (next_attempt t) + 1 = (unat (attempts config (ca_op t)) - unat (ca_attempt t)) * 6"
    using assms(1) s by (simp add: steps_left_def word_less_nat_alt)
qed

lemma move_ok:
  assumes "move config t b t'" "caller_ok config t"
  shows "caller_ok config t'" "ca_op t' = ca_op t" "steps_left config t' < steps_left config t"
    "calls_bound config t + (if b then 1 else 0) \<le> calls_bound config t'"
proof -
  have "caller_ok config t' \<and> ca_op t' = ca_op t \<and> steps_left config t' < steps_left config t \<and>
      calls_bound config t + (if b then 1 else 0) \<le> calls_bound config t'"
    using assms(1)
  proof cases
    case move_begin
    then show ?thesis using assms(2)
      by (auto simp: caller_ok_def begin_attempt_def steps_left_def calls_bound_def word_le_nat_alt)
  next
    case (move_acquire impl)
    let ?t = "t\<lparr>ca_last := status_make SdkUnavailable (lit ''timed out waiting for a free connection'')\<rparr>"
    have a: "ca_attempt t < attempts config (ca_op t)" using assms(2) move_acquire by (simp add: caller_ok_def)
    have "sdk_code (ca_last ?t) \<noteq> SdkDeadlineExceeded" by (simp add: status_make_def)
    note n = next_attempt_ok [of ?t config, OF _ this]
    show ?thesis using n a assms(2) move_acquire
      by (auto simp: acquire_def caller_ok_def steps_left_def calls_bound_def split: list.splits)
  next
    case (move_open what result impl)
    have a: "ca_attempt t < attempts config (ca_op t)" using assms(2) move_open by (simp add: caller_ok_def)
    have l: "sdk_code (status_make SdkUnavailable m) \<noteq> SdkDeadlineExceeded" for m by (simp add: status_make_def)
    note n = next_attempt_ok [of "t\<lparr>ca_last := status_make SdkUnavailable (open_message what e)\<rparr>" config for e, simplified]
    show ?thesis using n [OF a l] a assms(2) move_open
      by (cases result) (auto simp: opened_def caller_ok_def steps_left_def calls_bound_def)
  next
    case (move_call c st out c')
    then show ?thesis using assms(2)
      by (auto simp: after_call_def caller_ok_def steps_left_def calls_bound_def success_def status_make_def Let_def)
  next
    case (move_give c healthy result)
    have a: "ca_attempt t < attempts config (ca_op t)" "sdk_code (ca_last t) \<noteq> SdkDeadlineExceeded"
      using assms(2) move_give by (simp_all add: caller_ok_def)
    show ?thesis using next_attempt_ok [OF a] a assms(2) move_give
      by (cases result) (auto simp: leave_def caller_ok_def steps_left_def calls_bound_def word_less_nat_alt)
  qed
  then show "caller_ok config t'" "ca_op t' = ca_op t" "steps_left config t' < steps_left config t"
    "calls_bound config t + (if b then 1 else 0) \<le> calls_bound config t'" by simp_all
qed

subsection \<open>Runs\<close>

definition sdk_make :: "Impl \<Rightarrow> sdk" where
  "sdk_make impl = \<lparr>sd_impl = impl, sd_callers = []\<rparr>"

definition callers_inv :: "ClientConfig \<Rightarrow> sdk_event list \<Rightarrow> sdk \<Rightarrow> bool" where
  "callers_inv config es d \<longleftrightarrow> im_config (sd_impl d) = config
     \<and> (\<forall>i t. caller_at d i t \<longrightarrow> caller_ok config t \<and> calls_of i es \<le> calls_bound config t)
     \<and> (\<forall>i\<ge>length (sd_callers d). calls_of i es = 0)"

lemma calls_of_snoc: "calls_of i (es @ [e]) = calls_of i es + (if is_call i e then 1 else 0)"
  by (simp add: calls_of_def)

lemma moved_by_unique: "moved_by i e \<Longrightarrow> moved_by j e \<Longrightarrow> i = j"
  by (cases e) auto

lemma is_call_moved: "is_call i e \<Longrightarrow> moved_by i e"
  by (cases e) auto

lemma callers_inv_step:
  assumes "callers_inv config es d" "sdk_step build what d e d'"
  shows "callers_inv config (es @ [e]) d'"
proof (cases "\<exists>op out. e = SdkStart op out")
  case True
  then obtain op out where e: "e = SdkStart op out" by blast
  then have d': "d' = d\<lparr>sd_callers := sd_callers d @ [caller_make config op out]\<rparr>"
    using assms by (auto simp: callers_inv_def elim: sdk_step.cases)
  have "caller_ok config (caller_make config op out)" by (simp add: caller_ok_def caller_make_def status_make_def)
  then show ?thesis using assms(1) e
    by (auto simp: callers_inv_def d' calls_of_snoc caller_at_def nth_append less_Suc_eq split: if_splits)
next
  case False
  have c: "im_config (sd_impl d) = config" using assms(1) by (simp add: callers_inv_def)
  obtain i t t' where m: "caller_at d i t" "move config t (is_call i e) t'" "moved_by i e"
      "sd_callers d' = (sd_callers d)[i := t']"
    using sdk_step_move [OF assms(2)] False c by metis
  have t: "caller_ok config t" "calls_of i es \<le> calls_bound config t" using assms(1) m(1) by (auto simp: callers_inv_def)
  note ok = move_ok [OF m(2) t(1)]
  have other: "\<not> is_call j e" if "j \<noteq> i" for j using m(3) that moved_by_unique is_call_moved by blast
  have "caller_ok config u \<and> calls_of j (es @ [e]) \<le> calls_bound config u" if u: "caller_at d' j u" for j u
  proof (cases "j = i")
    case True
    then have "u = t'" using u m(1,4) by (auto simp: caller_at_def)
    then show ?thesis using ok(1,4) t(2) True by (simp add: calls_of_snoc)
  next
    case False
    then have "caller_at d j u" using u m(4) by (auto simp: caller_at_def)
    then show ?thesis using assms(1) other [OF False] by (auto simp: callers_inv_def calls_of_snoc)
  qed
  moreover have "calls_of j (es @ [e]) = 0" if "length (sd_callers d') \<le> j" for j
    using assms(1) that m(1,4) other [of j] by (auto simp: callers_inv_def calls_of_snoc caller_at_def)
  ultimately show ?thesis using c step_config [OF assms(2)] by (simp add: callers_inv_def)
qed

lemma sdk_run_inv:
  assumes "sdk_run build what d0 es d" "callers_inv config [] d0" "books_inv d0"
  shows "callers_inv config es d \<and> books_inv d"
  using assms by (induction rule: sdk_run.induct) (auto intro: callers_inv_step sdk_step_books)

lemma stream_connect_fd: "stream_connect path k = Some (Inr fd, k') \<Longrightarrow> 0 \<le> fd"
  by (auto simp: stream_connect_def make_address_def make_socket_def andThen_def give_def throw_errno_def call_def owned_def
      split: if_splits option.splits sum.splits list.splits sys_outcome.splits prod.splits)

lemma open_connection_connected:
  assumes "open_connection build stream config k = Some (Inr c, k')"
  shows "connected c"
proof -
  obtain fd k1 where "stream_connect (cc_socket_path config) k = Some (Inr fd, k1)" "cl_fd c = fd"
    using assms
    by (auto simp: open_connection_def connection_make_def andThen_def owned_def give_def
        split: option.splits sum.splits prod.splits if_splits)
  then show ?thesis by (auto dest!: stream_connect_fd simp: connected_def fd_valid_def kInvalid_def)
qed

lemma client_connect_made:
  assumes "client_connect build what stream config None k = Some ((st, Some impl), k')"
  obtains first where "impl = \<lparr>im_config = config, im_idle = [first], im_total = 1\<rparr>" "0 < max_connections config"
    "connected first"
  using assms open_connection_connected [of build stream config k]
  by (auto simp: client_connect_def impl_make_def Let_def word_neq_0_conv
      split: if_splits option.splits sum.splits open_error.splits)

lemma client_connect_inv:
  assumes "client_connect build what stream config None k = Some ((st, Some impl), k')"
  shows "callers_inv config [] (sdk_make impl)" "books_inv (sdk_make impl)"
proof -
  obtain first where i: "impl = \<lparr>im_config = config, im_idle = [first], im_total = 1\<rparr>" "0 < max_connections config" "connected first"
    by (rule client_connect_made [OF assms])
  show "callers_inv config [] (sdk_make impl)" by (simp add: callers_inv_def sdk_make_def i caller_at_def calls_of_def)
  have "1 \<le> max_connections config" using i(2) by (simp add: word_le_nat_alt word_less_nat_alt)
  then show "books_inv (sdk_make impl)" by (simp add: books_inv_def sdk_make_def i checked_out_def)
qed

lemma sdk_run_callers:
  assumes "sdk_run build what d0 es d" "callers_inv config [] d0"
  shows "callers_inv config es d"
  using assms by (induction rule: sdk_run.induct) (auto intro: callers_inv_step)

subsection \<open>What a call puts on the wire\<close>

fun request_of :: "operation \<Rightarrow> RequestBody" where
  "request_of (PutOp item) = PutItem item"
| "request_of (GetOp iid) = GetItem iid"
| "request_of (DeleteOp iid) = DeleteItem iid"
| "request_of (RecommendOp s w) = RecommendBody \<lparr>rec_signal = s, rec_count = w, rec_dry_run = False\<rparr>"
| "request_of (PreviewOp s w) = RecommendBody \<lparr>rec_signal = s, rec_count = w, rec_dry_run = True\<rparr>"
| "request_of StatsOp = GetStats"

lemma write_message_sends:
  assumes "write_message encode s msg scratch = Some (r, scratch', s')" "\<And>out. encode msg out = out @ body"
  shows "\<exists>n. sk_sent s' = sk_sent s @ take n (frame body)"
proof (cases "bad_size (length body)")
  case True
  then show ?thesis using assms(1) write_message_eq [of encode msg body s scratch, OF assms(2)]
    by (auto intro: exI [of _ 0])
next
  case False
  then have "send_framed s (word_of_nat (length body)) (frame body) = Some (r, s')"
    using assms(1) write_message_eq [of encode msg body s scratch, OF assms(2)] by auto
  then obtain io where "write_all (frame body) s = Some (io, s')" by (auto simp: send_framed_def split: option.splits)
  then show ?thesis using write_all_sound(2) by blast
qed

lemma connection_call_sends:
  assumes "connection_call q out c = Some (st, r, c')"
    and "\<And>out. enc_request (cl_codec c) q out = out @ enc_request (cl_codec c) q []"
  shows "\<exists>n. sk_sent (cl_stream c') = sk_sent (cl_stream c) @ take n (frame (enc_request (cl_codec c) q []))"
proof (cases "connected c")
  case False
  then show ?thesis using connection_call_closed [OF False assms(2), of out] assms(1) by (auto intro: exI [of _ 0])
next
  case True
  obtain wr wb s where w: "write_message (enc_request (cl_codec c)) (cl_stream c) q (cl_write_buffer c) = Some (wr, wb, s)"
    using assms(1) True by (auto simp: connection_call_def Let_def split: option.splits)
  have "sk_sent (cl_stream c') = sk_sent s"
    using assms(1) w True read_frame_incoming(3) [of s]
    by (auto simp: connection_call_def Let_def connection_fail_def stream_close_def
        split: option.splits if_splits prod.splits ResponseBody.splits)
  then show ?thesis using write_message_sends [OF w assms(2)] by simp
qed

lemma exchange_sends:
  assumes "exchange body alternative c = Some (x, st, c')"
    and "\<And>q out. enc_request (cl_codec c) q out = out @ enc_request (cl_codec c) q []"
  shows "\<exists>n. sk_sent (cl_stream c')
     = sk_sent (cl_stream c) @ take n (frame (enc_request (cl_codec c) \<lparr>request_id = cl_next_request_id c, req_body = body\<rparr> []))"
proof -
  let ?q = "\<lparr>request_id = cl_next_request_id c, req_body = body\<rparr>"
  let ?c = "c\<lparr>cl_next_request_id := cl_next_request_id c + 1\<rparr>"
  obtain st' r c1 where c1: "connection_call ?q default_response ?c = Some (st', r, c1)"
    using assms(1) by (auto simp: exchange_def Let_def split: option.splits)
  then have "cl_stream c' = cl_stream c1"
    using assms(1) by (auto simp: exchange_def expect_def connection_fail_def Let_def split: if_splits option.splits)
  have a: "enc_request (cl_codec ?c) ?q out = out @ enc_request (cl_codec ?c) ?q []" for out
    by (simp, rule assms(2))
  show ?thesis using connection_call_sends [OF c1 a] \<open>cl_stream c' = cl_stream c1\<close> by simp
qed

lemma get_item_exchange:
  assumes "get_item iid item c = Some (st, x, c')"
  shows "\<exists>y st'. exchange (GetItem iid) get_result c = Some (y, st', c')"
proof -
  obtain y st' c1 where e: "exchange (GetItem iid) get_result c = Some (y, st', c1)"
    using assms by (auto simp: get_item_def)
  then have "c1 = c'" using assms by (cases y) (auto simp: get_item_def split: prod.splits if_splits)
  then show ?thesis using e by simp
qed

lemma perform_sends:
  assumes "perform op out c = Some (st, out', c')"
    and "\<And>q out. enc_request (cl_codec c) q out = out @ enc_request (cl_codec c) q []"
  shows "\<exists>n. sk_sent (cl_stream c') = sk_sent (cl_stream c) @
     take n (frame (enc_request (cl_codec c) \<lparr>request_id = cl_next_request_id c, req_body = request_of op\<rparr> []))"
proof -
  have "sk_sent (cl_stream c') = sk_sent (cl_stream c) \<or>
      (\<exists>alternative. \<exists>x st'. exchange (request_of op) (alternative :: ResponseBody \<Rightarrow> StatusCode option) c = Some (x, st', c')) \<or>
      (\<exists>x st'. exchange (request_of op) get_result c = Some (x, st', c')) \<or>
      (\<exists>x st'. exchange (request_of op) recommend_result c = Some (x, st', c')) \<or>
      (\<exists>x st'. exchange (request_of op) stats_result c = Some (x, st', c'))"
    using assms(1)
    by (cases op) (auto dest!: get_item_exchange simp: put_item_def delete_item_def recommend_def fetch_stats_def connection_fail_def
        split: if_splits option.splits prod.splits)
  then show ?thesis
    using exchange_sends [OF _ assms(2), of "request_of op" _ _ _ c'] by (metis append_Nil2 take0)
qed

text \<open>An opening always comes to an end somehow: for instance when there is no descriptor left.\<close>

lemma opening_can_fail:
  "\<exists>r k'. open_connection build stream config \<lparr>k_script = [SysErr 24], k_trace = [], k_umask = 0\<rparr> = Some (r, k')"
  by (auto simp: open_connection_def stream_connect_def make_address_def make_socket_def io_simps Let_def
      split: option.splits sum.splits)

subsection \<open>Properties\<close>

text \<open>A timeout reaches the caller as Unavailable: no call ever returns DeadlineExceeded.\<close>

lemma deadline_never_reported:
  assumes "client_connect build what stream config None k = Some ((st, Some impl), k')"
    and "sdk_run build what (sdk_make impl) es d" and "caller_at d i t" and "ca_stage t = Returned result"
  shows "sdk_code result \<noteq> SdkDeadlineExceeded"
proof -
  have "caller_ok config t"
    using sdk_run_callers [OF assms(2) client_connect_inv(1) [OF assms(1)]] assms(3) by (simp add: callers_inv_def)
  then show ?thesis using assms(4) by (simp add: caller_ok_def)
qed

text \<open>
  C32. The client's pool is exact in every interleaving of its callers: the number of connections it accounts for is
  always the number of idle ones plus one per caller that is opening, using or returning one, it
  never exceeds \<open>max_connections\<close>, and a connection that lies idle for the next caller is an open one.
\<close>

theorem sdk_pool_exact:
  assumes "client_connect build what stream config None k = Some ((st, Some impl), k')"
    and "sdk_run build what (sdk_make impl) es d"
  shows "unat (open_connections (sd_impl d)) = length (im_idle (sd_impl d)) + checked_out d
    \<and> open_connections (sd_impl d) \<le> max_connections config \<and> list_all connected (im_idle (sd_impl d))"
proof -
  note i = client_connect_inv [OF assms(1)]
  have "callers_inv config es d" "books_inv d" using sdk_run_inv [OF assms(2) i] by simp_all
  then show ?thesis by (auto simp: callers_inv_def books_inv_def open_connections_def)
qed

text \<open>
  C8. A recording recommendation is attempted at most once: with the default configuration a call of \<open>recommend\<close>
  is made on a connection at most once however it fails, any other operation at most \<open>max_retries + 1\<close> times, and
  one such call puts at most one request on the wire, whole or cut off, and it is the request of that operation.
\<close>

theorem recommend_at_most_once:
  assumes "client_connect build what stream config None k = Some ((st, Some impl), k')"
    and "sdk_run build what (sdk_make impl) es d" and "caller_at d i t"
  shows "calls_of i es \<le> unat (attempts config (ca_op t)) \<and>
    (ca_op t = RecommendOp signal wanted \<and> \<not> retry_recording_recommendations config \<longrightarrow> calls_of i es \<le> 1) \<and>
    (perform (ca_op t) out c = Some (x, out', c') \<and> cl_codec c \<in> {BinaryCodec, ProtobufCodec rt} \<longrightarrow>
      (\<exists>n. sk_sent (cl_stream c') = sk_sent (cl_stream c) @
         take n (frame (enc_request (cl_codec c) \<lparr>request_id = cl_next_request_id c, req_body = request_of (ca_op t)\<rparr> []))))"
proof -
  have inv: "callers_inv config es d" by (rule sdk_run_callers [OF assms(2) client_connect_inv(1) [OF assms(1)]])
  then have t: "caller_ok config t" "calls_of i es \<le> calls_bound config t" using assms(3) by (auto simp: callers_inv_def)
  have "calls_bound config t \<le> unat (attempts config (ca_op t))"
    using t(1) by (auto simp: calls_bound_def caller_ok_def word_le_nat_alt word_less_nat_alt split: stage.splits)
  then have b: "calls_of i es \<le> unat (attempts config (ca_op t))" using t(2) by simp
  have a: "enc_request (cl_codec c) q buf = buf @ enc_request (cl_codec c) q []"
    if "cl_codec c \<in> {BinaryCodec, ProtobufCodec rt}" for q buf
    using that bin_call.request_appends [of q buf] pb_call.request_appends [of rt q buf] by auto
  show ?thesis
  proof (intro conjI impI)
    assume "perform (ca_op t) out c = Some (x, out', c') \<and> cl_codec c \<in> {BinaryCodec, ProtobufCodec rt}"
    then show "\<exists>n. sk_sent (cl_stream c') = sk_sent (cl_stream c) @
         take n (frame (enc_request (cl_codec c) \<lparr>request_id = cl_next_request_id c, req_body = request_of (ca_op t)\<rparr> []))"
      using perform_sends [OF _ a] by blast
  qed (use b in \<open>simp_all add: attempts_def\<close>)
qed

text \<open>
  C33. Every call of the client returns: a caller's own steps are bounded by its remaining attempts, what other
  callers do never takes it back, and unless it has returned it can always take a step of its own
  as soon as a network operation it is in comes to an end, which the socket timeouts see to.
\<close>

theorem invoke_returns:
  assumes "client_connect build what stream config None k = Some ((st, Some impl), k')"
    and "sdk_run build what (sdk_make impl) es d" and "caller_at d i t"
  shows "(sdk_step build what d e d' \<longrightarrow> (\<exists>t'. caller_at d' i t' \<and>
            (if moved_by i e then steps_left config t' < steps_left config t else t' = t))) \<and>
    ((\<forall>result. ca_stage t \<noteq> Returned result) \<and> (\<forall>c. ca_stage t = InCall c \<longrightarrow> perform (ca_op t) (ca_out t) c \<noteq> None) \<longrightarrow>
       (\<exists>e d'. sdk_step build what d e d' \<and> moved_by i e))"
proof (intro conjI impI)
  have inv: "callers_inv config es d" by (rule sdk_run_callers [OF assms(2) client_connect_inv(1) [OF assms(1)]])
  then have t: "caller_ok config t" and c: "im_config (sd_impl d) = config" using assms(3) by (auto simp: callers_inv_def)
  assume s: "sdk_step build what d e d'"
  show "\<exists>t'. caller_at d' i t' \<and> (if moved_by i e then steps_left config t' < steps_left config t else t' = t)"
  proof (cases "\<exists>op out. e = SdkStart op out")
    case True
    then show ?thesis using s assms(3) by (auto simp: caller_at_def nth_append elim!: sdk_step.cases)
  next
    case False
    obtain j u u' where m: "caller_at d j u" "move config u (is_call j e) u'" "moved_by j e" "sd_callers d' = (sd_callers d)[j := u']"
      using sdk_step_move [OF s] False c by metis
    show ?thesis
    proof (cases "j = i")
      case True
      then have "u = t" using m(1) assms(3) by (simp add: caller_at_def)
      then show ?thesis using move_ok(3) [OF m(2)] t m(3,4) True assms(3) by (auto simp: caller_at_def)
    next
      case False
      then have "\<not> moved_by i e" using m(3) moved_by_unique by blast
      then show ?thesis using False m(4) assms(3) by (auto simp: caller_at_def)
    qed
  qed
next
  assume a: "(\<forall>result. ca_stage t \<noteq> Returned result) \<and> (\<forall>c. ca_stage t = InCall c \<longrightarrow> perform (ca_op t) (ca_out t) c \<noteq> None)"
  show "\<exists>e d'. sdk_step build what d e d' \<and> moved_by i e"
  proof (cases "ca_stage t")
    case OpeningSlot
    obtain r k' where "open_connection build stream (im_config (sd_impl d)) \<lparr>k_script = [SysErr 24], k_trace = [], k_umask = 0\<rparr> = Some (r, k')"
      using opening_can_fail by blast
    then show ?thesis using sdk_open [OF assms(3) OpeningSlot] by fastforce
  next
    case (InCall c)
    then obtain x out c' where "perform (ca_op t) (ca_out t) c = Some (x, out, c')" using a by fastforce
    then show ?thesis using sdk_call [OF assms(3) InCall] by fastforce
  qed (use a sdk_begin [OF assms(3)] sdk_acquire [OF assms(3)] sdk_give [OF assms(3)] in fastforce)+
qed

subsection \<open>Instances\<close>

text \<open>A client whose only connection breaks at the first write, while a recommendation is being asked for.\<close>

definition demo_client_config :: ClientConfig where
  "demo_client_config = default_client_config\<lparr>cc_socket_path := [47, 115], max_connections := 1\<rparr>"

definition demo_dial :: kernel where
  "demo_dial = \<lparr>k_script = [SysOk 4, SysOk 0, SysOk 0, SysOk 0], k_trace = [], k_umask = 18\<rparr>"

definition demo_broken :: socket where
  "demo_broken = \<lparr>sk_in = [], sk_out = [WriteErr EPIPE], sk_sent = []\<rparr>"

definition demo_first :: Connection where
  "demo_first = \<lparr>cl_fd = 4, cl_stream = demo_broken, cl_codec = BinaryCodec, cl_read_buffer = [], cl_write_buffer = [],
     cl_next_request_id = 1, cl_last_error = []\<rparr>"

definition demo_impl :: Impl where
  "demo_impl = \<lparr>im_config = demo_client_config, im_idle = [demo_first], im_total = 1\<rparr>"

definition demo_outputs :: outputs where
  "demo_outputs = \<lparr>out_item = default_item, out_items = [], out_stats = handler_stats demo_handler\<rparr>"

definition demo_ask :: operation where
  "demo_ask = RecommendOp \<lparr>affinities = [], excluded_categories = []\<rparr> 1"

lemma demo_client_connected:
  "\<exists>k'. client_connect None (\<lambda>e. []) demo_broken demo_client_config None demo_dial = Some ((success, Some demo_impl), k')"
  by (simp add: client_connect_def open_connection_def stream_connect_def make_address_def make_socket_def set_timeouts_def
      connect_loop.simps connection_make_def make_codec_def kMaxSocketPathLength_def impl_make_def io_simps
      demo_client_config_def default_client_config_def demo_dial_def demo_impl_def demo_first_def Let_def)

lemma demo_broken_call:
  "\<exists>c'. perform demo_ask demo_outputs demo_first = Some (CallConnectionLost, demo_outputs, c')"
proof -
  let ?q = "\<lparr>request_id = 1, req_body = request_of demo_ask\<rparr>"
  have fits: "\<not> bad_size (length (encode_request ?q []))"
    by (rule request_fits_binary) (simp add: demo_ask_def signal_valid_def kMaxRecommendCount_def)
  have "write_all (frame (encode_request ?q [])) demo_broken
     = Some (\<lparr>io_status = IoPeerClosed, io_error = 0, transferred = 0\<rparr>, demo_broken\<lparr>sk_out := []\<rparr>)"
    by (simp add: write_all_def demo_broken_def errno_defs frame_def)
  then have "write_message encode_request demo_broken ?q []
     = Some ((from_io \<lparr>io_status = IoPeerClosed, io_error = 0, transferred = 0\<rparr>)\<lparr>fr_length := word_of_nat (length (encode_request ?q []))\<rparr>,
         frame (encode_request ?q []), demo_broken\<lparr>sk_out := []\<rparr>)"
    using write_message_eq [of encode_request ?q "encode_request ?q []" demo_broken "[]", OF encode_request_appends] fits
    by (simp add: send_framed_def)
  then show ?thesis
    by (simp add: demo_ask_def recommend_def exchange_def connection_call_def connection_fail_def demo_first_def transport_def connected_def
        fd_valid_def kInvalid_def BinaryCodec_def frame_ok_def from_io_def demo_outputs_def kMaxRecommendCount_def Let_def)
qed

lemma demo_sdk_run:
  "\<exists>d t. sdk_run None (\<lambda>e. []) (sdk_make demo_impl)
     [SdkStart demo_ask demo_outputs, SdkBegin 0, SdkAcquire 0, SdkCall 0 demo_first CallConnectionLost] d
   \<and> caller_at d 0 t \<and> ca_op t = demo_ask \<and> (\<exists>c. ca_stage t = Giving c False None) \<and> length (sd_callers d) = 1"
proof -
  let ?step = "sdk_step None (\<lambda>e. [])"
  let ?t0 = "caller_make demo_client_config demo_ask demo_outputs"
  let ?t1 = "?t0\<lparr>ca_stage := Acquiring\<rparr>"
  let ?t2 = "?t0\<lparr>ca_stage := InCall demo_first\<rparr>"
  let ?d0 = "\<lparr>sd_impl = demo_impl, sd_callers = [?t0]\<rparr>"
  let ?d1 = "\<lparr>sd_impl = demo_impl, sd_callers = [?t1]\<rparr>"
  let ?d2 = "\<lparr>sd_impl = demo_impl\<lparr>im_idle := []\<rparr>, sd_callers = [?t2]\<rparr>"
  obtain c' where c': "perform demo_ask demo_outputs demo_first = Some (CallConnectionLost, demo_outputs, c')"
    using demo_broken_call by blast
  have 1: "?step (sdk_make demo_impl) (SdkStart demo_ask demo_outputs) ?d0"
    using sdk_start [of None "\<lambda>e. []" "sdk_make demo_impl" demo_ask demo_outputs]
    by (simp add: sdk_make_def demo_impl_def)
  have 2: "?step ?d0 (SdkBegin 0) ?d1"
    using sdk_begin [of ?d0 0 ?t0 None "\<lambda>e. []"]
    by (simp add: caller_at_def caller_make_def with_caller_def begin_attempt_def attempts_def demo_ask_def demo_impl_def
        demo_client_config_def default_client_config_def)
  have 3: "?step ?d1 (SdkAcquire 0) ?d2"
    using sdk_acquire [of ?d1 0 ?t1 None "\<lambda>e. []"]
    by (simp add: caller_at_def with_caller_def acquire_def pool_ready_def demo_impl_def)
  let ?t3 = "after_call CallConnectionLost demo_outputs c' ?t2"
  have 4: "?step ?d2 (SdkCall 0 demo_first CallConnectionLost) (with_caller ?d2 0 (sd_impl ?d2, ?t3))"
    using sdk_call [of ?d2 0 ?t2 demo_first CallConnectionLost demo_outputs c' None "\<lambda>e. []"] c'
    by (simp add: caller_at_def caller_make_def)
  have "ca_op ?t3 = demo_ask" "ca_stage ?t3 = Giving c' False None"
    by (simp_all add: after_call_def is_retryable_failure_def caller_make_def Let_def)
  then show ?thesis
    using sdk_run_step [OF sdk_run_step [OF sdk_run_step [OF sdk_run_step [OF sdk_run_start 1] 2] 3] 4]
    by (intro exI [of _ "with_caller ?d2 0 (sd_impl ?d2, ?t3)"] exI [of _ ?t3]) (simp add: caller_at_def with_caller_def)
qed

theorem sdk_pool_exact_witness:
  "\<exists>es d. sdk_run None (\<lambda>e. []) (sdk_make demo_impl) es d \<and> length (sd_callers d) = 1
     \<and> unat (open_connections (sd_impl d)) = length (im_idle (sd_impl d)) + checked_out d \<and> open_connections (sd_impl d) \<le> 1"
proof -
  obtain k' where k: "client_connect None (\<lambda>e. []) demo_broken demo_client_config None demo_dial = Some ((success, Some demo_impl), k')"
    using demo_client_connected by blast
  obtain es d where r: "sdk_run None (\<lambda>e. []) (sdk_make demo_impl) es d" "length (sd_callers d) = 1" using demo_sdk_run by blast
  then show ?thesis using sdk_pool_exact [OF k r(1)] by (auto simp: demo_client_config_def)
qed

theorem recommend_at_most_once_witness:
  "\<exists>es d t. sdk_run None (\<lambda>e. []) (sdk_make demo_impl) es d \<and> caller_at d 0 t \<and> ca_op t = demo_ask \<and>
     es \<noteq> [] \<and> calls_of 0 es \<le> 1"
proof -
  obtain k' where k: "client_connect None (\<lambda>e. []) demo_broken demo_client_config None demo_dial = Some ((success, Some demo_impl), k')"
    using demo_client_connected by blast
  obtain d t where r: "sdk_run None (\<lambda>e. []) (sdk_make demo_impl)
     [SdkStart demo_ask demo_outputs, SdkBegin 0, SdkAcquire 0, SdkCall 0 demo_first CallConnectionLost] d"
     "caller_at d 0 t" "ca_op t = demo_ask" using demo_sdk_run by blast
  have "\<not> retry_recording_recommendations demo_client_config" by (simp add: demo_client_config_def default_client_config_def)
  then have "calls_of 0 [SdkStart demo_ask demo_outputs, SdkBegin 0, SdkAcquire 0, SdkCall 0 demo_first CallConnectionLost] \<le> 1"
    using recommend_at_most_once [OF k r(1,2), of "\<lparr>affinities = [], excluded_categories = []\<rparr>" 1] r(3) by (simp add: demo_ask_def)
  then show ?thesis using r by blast
qed

theorem invoke_returns_witness:
  "\<exists>es d t e d'. sdk_run None (\<lambda>e. []) (sdk_make demo_impl) es d \<and> caller_at d 0 t
     \<and> sdk_step None (\<lambda>e. []) d e d' \<and> moved_by 0 e"
proof -
  obtain k' where k: "client_connect None (\<lambda>e. []) demo_broken demo_client_config None demo_dial = Some ((success, Some demo_impl), k')"
    using demo_client_connected by blast
  obtain es d t c where r: "sdk_run None (\<lambda>e. []) (sdk_make demo_impl) es d" "caller_at d 0 t" "ca_stage t = Giving c False None"
    using demo_sdk_run by blast
  then show ?thesis using invoke_returns [OF k r(1,2)] by fastforce
qed

end
