(* ===== verification/Text_Numbers.thy ===== *)
theory Text_Numbers
  imports Rank_Types
begin

section \<open>Numbers as text\<close>

text \<open>
  The library functions the command lines read numbers with. \<open>strtoul\<close> is base 10 on 64 bits: it skips
  space, takes a sign, saturates, and negates modulo the word size. \<open>from_chars\<close> takes digits only, a minus
  for a signed type, and fails out of range. What \<^const>\<open>decimal\<close> prints, both read back.
\<close>

subsection \<open>strtoul\<close>

definition is_space :: "byte \<Rightarrow> bool" where
  "is_space b \<longleftrightarrow> b = 32 \<or> (9 \<le> b \<and> b \<le> 13)"

definition is_digit :: "byte \<Rightarrow> bool" where
  "is_digit b \<longleftrightarrow> 48 \<le> b \<and> b \<le> 57"

definition digits_value :: "bytes \<Rightarrow> nat" where
  "digits_value ds = foldl (\<lambda>n d. n * 10 + unat (d - 48)) 0 ds"

text \<open>None when nothing was converted (the end pointer is the text), else the value and what is left.\<close>

definition strtoul :: "cstring \<Rightarrow> (u64 \<times> cstring) option" where
  "strtoul text =
     (let s = dropWhile is_space text;
          (neg, s) = (case s of [] \<Rightarrow> (False, []) | c # r \<Rightarrow> if c = 45 then (True, r) else if c = 43 then (False, r) else (False, s));
          ds = takeWhile is_digit s
      in if ds = [] then None
         else let n = digits_value ds
              in Some (if 2 ^ 64 \<le> n then -1 else if neg then - word_of_nat n else word_of_nat n, dropWhile is_digit s))"

subsection \<open>from_chars\<close>

text \<open>The conversion of the whole text, as \<open>parse_number\<close> asks for it; the first argument is the width of the type.\<close>

definition from_chars :: "nat \<Rightarrow> cstring \<Rightarrow> (nat \<times> cstring) option" where
  "from_chars width text =
     (let ds = takeWhile is_digit text
      in if ds = [] \<or> 2 ^ width \<le> digits_value ds then None
         else Some (digits_value ds, dropWhile is_digit text))"

definition from_chars_long :: "cstring \<Rightarrow> (64 word \<times> cstring) option" where
  "from_chars_long text =
     (let (neg, s) = (case text of [] \<Rightarrow> (False, []) | c # r \<Rightarrow> if c = 45 then (True, r) else (False, text));
          ds = takeWhile is_digit s; n = digits_value ds
      in if ds = [] \<or> 2 ^ 63 + (if neg then 1 else 0) \<le> n then None
         else Some (if neg then - word_of_nat n else word_of_nat n, dropWhile is_digit s))"

subsection \<open>Printing and reading numbers\<close>

lemma lit_eq [simp]: "lit s = lit t \<longleftrightarrow> s = t"
proof -
  have "inj (of_char :: char \<Rightarrow> byte)"
  proof (rule injI)
    fix x y :: char assume e: "(of_char x :: byte) = of_char y"
    have "unat (of_char c :: byte) = of_char c" for c :: char
      using unat_of_nat [of "of_char c", where 'a = 8] nat_of_char_less_256 [of c] by (simp add: of_nat_of_char)
    then have "(of_char x :: nat) = of_char y" using e by metis
    then show "x = y" by simp
  qed
  then show ?thesis by (simp add: lit_def inj_map_eq_map)
qed

lemma digit_byte:
  assumes "n < 10"
  shows "is_digit (48 + of_nat n)" "unat ((48 + of_nat n :: byte) - 48) = n"
proof -
  have "unat (of_nat n :: byte) = n" using assms by (simp add: unat_of_nat)
  then show "is_digit (48 + of_nat n)" "unat ((48 + of_nat n :: byte) - 48) = n"
    using assms by (simp_all add: is_digit_def word_le_nat_alt unat_word_ariths)
qed

lemma decimal_digits: "list_all is_digit (decimal n) \<and> decimal n \<noteq> [] \<and> digits_value (decimal n) = n"
proof (induction n rule: decimal.induct)
  case (1 n)
  show ?case
  proof (cases "n < 10")
    case True
    then show ?thesis using digit_byte [OF True] by (simp add: decimal.simps [of n] digits_value_def)
  next
    case False
    then show ?thesis using 1 digit_byte [of "n mod 10"]
      by (simp add: decimal.simps [of n] digits_value_def)
  qed
qed

lemma takeWhile_decimal:
  "takeWhile is_digit (decimal n) = decimal n" "dropWhile is_digit (decimal n) = []"
  using decimal_digits [of n] by (auto simp: list_all_iff takeWhile_eq_all_conv dropWhile_eq_Nil_conv)

lemma strtoul_decimal:
  assumes "n < 2 ^ 64"
  shows "strtoul (decimal n) = Some (word_of_nat n, [])"
proof -
  note d = decimal_digits [of n]
  have c: "\<not> is_space c \<and> c \<noteq> 45 \<and> c \<noteq> 43" if "decimal n = c # r" for c r
    using d that by (auto simp: is_space_def is_digit_def word_le_nat_alt)
  have sp: "dropWhile is_space (decimal n) = decimal n" using c by (cases "decimal n") auto
  have "(case decimal n of [] \<Rightarrow> (False, []) | c # r \<Rightarrow> if c = 45 then (True, r) else if c = 43 then (False, r) else (False, decimal n))
     = (False, decimal n)"
    using c d by (cases "decimal n") auto
  then show ?thesis unfolding strtoul_def Let_def sp using d assms by (simp add: takeWhile_decimal)
qed

lemma from_chars_decimal: "n < 2 ^ width \<Longrightarrow> from_chars width (decimal n) = Some (n, [])"
  using decimal_digits [of n] by (simp add: from_chars_def takeWhile_decimal Let_def)

end
