(* ===== verification/Daemon_Main.thy ===== *)
theory Daemon_Main
  imports Server Text_Numbers
begin

section \<open>The daemon's command line (src/daemon/main.cpp)\<close>

text \<open>
  The options of \<open>lrdd\<close>: what each argument does to the server's configuration and which command lines
  are refused. Counts are read by \<open>strtoul\<close> of Text_Numbers. \<open>strtod\<close> is a parameter, and so is the number of
  hardware threads. A duration in seconds becomes milliseconds in 64-bit arithmetic.
\<close>

subsection \<open>Counts\<close>

definition parse_size_allow_zero :: "cstring \<Rightarrow> u64 option" where
  "parse_size_allow_zero text =
     (case strtoul text of
        None \<Rightarrow> None
      | Some (v, end) \<Rightarrow> if end \<noteq> [] then None else Some v)"

definition parse_size :: "cstring \<Rightarrow> u64 option" where
  "parse_size text =
     (case strtoul text of
        None \<Rightarrow> None
      | Some (v, end) \<Rightarrow> if end \<noteq> [] \<or> v = 0 then None else Some v)"

subsection \<open>Options\<close>

record Options =
  op_config :: ServerConfig
  show_help :: bool
  show_version :: bool

definition kDefaultSocketPath :: cstring where "kDefaultSocketPath = lit ''/tmp/lrd.sock''"
definition kDefaultCapacity :: u64 where "kDefaultCapacity = 10000"
definition kDefaultQueue :: u64 where "kDefaultQueue = 64"
definition kDefaultShards :: u64 where "kDefaultShards = 16"

definition default_thread_count :: "u32 \<Rightarrow> u64" where
  "default_thread_count detected = (if detected = 0 then 4 else ucast detected)"

definition initial_options :: "u32 \<Rightarrow> Options" where
  "initial_options detected =
     \<lparr>op_config = default_server_config\<lparr>socket_path := kDefaultSocketPath, cache_capacity := kDefaultCapacity,
        thread_count := default_thread_count detected, max_queued_connections := kDefaultQueue,
        cache_shards := kDefaultShards\<rparr>,
      show_help = False, show_version = False\<rparr>"

definition with_config :: "(ServerConfig \<Rightarrow> ServerConfig) \<Rightarrow> Options \<Rightarrow> Options" where
  "with_config f out = out\<lparr>op_config := f (op_config out)\<rparr>"

definition with_policy :: "(PolicyConfig \<Rightarrow> PolicyConfig) \<Rightarrow> Options \<Rightarrow> Options" where
  "with_policy f = with_config (\<lambda>c. c\<lparr>cfg_policy := f (cfg_policy c)\<rparr>)"

definition with_privacy :: "(PrivacyConfig \<Rightarrow> PrivacyConfig) \<Rightarrow> Options \<Rightarrow> Options" where
  "with_privacy f = with_config (\<lambda>c. c\<lparr>cfg_privacy := f (cfg_privacy c)\<rparr>)"

definition seconds_to_millis :: "u64 \<Rightarrow> 64 word" where
  "seconds_to_millis seconds = seconds * 1000"

text \<open>The options without a value, and those with one; None is the branch that reports a bad argument.\<close>

definition parse_flag :: "cstring \<Rightarrow> Options \<Rightarrow> Options option" where
  "parse_flag arg out =
     (if arg = lit ''--help'' \<or> arg = lit ''-h'' then Some (out\<lparr>show_help := True\<rparr>)
      else if arg = lit ''--version'' \<or> arg = lit ''-V'' then Some (out\<lparr>show_version := True\<rparr>)
      else if arg = lit ''--verbose'' \<or> arg = lit ''-v'' then Some (with_config (\<lambda>c. c\<lparr>verbose := True\<rparr>) out)
      else if arg = lit ''--policy-fail-open'' then Some (with_policy (\<lambda>p. p\<lparr>fail_open_when_full := True\<rparr>) out)
      else if arg = lit ''--privacy'' then Some (with_privacy (\<lambda>p. p\<lparr>pv_enabled := True\<rparr>) out)
      else None)"

definition parse_option ::
  "(cstring \<Rightarrow> (double \<times> cstring) option) \<Rightarrow> cstring \<Rightarrow> cstring \<Rightarrow> Options \<Rightarrow> Options option" where
  "parse_option strtod arg text out =
     (if arg = lit ''--socket'' then Some (with_config (\<lambda>c. c\<lparr>socket_path := text\<rparr>) out)
      else if arg = lit ''--capacity'' then map_option (\<lambda>n. with_config (\<lambda>c. c\<lparr>cache_capacity := n\<rparr>) out) (parse_size text)
      else if arg = lit ''--codec'' then Some (with_config (\<lambda>c. c\<lparr>cfg_codec_name := text\<rparr>) out)
      else if arg = lit ''--privacy-epsilon'' then
        (case strtod text of
           None \<Rightarrow> None
         | Some (epsilon, end) \<Rightarrow>
             if end \<noteq> [] \<or> epsilon \<le> 0 then None else Some (with_privacy (\<lambda>p. p\<lparr>pv_epsilon := epsilon\<rparr>) out))
      else if arg = lit ''--privacy-epoch'' then
        map_option (\<lambda>seconds. with_privacy (\<lambda>p. p\<lparr>pv_epoch := seconds_to_millis seconds\<rparr>) out) (parse_size text)
      else if arg = lit ''--privacy-round'' then
        map_option (\<lambda>rounding. with_privacy (\<lambda>p. p\<lparr>pv_rounding := rounding\<rparr>) out) (parse_size text)
      else if arg = lit ''--privacy-suppress'' then
        map_option (\<lambda>threshold. with_privacy (\<lambda>p. p\<lparr>pv_suppression_threshold := threshold\<rparr>) out) (parse_size_allow_zero text)
      else if arg = lit ''--privacy-seed'' then
        map_option (\<lambda>seed. with_privacy (\<lambda>p. p\<lparr>pv_seed := seed\<rparr>) out) (parse_size_allow_zero text)
      else if arg = lit ''--exposure-cap'' then
        map_option (\<lambda>cap. with_policy (\<lambda>p. p\<lparr>exposure_cap := cap\<rparr>) out) (parse_size_allow_zero text)
      else if arg = lit ''--frequency-limit'' then
        map_option (\<lambda>limit. with_policy (\<lambda>p. p\<lparr>frequency_limit := ucast limit\<rparr>) out) (parse_size_allow_zero text)
      else if arg = lit ''--frequency-window'' then
        map_option (\<lambda>seconds. with_policy (\<lambda>p. p\<lparr>frequency_window := seconds_to_millis seconds\<rparr>) out) (parse_size text)
      else if arg = lit ''--policy-capacity'' then
        map_option (\<lambda>n. with_policy (\<lambda>p. p\<lparr>max_tracked_items := n\<rparr>) out) (parse_size text)
      else if arg = lit ''--shards'' then map_option (\<lambda>n. with_config (\<lambda>c. c\<lparr>cache_shards := n\<rparr>) out) (parse_size text)
      else if arg = lit ''--threads'' then map_option (\<lambda>n. with_config (\<lambda>c. c\<lparr>thread_count := n\<rparr>) out) (parse_size text)
      else if arg = lit ''--queue'' then map_option (\<lambda>n. with_config (\<lambda>c. c\<lparr>max_queued_connections := n\<rparr>) out) (parse_size text)
      else None)"

text \<open>The loop over \<open>argv\<close>: no argument is both a flag and an option, so the order of the tests does not show.\<close>

fun parse_args :: "(cstring \<Rightarrow> (double \<times> cstring) option) \<Rightarrow> cstring list \<Rightarrow> Options \<Rightarrow> Options option" where
  "parse_args strtod [] out = Some out"
| "parse_args strtod [arg] out = parse_flag arg out"
| "parse_args strtod (arg # text # rest) out =
     (case parse_flag arg out of
        Some out \<Rightarrow> parse_args strtod (text # rest) out
      | None \<Rightarrow>
          (case parse_option strtod arg text out of
             None \<Rightarrow> None
           | Some out \<Rightarrow> parse_args strtod rest out))"

text \<open>What \<open>main\<close> does with the command line: its exit code, or the configuration it serves with.\<close>

datatype plan = ExitWith nat | ServeWith ServerConfig

definition daemon_main :: "(cstring \<Rightarrow> (double \<times> cstring) option) \<Rightarrow> u32 \<Rightarrow> cstring list \<Rightarrow> plan" where
  "daemon_main strtod detected args =
     (case parse_args strtod args (initial_options detected) of
        None \<Rightarrow> ExitWith 2
      | Some opts \<Rightarrow>
          if show_help opts then ExitWith 0
          else if show_version opts then ExitWith 0
          else ServeWith (op_config opts))"

subsection \<open>Printing and reading counts\<close>

lemma parse_size_decimal:
  fixes v :: u64 and w :: u32
  shows "parse_size_allow_zero (decimal (unat v)) = Some v" "v \<noteq> 0 \<Longrightarrow> parse_size (decimal (unat v)) = Some v"
    "parse_size_allow_zero (decimal (unat w)) = Some (ucast w)"
proof -
  have "unat v < 2 ^ 64" using unsigned_less [of v, where ?'a = nat] by simp
  then have "strtoul (decimal (unat v)) = Some (v, [])" by (simp add: strtoul_decimal)
  then show "parse_size_allow_zero (decimal (unat v)) = Some v" "v \<noteq> 0 \<Longrightarrow> parse_size (decimal (unat v)) = Some v"
    by (simp_all add: parse_size_allow_zero_def parse_size_def)
  have "unat w < 2 ^ 64" using unsigned_less [of w, where ?'a = nat] by simp
  then have "strtoul (decimal (unat w)) = Some (ucast w, [])" by (simp add: strtoul_decimal)
  then show "parse_size_allow_zero (decimal (unat w)) = Some (ucast w)" by (simp add: parse_size_allow_zero_def)
qed

lemma ucast_up_down [simp]: "(ucast (ucast (w :: u32) :: u64) :: u32) = w"
  by (rule bit_word_eqI) (simp add: bit_simps)

lemma parse_args_flag:
  "parse_flag arg out = Some out' \<Longrightarrow> parse_args strtod (arg # rest) out = parse_args strtod rest out'"
  by (cases rest) simp_all

definition positive_counts :: "ServerConfig \<Rightarrow> bool" where
  "positive_counts config \<longleftrightarrow> cache_capacity config \<noteq> 0 \<and> cache_shards config \<noteq> 0 \<and> thread_count config \<noteq> 0
     \<and> max_queued_connections config \<noteq> 0 \<and> max_tracked_items (cfg_policy config) \<noteq> 0 \<and> pv_rounding (cfg_privacy config) \<noteq> 0"

lemma parse_size_positive: "parse_size text = Some n \<Longrightarrow> n \<noteq> 0"
  by (auto simp: parse_size_def split: option.splits if_splits)

lemma parse_flag_positive:
  "parse_flag arg out = Some out' \<Longrightarrow> positive_counts (op_config out) \<Longrightarrow> positive_counts (op_config out')"
  by (auto simp: parse_flag_def positive_counts_def with_config_def with_policy_def with_privacy_def split: if_splits)

lemma parse_option_positive:
  "parse_option strtod arg text out = Some out' \<Longrightarrow> positive_counts (op_config out) \<Longrightarrow> positive_counts (op_config out')"
  by (auto simp: parse_option_def positive_counts_def with_config_def with_policy_def with_privacy_def
      dest: parse_size_positive split: if_splits option.splits)

lemma parse_args_positive:
  "parse_args strtod args out = Some out' \<Longrightarrow> positive_counts (op_config out) \<Longrightarrow> positive_counts (op_config out')"
  by (induction strtod args out rule: parse_args.induct)
    (auto split: option.splits dest: parse_flag_positive parse_option_positive)

lemma parse_args_append:
  "parse_args strtod args out = Some out' \<Longrightarrow> parse_args strtod (args @ rest) out = parse_args strtod rest out'"
  by (induction strtod args out rule: parse_args.induct) (auto simp: parse_args_flag split: option.splits)

lemma initial_positive: "positive_counts (op_config (initial_options detected))"
proof -
  have "detected \<noteq> 0 \<Longrightarrow> (ucast detected :: u64) \<noteq> 0"
    using unat_ucast_u32 [of detected] by (metis unat_eq_zero)
  then show ?thesis
    by (simp add: positive_counts_def initial_options_def default_server_config_def default_policy_def default_privacy_def
        kDefaultCapacity_def kDefaultQueue_def kDefaultShards_def default_thread_count_def)
qed

subsection \<open>Properties\<close>

text \<open>
  The parser takes a minus sign although its message asks for a positive integer, and the result is
  the two's complement: a very large count.
\<close>

lemma negative_size_accepted: "parse_size (lit ''-1'') = Some (2 ^ 64 - 1)"
  by (simp add: parse_size_def strtoul_def is_space_def is_digit_def digits_value_def lit_def Let_def)

text \<open>A frequency limit that is a multiple of 2 ^ 32 is truncated to zero, which means no limit at all.\<close>

lemma frequency_limit_truncated:
  "\<exists>config. daemon_main strtod detected [lit ''--frequency-limit'', lit ''4294967296''] = ServeWith config
     \<and> frequency_limit (cfg_policy config) = 0"
proof -
  have "parse_size_allow_zero (lit ''4294967296'') = Some 4294967296"
    by (simp add: parse_size_allow_zero_def strtoul_def is_space_def is_digit_def digits_value_def lit_def Let_def)
  then show ?thesis
    by (simp add: daemon_main_def parse_flag_def parse_option_def with_policy_def with_config_def initial_options_def
        default_server_config_def)
qed

text \<open>The command line that asks for a configuration, its two durations in seconds.\<close>

definition render_args :: "ServerConfig \<Rightarrow> u64 \<Rightarrow> u64 \<Rightarrow> cstring list" where
  "render_args config window epoch =
     [lit ''--socket'', socket_path config, lit ''--capacity'', decimal (unat (cache_capacity config)),
      lit ''--codec'', cfg_codec_name config, lit ''--shards'', decimal (unat (cache_shards config)),
      lit ''--threads'', decimal (unat (thread_count config)), lit ''--queue'', decimal (unat (max_queued_connections config)),
      lit ''--exposure-cap'', decimal (unat (exposure_cap (cfg_policy config))),
      lit ''--frequency-limit'', decimal (unat (frequency_limit (cfg_policy config))),
      lit ''--frequency-window'', decimal (unat window),
      lit ''--policy-capacity'', decimal (unat (max_tracked_items (cfg_policy config))),
      lit ''--privacy-epoch'', decimal (unat epoch), lit ''--privacy-round'', decimal (unat (pv_rounding (cfg_privacy config))),
      lit ''--privacy-suppress'', decimal (unat (pv_suppression_threshold (cfg_privacy config))),
      lit ''--privacy-seed'', decimal (unat (pv_seed (cfg_privacy config)))]
     @ (if fail_open_when_full (cfg_policy config) then [lit ''--policy-fail-open''] else [])
     @ (if pv_enabled (cfg_privacy config) then [lit ''--privacy''] else [])
     @ (if verbose config then [lit ''--verbose''] else [])"


text \<open>
  Whatever the command line, a daemon that starts has something to work with: its capacity, shards, threads, queue,
  tracked items and rounding are positive, so the worker pool is never refused for want of a thread or a queue.
  A last argument that is not a flag, or an unknown one with a value, ends with exit code 2.
\<close>

lemma served_config_positive:
  "(daemon_main strtod detected args = ServeWith config \<longrightarrow>
      positive_counts config
      \<and> pool_make spawnable (thread_count config) (max_queued_connections config) \<notin> {Inl NoThreads, Inl NoQueue}) \<and>
   (parse_args strtod args (initial_options detected) = Some out \<and> parse_flag arg out = None \<longrightarrow>
      daemon_main strtod detected (args @ [arg]) = ExitWith 2)"
proof (intro conjI impI)
  assume "daemon_main strtod detected args = ServeWith config"
  then have p: "positive_counts config"
    using parse_args_positive [OF _ initial_positive]
    by (auto simp: daemon_main_def split: option.splits if_splits)
  then show "positive_counts config" .
  show "pool_make spawnable (thread_count config) (max_queued_connections config) \<notin> {Inl NoThreads, Inl NoQueue}"
    using p by (simp add: positive_counts_def pool_make_def Let_def)
next
  assume "parse_args strtod args (initial_options detected) = Some out \<and> parse_flag arg out = None"
  then have "parse_args strtod (args @ [arg]) (initial_options detected) = None"
    using parse_args_append [of strtod args "initial_options detected" out "[arg]"] by simp
  then show "daemon_main strtod detected (args @ [arg]) = ExitWith 2" by (simp add: daemon_main_def)
qed


end
