(* ===== verification/Cli_Main.thy ===== *)
theory Cli_Main
  imports Client_Connection Text_Numbers
begin

section \<open>The command-line client (src/client/main.cpp)\<close>

text \<open>
  \<open>lrd_cli\<close>: its arguments, the requests it builds from them, and its exit codes. \<open>strtod\<close> and the readings
  of the clock are parameters; what is printed is not modelled.
\<close>

subsection \<open>Numbers and lists\<close>

definition parse_number :: "nat \<Rightarrow> cstring \<Rightarrow> nat option" where
  "parse_number width text =
     (case from_chars width text of
        None \<Rightarrow> None
      | Some (n, ptr) \<Rightarrow> if ptr = [] then Some n else None)"

definition parse_long :: "cstring \<Rightarrow> 64 word option" where
  "parse_long text =
     (case from_chars_long text of
        None \<Rightarrow> None
      | Some (n, ptr) \<Rightarrow> if ptr = [] then Some n else None)"

definition parse_double :: "(cstring \<Rightarrow> (double \<times> cstring) option) \<Rightarrow> cstring \<Rightarrow> double option" where
  "parse_double strtod text =
     (case strtod text of
        None \<Rightarrow> None
      | Some (v, end) \<Rightarrow> if end = [] \<and> text \<noteq> [] then Some v else None)"

lemma dropWhile_shorter: "dropWhile P xs = y # ys \<Longrightarrow> length ys < length xs"
  by (metis length_Cons length_dropWhile_le Suc_le_lessD)

text \<open>The rest of the text from \<open>start\<close> on is the argument; a delimiter at the very end leaves an empty part.\<close>

function split :: "cstring \<Rightarrow> byte \<Rightarrow> cstring list" where
  "split text delimiter =
     (case dropWhile (\<lambda>b. b \<noteq> delimiter) text of
        [] \<Rightarrow> [text]
      | _ # rest \<Rightarrow> takeWhile (\<lambda>b. b \<noteq> delimiter) text # split rest delimiter)"
  by pat_completeness auto

termination
  by (relation "measure (\<lambda>(text, d). length text)") (auto dest: dropWhile_shorter)

declare split.simps [simp del]

definition parse_entry :: "(cstring \<Rightarrow> (double \<times> cstring) option) \<Rightarrow> cstring \<Rightarrow> CategoryAffinity option" where
  "parse_entry strtod entry =
     (case dropWhile (\<lambda>b. b \<noteq> 61) entry of
        [] \<Rightarrow> None
      | _ # weight \<Rightarrow>
          map_option (\<lambda>w. \<lparr>ca_category = takeWhile (\<lambda>b. b \<noteq> 61) entry, ca_weight = w\<rparr>) (parse_double strtod weight))"

fun parse_entries ::
  "(cstring \<Rightarrow> (double \<times> cstring) option) \<Rightarrow> cstring list \<Rightarrow> UserSignal \<Rightarrow> UserSignal option" where
  "parse_entries strtod [] signal = Some signal"
| "parse_entries strtod (entry # rest) signal =
     (if entry = [] then parse_entries strtod rest signal
      else case parse_entry strtod entry of
        None \<Rightarrow> None
      | Some a \<Rightarrow> parse_entries strtod rest (signal\<lparr>affinities := affinities signal @ [a]\<rparr>))"

definition parse_signal :: "(cstring \<Rightarrow> (double \<times> cstring) option) \<Rightarrow> cstring \<Rightarrow> UserSignal \<Rightarrow> UserSignal option" where
  "parse_signal strtod text signal =
     (if text = [] then Some signal else parse_entries strtod (split text 44) signal)"

subsection \<open>Arguments\<close>

record CliOptions =
  cli_socket :: cstring
  cli_codec :: cstring
  cli_signal :: cstring
  cli_exclude :: cstring
  cli_advertiser :: cstring
  cli_count :: u32
  cli_age_hours :: "64 word"
  cli_expires_in_hours :: "64 word"
  cli_dry_run :: bool
  cli_args :: "cstring list"

definition initial_cli :: CliOptions where
  "initial_cli = \<lparr>cli_socket = lit ''/tmp/lrd.sock'', cli_codec = lit ''binary'', cli_signal = [], cli_exclude = [],
     cli_advertiser = lit ''acme'', cli_count = 5, cli_age_hours = 0, cli_expires_in_hours = 0, cli_dry_run = False,
     cli_args = []\<rparr>"

text \<open>The options that take a value; the assignment fails on a bad number.\<close>

definition cli_option :: "cstring \<Rightarrow> (cstring \<Rightarrow> CliOptions \<Rightarrow> CliOptions option) option" where
  "cli_option arg =
     (if arg = lit ''--socket'' then Some (\<lambda>text out. Some (out\<lparr>cli_socket := text\<rparr>))
      else if arg = lit ''--codec'' then Some (\<lambda>text out. Some (out\<lparr>cli_codec := text\<rparr>))
      else if arg = lit ''--signal'' then Some (\<lambda>text out. Some (out\<lparr>cli_signal := text\<rparr>))
      else if arg = lit ''--exclude'' then Some (\<lambda>text out. Some (out\<lparr>cli_exclude := text\<rparr>))
      else if arg = lit ''--advertiser'' then Some (\<lambda>text out. Some (out\<lparr>cli_advertiser := text\<rparr>))
      else if arg = lit ''--count'' then
        Some (\<lambda>text out. map_option (\<lambda>n. out\<lparr>cli_count := word_of_nat n\<rparr>) (parse_number 32 text))
      else if arg = lit ''--age-hours'' then
        Some (\<lambda>text out. map_option (\<lambda>n. out\<lparr>cli_age_hours := n\<rparr>) (parse_long text))
      else if arg = lit ''--expires-in-hours'' then
        Some (\<lambda>text out. map_option (\<lambda>n. out\<lparr>cli_expires_in_hours := n\<rparr>) (parse_long text))
      else None)"

text \<open>The loop over \<open>argv\<close>; Inl is an exit code.\<close>

fun cli_parse :: "cstring list \<Rightarrow> CliOptions \<Rightarrow> nat + CliOptions" where
  "cli_parse [] out = Inr out"
| "cli_parse (arg # rest) out =
     (if arg = lit ''--help'' \<or> arg = lit ''-h'' then Inl 0
      else if arg = lit ''--dry-run'' then cli_parse rest (out\<lparr>cli_dry_run := True\<rparr>)
      else case cli_option arg of
        None \<Rightarrow> cli_parse rest (out\<lparr>cli_args := cli_args out @ [arg]\<rparr>)
      | Some take_value \<Rightarrow>
          (case rest of
             [] \<Rightarrow> Inl 2
           | text # rest' \<Rightarrow>
               (case take_value text out of
                  None \<Rightarrow> Inl 2
                | Some out \<Rightarrow> cli_parse rest' out)))"

subsection \<open>Commands\<close>

definition report :: "CallStatus \<Rightarrow> nat" where
  "report status = (if status = CallOk then 0 else 1)"

definition kCategories :: "cstring list" where
  "kCategories = map lit [''tech'', ''sport'', ''travel'', ''food'', ''music'', ''gaming'']"

definition kAdvertisers :: "cstring list" where
  "kAdvertisers = map lit [''acme'', ''globex'', ''initech'', ''umbrella'']"

definition hours :: "64 word \<Rightarrow> 64 word" where
  "hours n = n * 3600000"

definition seed_item :: "Timestamp \<Rightarrow> nat \<Rightarrow> Item" where
  "seed_item now i =
     \<lparr>item_id = word_of_nat (i + 1), category = kCategories ! (i mod 6), advertiser = kAdvertisers ! (i mod 4),
      base_score = dlit (5 / 100) + dlit (95 / 100) * double_of_nat (i mod 20) / dlit 19,
      created_at = now - hours (word_of_nat (i mod 240)), expires_at = from_epoch_millis 0\<rparr>"

fun seed_loop :: "Timestamp \<Rightarrow> nat \<Rightarrow> nat \<Rightarrow> Connection \<Rightarrow> (nat \<times> Connection) option" where
  "seed_loop now i 0 c = Some (0, c)"
| "seed_loop now i (Suc n) c =
     (case put_item (seed_item now i) c of
        None \<Rightarrow> None
      | Some (status, c) \<Rightarrow> if status \<noteq> CallOk then Some (report status, c) else seed_loop now (Suc i) n c)"

definition cmd_seed :: "Timestamp \<Rightarrow> nat \<Rightarrow> Connection \<Rightarrow> (nat \<times> Connection) option" where
  "cmd_seed now items = seed_loop now 0 items"

definition cmd_recommend :: "UserSignal \<Rightarrow> u32 \<Rightarrow> bool \<Rightarrow> Connection \<Rightarrow> (nat \<times> Connection) option" where
  "cmd_recommend signal wanted dry_run c =
     map_option (\<lambda>(status, items, c). (if status \<noteq> CallOk then report status else 0, c))
       (recommend signal wanted [] dry_run c)"

definition zero_stats :: Stats where
  "zero_stats = \<lparr>st_requests = 0, st_gets = 0, st_puts = 0, st_deletes = 0, st_recommends = 0, st_hits = 0, st_misses = 0,
     st_evictions = 0, st_entries = 0, st_capacity = 0, st_policy_allowed = 0, st_policy_exposure_blocked = 0,
     st_policy_frequency_blocked = 0, st_policy_store_full = 0, st_policy_tracked = 0\<rparr>"

definition cmd_stats :: "Connection \<Rightarrow> (nat \<times> Connection) option" where
  "cmd_stats c =
     map_option (\<lambda>(status, stats, c). (if status \<noteq> CallOk then report status else 0, c)) (fetch_stats zero_stats c)"

text \<open>The item of \<open>put-item\<close>; the clock is read once for each time stamp that needs it.\<close>

definition cli_item :: "CliOptions \<Rightarrow> ItemId \<Rightarrow> cstring \<Rightarrow> double \<Rightarrow> (nat \<Rightarrow> Timestamp) \<Rightarrow> Item" where
  "cli_item opts iid cat score now =
     \<lparr>item_id = iid, category = cat, advertiser = cli_advertiser opts, base_score = score,
      created_at = now 0 - hours (cli_age_hours opts),
      expires_at = (if cli_expires_in_hours opts = 0 then from_epoch_millis 0 else now 1 + hours (cli_expires_in_hours opts))\<rparr>"

definition cli_signal_of :: "(cstring \<Rightarrow> (double \<times> cstring) option) \<Rightarrow> CliOptions \<Rightarrow> UserSignal option" where
  "cli_signal_of strtod opts =
     map_option (\<lambda>signal. signal\<lparr>excluded_categories := excluded_categories signal @ filter (\<lambda>c. c \<noteq> []) (split (cli_exclude opts) 44)\<rparr>)
       (parse_signal strtod (cli_signal opts) \<lparr>affinities = [], excluded_categories = []\<rparr>)"

definition cli_execute ::
  "(cstring \<Rightarrow> (double \<times> cstring) option) \<Rightarrow> (nat \<Rightarrow> Timestamp) \<Rightarrow> CliOptions \<Rightarrow> Connection \<Rightarrow> (nat \<times> Connection) option" where
  "cli_execute strtod now opts c =
     (let args = cli_args opts; command = hd args in
      if command = lit ''put-item'' \<and> length args = 4 then
        (case parse_number 64 (args ! 1) of
           None \<Rightarrow> Some (2, c)
         | Some iid \<Rightarrow>
             if iid = 0 then Some (2, c)
             else case parse_double strtod (args ! 3) of
               None \<Rightarrow> Some (2, c)
             | Some score \<Rightarrow>
                 map_option (\<lambda>(status, c). (report status, c)) (put_item (cli_item opts (word_of_nat iid) (args ! 2) score now) c))
      else if command = lit ''get-item'' \<and> length args = 2 then
        (case parse_number 64 (args ! 1) of
           None \<Rightarrow> Some (2, c)
         | Some iid \<Rightarrow> map_option (\<lambda>(status, item, c). (report status, c)) (get_item (word_of_nat iid) default_item c))
      else if command = lit ''del-item'' \<and> length args = 2 then
        (case parse_number 64 (args ! 1) of
           None \<Rightarrow> Some (2, c)
         | Some iid \<Rightarrow> map_option (\<lambda>(status, c). (report status, c)) (delete_item (word_of_nat iid) c))
      else if command = lit ''recommend'' \<and> length args = 1 then
        (case cli_signal_of strtod opts of
           None \<Rightarrow> Some (2, c)
         | Some signal \<Rightarrow> cmd_recommend signal (cli_count opts) (cli_dry_run opts) c)
      else if command = lit ''seed'' \<and> length args = 2 then
        (case parse_number 64 (args ! 1) of
           None \<Rightarrow> Some (2, c)
         | Some items \<Rightarrow> if items = 0 then Some (2, c) else cmd_seed (now 0) items c)
      else if command = lit ''stats'' \<and> length args = 1 then cmd_stats c
      else Some (2, c))"

text \<open>\<open>main\<close>: the connection is opened before the command is looked at; every exception exits with 1.\<close>

definition cli_main ::
  "pb_runtime option \<Rightarrow> (cstring \<Rightarrow> (double \<times> cstring) option) \<Rightarrow> (nat \<Rightarrow> Timestamp) \<Rightarrow> socket \<Rightarrow> cstring list \<Rightarrow> kernel \<Rightarrow> nat option" where
  "cli_main build strtod now stream argv k =
     (case cli_parse argv initial_cli of
        Inl code \<Rightarrow> Some code
      | Inr opts \<Rightarrow>
          if cli_args opts = [] then Some 2
          else case connection_connect build stream (cli_socket opts) (cli_codec opts) k of
            None \<Rightarrow> None
          | Some (Inl e, k) \<Rightarrow> Some 1
          | Some (Inr c, k) \<Rightarrow> map_option fst (cli_execute strtod now opts c))"

subsection \<open>Splitting and joining\<close>

fun join :: "byte \<Rightarrow> cstring list \<Rightarrow> cstring" where
  "join d [] = []"
| "join d [x] = x"
| "join d (x # y # ys) = x @ d # join d (y # ys)"

lemma split_join:
  assumes "xs \<noteq> []" "list_all (\<lambda>x. d \<notin> set x) xs"
  shows "split (join d xs) d = xs"
  using assms
proof (induction d xs rule: join.induct)
  case (2 d x)
  then have e: "dropWhile (\<lambda>b. b \<noteq> d) x = []" by (auto simp: dropWhile_eq_Nil_conv)
  show ?case by (simp add: split.simps [of x] e del: dropWhile_eq_Nil_conv)
next
  case (3 d x y ys)
  then have "dropWhile (\<lambda>b. b \<noteq> d) (x @ d # join d (y # ys)) = d # join d (y # ys)"
    "takeWhile (\<lambda>b. b \<noteq> d) (x @ d # join d (y # ys)) = x"
    by (auto simp: dropWhile_append takeWhile_append)
  then show ?case using 3 by (simp add: split.simps [of "x @ d # join d (y # ys)"])
qed simp

lemma split_not_Nil: "split t d \<noteq> []"
  unfolding split.simps [of t] by (simp split: list.splits)

lemma join_split: "join d (split t d) = t"
proof (induction t d rule: split.induct)
  case (1 t d)
  show ?case
  proof (cases "dropWhile (\<lambda>b. b \<noteq> d) t")
    case Nil
    show ?thesis by (simp add: split.simps [of t] Nil del: dropWhile_eq_Nil_conv)
  next
    case (Cons x rest)
    then have "x = d" using hd_dropWhile [of "\<lambda>b. b \<noteq> d" t] by simp
    then have "t = takeWhile (\<lambda>b. b \<noteq> d) t @ d # rest"
      using Cons takeWhile_dropWhile_id [of "\<lambda>b. b \<noteq> d" t] by simp
    moreover obtain y ys where "split rest d = y # ys" using split_not_Nil [of rest d] by (cases "split rest d") auto
    ultimately show ?thesis using 1 [OF Cons] Cons by (subst split.simps) simp
  qed
qed

subsection \<open>Exit codes\<close>

text \<open>A command line that is refused leaves the connection alone, and every run of a command exits with 0, 1 or 2.\<close>

lemma seed_loop_code: "seed_loop now i n c = Some (code, c') \<Longrightarrow> code < 2"
  by (induction now i n c rule: seed_loop.induct) (auto simp: report_def split: option.splits if_splits)

lemma report_code: "report st < 2"
  by (simp add: report_def)

lemma usage_error_sends_nothing:
  assumes "cli_execute strtod now opts c = Some (code, c')"
  shows "code \<le> 2" "code = 2 \<Longrightarrow> c' = c"
  using assms
  by (auto simp: cli_execute_def cmd_seed_def cmd_recommend_def cmd_stats_def report_def Let_def
      dest!: seed_loop_code split: if_splits option.splits prod.splits)

subsection \<open>Properties\<close>

definition render_affinity :: "(double \<Rightarrow> cstring) \<Rightarrow> CategoryAffinity \<Rightarrow> cstring" where
  "render_affinity fmt a = ca_category a @ 61 # fmt (ca_weight a)"

text \<open>An affinity the command line can carry: no comma in it, no equals sign in the category, and a weight that reads back.\<close>

definition printable :: "(double \<Rightarrow> cstring) \<Rightarrow> (cstring \<Rightarrow> (double \<times> cstring) option) \<Rightarrow> CategoryAffinity \<Rightarrow> bool" where
  "printable fmt strtod a \<longleftrightarrow> 44 \<notin> set (ca_category a) \<and> 61 \<notin> set (ca_category a) \<and> 44 \<notin> set (fmt (ca_weight a))
     \<and> fmt (ca_weight a) \<noteq> [] \<and> strtod (fmt (ca_weight a)) = Some (ca_weight a, [])"

lemma parse_entry_render:
  assumes "printable fmt strtod a"
  shows "parse_entry strtod (render_affinity fmt a) = Some a"
proof -
  have "dropWhile (\<lambda>b. b \<noteq> 61) (render_affinity fmt a) = 61 # fmt (ca_weight a)"
    "takeWhile (\<lambda>b. b \<noteq> 61) (render_affinity fmt a) = ca_category a"
    using assms by (auto simp: render_affinity_def printable_def dropWhile_append takeWhile_append)
  then show ?thesis using assms by (simp add: parse_entry_def parse_double_def printable_def)
qed

lemma parse_entries_render:
  "list_all (printable fmt strtod) as \<Longrightarrow> parse_entries strtod (map (render_affinity fmt) as) signal
     = Some (signal\<lparr>affinities := affinities signal @ as\<rparr>)"
proof (induction as arbitrary: signal)
  case (Cons a as)
  have "render_affinity fmt a \<noteq> []" by (simp add: render_affinity_def)
  moreover have "parse_entry strtod (render_affinity fmt a) = Some a" using Cons.prems by (simp add: parse_entry_render)
  ultimately show ?case using Cons by simp
qed simp

text \<open>
  C39. The signal given on the command line is the signal that is sent: for every signal whose parts can be written
  there, printing its affinities and its excluded categories and parsing the two options gives the signal back, in order.
\<close>

theorem signal_roundtrip:
  assumes "list_all (printable fmt strtod) (affinities signal)"
    and "list_all (\<lambda>c. c \<noteq> [] \<and> 44 \<notin> set c) (excluded_categories signal)"
    and "cli_signal opts = join 44 (map (render_affinity fmt) (affinities signal))"
    and "cli_exclude opts = join 44 (excluded_categories signal)"
  shows "cli_signal_of strtod opts = Some signal"
proof -
  have r: "list_all (\<lambda>x. 44 \<notin> set x) (map (render_affinity fmt) (affinities signal))"
    using assms(1) by (auto simp: list_all_iff render_affinity_def printable_def)
  have "parse_signal strtod (cli_signal opts) \<lparr>affinities = [], excluded_categories = []\<rparr>
      = Some \<lparr>affinities = affinities signal, excluded_categories = []\<rparr>"
  proof (cases "affinities signal = []")
    case False
    then have "split (cli_signal opts) 44 = map (render_affinity fmt) (affinities signal)"
      using split_join [OF _ r] assms(3) by simp
    moreover have "cli_signal opts \<noteq> []"
      using False assms(3) by (cases "(44 :: byte, map (render_affinity fmt) (affinities signal))" rule: join.cases)
        (auto simp: render_affinity_def)
    ultimately show ?thesis using parse_entries_render [OF assms(1)] by (simp add: parse_signal_def)
  qed (use assms(3) in \<open>simp add: parse_signal_def\<close>)
  moreover have "filter (\<lambda>c. c \<noteq> []) (split (cli_exclude opts) 44) = excluded_categories signal"
  proof (cases "excluded_categories signal = []")
    case True
    then show ?thesis using assms(4) by (simp add: split.simps)
  next
    case False
    then have "split (cli_exclude opts) 44 = excluded_categories signal"
      using split_join [OF False, of 44] assms(2,4) by (simp add: list_all_iff)
    then show ?thesis using assms(2) by (simp add: list_all_iff filter_id_conv)
  qed
  ultimately show ?thesis by (simp add: cli_signal_of_def)
qed

theorem signal_roundtrip_witness:
  "cli_signal_of (\<lambda>t. if t = [49] then Some (1, []) else None)
     (initial_cli\<lparr>cli_signal := lit ''tech=1,sport=1'', cli_exclude := lit ''food''\<rparr>)
   = Some \<lparr>affinities = [\<lparr>ca_category = lit ''tech'', ca_weight = 1\<rparr>, \<lparr>ca_category = lit ''sport'', ca_weight = 1\<rparr>],
           excluded_categories = [lit ''food'']\<rparr>"
  by (rule signal_roundtrip [where fmt = "\<lambda>w. [49]"])
    (simp_all add: printable_def render_affinity_def initial_cli_def lit_def)

end
