(* ===== verification/Bench.thy ===== *)
theory Bench
  imports Client_Connection Scorer Text_Numbers
begin

section \<open>The load generator (bench/latency.hpp, bench/workload.hpp, bench/main.cpp)\<close>

text \<open>
  \<open>lrd_bench\<close>: the samples and their summary, the key distribution and the items, the arguments, one client
  thread, one run, and the exit code. The random draws, the clock, \<open>pow\<close>, \<open>strtod\<close> and the average in
  \<open>long double\<close> are parameters; what is printed, the median that is picked for printing among it, is not modelled.
\<close>

subsection \<open>Samples and their summary\<close>

record LatencySummary =
  ls_count :: nat
  min_us :: double
  p50_us :: double
  p90_us :: double
  p99_us :: double
  p999_us :: double
  max_us :: double
  mean_us :: double

definition empty_summary :: LatencySummary where
  "empty_summary = \<lparr>ls_count = 0, min_us = 0, p50_us = 0, p90_us = 0, p99_us = 0, p999_us = 0, max_us = 0, mean_us = 0\<rparr>"

text \<open>\<open>std::ceil\<close>, and the conversion of a double to \<open>std::size_t\<close>, defined on what the type can hold.\<close>

definition dceil :: "double \<Rightarrow> double" where
  "dceil x = (if is_finite x then rnd (dsign x) (of_int \<lceil>dval x\<rceil>) else x)"

definition size_of_double :: "double \<Rightarrow> nat" where
  "size_of_double x = nat \<lfloor>dval x\<rfloor>"

definition percentile_index :: "nat \<Rightarrow> double \<Rightarrow> nat" where
  "percentile_index n p =
     (let rank = dceil (p * double_of_nat n);
          index = size_of_double rank
      in min (max index 1) n - 1)"

definition percentile_us :: "u64 list \<Rightarrow> double \<Rightarrow> double" where
  "percentile_us nanos p =
     (if nanos = [] then 0 else u64_double (nanos ! percentile_index (length nanos) p) / dlit 1000)"

definition samples_add :: "64 word \<Rightarrow> u64 list \<Rightarrow> u64 list" where
  "samples_add duration nanos = nanos @ [duration]"

definition summarize :: "(u64 list \<Rightarrow> double) \<Rightarrow> u64 list list \<Rightarrow> LatencySummary" where
  "summarize mean per_thread =
     (let all = concat per_thread in
      if all = [] then empty_summary
      else let all = sort all in
        \<lparr>ls_count = length all, min_us = u64_double (hd all) / dlit 1000,
         p50_us = percentile_us all (dlit (50 / 100)), p90_us = percentile_us all (dlit (90 / 100)),
         p99_us = percentile_us all (dlit (99 / 100)), p999_us = percentile_us all (dlit (999 / 1000)),
         max_us = u64_double (last all) / dlit 1000, mean_us = mean all / dlit 1000\<rparr>)"

subsection \<open>Keys and items\<close>

record KeyDistribution =
  kd_count :: nat
  kd_theta :: double
  kd_cdf :: "double list"

text \<open>The running totals of \<open>1 / pow(i + 1, theta)\<close>, and the last of them.\<close>

fun cdf_totals :: "libm \<Rightarrow> double \<Rightarrow> nat \<Rightarrow> nat \<Rightarrow> double \<Rightarrow> double list \<times> double" where
  "cdf_totals m theta i 0 acc = ([], acc)"
| "cdf_totals m theta i (Suc n) acc =
     (let acc = acc + 1 / libm_pow m (double_of_nat (i + 1)) theta;
          (rest, final) = cdf_totals m theta (Suc i) n acc
      in (acc # rest, final))"

definition distribution_make :: "libm \<Rightarrow> nat \<Rightarrow> double \<Rightarrow> KeyDistribution" where
  "distribution_make m key_count theta =
     \<lparr>kd_count = key_count, kd_theta = theta,
      kd_cdf = (if theta \<le> 0 then []
                else let (cdf, total) = cdf_totals m theta 0 key_count 0 in map (\<lambda>value. value / total) cdf)\<rparr>"

text \<open>\<open>std::lower_bound\<close>: the position is \<open>first\<close>, and \<open>len\<close> elements are left to search.\<close>

function lower_bound :: "double list \<Rightarrow> double \<Rightarrow> nat \<Rightarrow> nat \<Rightarrow> nat" where
  "lower_bound xs v first len =
     (if len = 0 then first
      else let half = len div 2; middle = first + half
           in if xs ! middle < v then lower_bound xs v (middle + 1) (len - half - 1)
              else lower_bound xs v first half)"
  by pat_completeness auto

termination
  by (relation "measure (\<lambda>(xs, v, first, len). len)") (auto simp: Let_def)

declare lower_bound.simps [simp del]

text \<open>What one iteration draws: a key for a uniform or for a skewed distribution, and the coin.\<close>

record bench_draw =
  dr_uniform :: nat
  dr_sample :: double
  dr_roll :: double

definition distribution_next :: "KeyDistribution \<Rightarrow> bench_draw \<Rightarrow> nat" where
  "distribution_next d draw =
     (if kd_theta d \<le> 0 then dr_uniform draw
      else min (lower_bound (kd_cdf d) (dr_sample draw) 0 (length (kd_cdf d))) (kd_count d - 1))"

definition key_at :: "nat \<Rightarrow> ItemId" where
  "key_at index = word_of_nat (index + 1)"

definition make_items :: "nat \<Rightarrow> Timestamp \<Rightarrow> Item list" where
  "make_items n now =
     map (\<lambda>i. \<lparr>item_id = key_at i,
               category = map lit [''tech'', ''sport'', ''travel'', ''food'', ''music'', ''gaming''] ! (i mod 6),
               advertiser = map lit [''acme'', ''globex'', ''initech'', ''umbrella''] ! (i mod 4),
               base_score = dlit (5 / 100) + dlit (95 / 100) * double_of_nat (i mod 20) / dlit 19,
               created_at = now - word_of_nat (i mod 240) * 3600000, expires_at = from_epoch_millis 0\<rparr>) [0..<n]"

definition make_signal :: UserSignal where
  "make_signal =
     \<lparr>affinities = [\<lparr>ca_category = lit ''tech'', ca_weight = dlit (9 / 10)\<rparr>,
                    \<lparr>ca_category = lit ''sport'', ca_weight = dlit (5 / 10)\<rparr>,
                    \<lparr>ca_category = lit ''travel'', ca_weight = dlit (2 / 10)\<rparr>],
      excluded_categories = []\<rparr>"

subsection \<open>Arguments\<close>

record BenchOptions =
  bo_socket_path :: cstring
  bo_codec_name :: cstring
  bo_threads :: u64
  bo_requests_per_thread :: u64
  bo_warmup_per_thread :: u64
  bo_key_count :: u64
  bo_read_ratio :: double
  bo_recommend_ratio :: double
  bo_recommend_count :: u32
  bo_zipf_theta :: double
  bo_target_rate :: double
  bo_trials :: u64
  bo_sweep :: bool
  bo_show_help :: bool

definition bench_defaults :: BenchOptions where
  "bench_defaults = \<lparr>bo_socket_path = lit ''/tmp/lrd.sock'', bo_codec_name = lit ''binary'', bo_threads = 4,
     bo_requests_per_thread = 20000, bo_warmup_per_thread = 2000, bo_key_count = 10000, bo_read_ratio = dlit (9 / 10),
     bo_recommend_ratio = dlit (5 / 100), bo_recommend_count = 5, bo_zipf_theta = dlit (99 / 100), bo_target_rate = 0,
     bo_trials = 3, bo_sweep = False, bo_show_help = False\<rparr>"

type_synonym strtod_fn = "cstring \<Rightarrow> (double \<times> cstring) option"

definition bench_parse_double :: "strtod_fn \<Rightarrow> cstring \<Rightarrow> double option" where
  "bench_parse_double strtod text =
     (case strtod text of
        None \<Rightarrow> None
      | Some (v, end) \<Rightarrow> if end \<noteq> [] then None else Some v)"

definition bench_parse_size :: "cstring \<Rightarrow> u64 option" where
  "bench_parse_size text =
     (case strtoul text of
        None \<Rightarrow> None
      | Some (v, end) \<Rightarrow> if end \<noteq> [] \<or> v = 0 then None else Some v)"

text \<open>The options with a value; None for any other argument. A bad value makes the assignment None.\<close>

definition bench_option :: "strtod_fn \<Rightarrow> cstring \<Rightarrow> (cstring \<Rightarrow> BenchOptions \<Rightarrow> BenchOptions option) option" where
  "bench_option strtod arg =
     (let size = (\<lambda>set text out. map_option (\<lambda>n. set n out) (bench_parse_size text));
          real = (\<lambda>set text out. map_option (\<lambda>x. set x out) (bench_parse_double strtod text)) in
      if arg = lit ''--socket'' then Some (\<lambda>text out. Some (out\<lparr>bo_socket_path := text\<rparr>))
      else if arg = lit ''--codec'' then Some (\<lambda>text out. Some (out\<lparr>bo_codec_name := text\<rparr>))
      else if arg = lit ''--threads'' then Some (size (\<lambda>n out. out\<lparr>bo_threads := n\<rparr>))
      else if arg = lit ''--requests'' then Some (size (\<lambda>n out. out\<lparr>bo_requests_per_thread := n\<rparr>))
      else if arg = lit ''--warmup'' then
        Some (\<lambda>text out. Some (out\<lparr>bo_warmup_per_thread := (case strtoul text of None \<Rightarrow> 0 | Some (v, end) \<Rightarrow> v)\<rparr>))
      else if arg = lit ''--keys'' then Some (size (\<lambda>n out. out\<lparr>bo_key_count := n\<rparr>))
      else if arg = lit ''--recommend-ratio'' then Some (real (\<lambda>x out. out\<lparr>bo_recommend_ratio := x\<rparr>))
      else if arg = lit ''--recommend-count'' then Some (size (\<lambda>n out. out\<lparr>bo_recommend_count := ucast n\<rparr>))
      else if arg = lit ''--read-ratio'' then Some (real (\<lambda>x out. out\<lparr>bo_read_ratio := x\<rparr>))
      else if arg = lit ''--zipf'' then Some (real (\<lambda>x out. out\<lparr>bo_zipf_theta := x\<rparr>))
      else if arg = lit ''--rate'' then Some (real (\<lambda>x out. out\<lparr>bo_target_rate := x\<rparr>))
      else if arg = lit ''--trials'' then Some (size (\<lambda>n out. out\<lparr>bo_trials := n\<rparr>))
      else None)"

fun bench_parse_args :: "strtod_fn \<Rightarrow> cstring list \<Rightarrow> BenchOptions \<Rightarrow> BenchOptions option" where
  "bench_parse_args strtod [] out = Some out"
| "bench_parse_args strtod (arg # rest) out =
     (if arg = lit ''--help'' \<or> arg = lit ''-h'' then bench_parse_args strtod rest (out\<lparr>bo_show_help := True\<rparr>)
      else if arg = lit ''--sweep'' then bench_parse_args strtod rest (out\<lparr>bo_sweep := True\<rparr>)
      else case bench_option strtod arg of
        None \<Rightarrow> None
      | Some assign \<Rightarrow>
          (case rest of
             [] \<Rightarrow> None
           | text # rest' \<Rightarrow>
               (case assign text out of
                  None \<Rightarrow> None
                | Some out \<Rightarrow> bench_parse_args strtod rest' out)))"

subsection \<open>One client thread\<close>

text \<open>The locals of \<open>run_thread\<close>, with the thread's share of the counters all threads add to.\<close>

record bench_thread =
  th_connection :: Connection
  th_item :: Item
  th_ranked :: "RankedItem list"
  th_samples :: "u64 list"
  th_errors :: u64
  th_mismatches :: u64
  th_misses :: u64

definition choose_and_run ::
  "BenchOptions \<Rightarrow> UserSignal \<Rightarrow> bench_draw \<Rightarrow> Item \<Rightarrow> bench_thread \<Rightarrow> (CallStatus \<times> bench_thread) option" where
  "choose_and_run opts signal draw item t =
     (let roll = dr_roll draw in
      if roll < bo_read_ratio opts then
        map_option (\<lambda>(status, found, c). (status, t\<lparr>th_item := found, th_connection := c\<rparr>))
          (get_item (item_id item) (th_item t) (th_connection t))
      else if roll < bo_read_ratio opts + bo_recommend_ratio opts then
        map_option (\<lambda>(status, ranked, c). (status, t\<lparr>th_ranked := ranked, th_connection := c\<rparr>))
          (recommend signal (bo_recommend_count opts) (th_ranked t) False (th_connection t))
      else map_option (\<lambda>(status, c). (status, t\<lparr>th_connection := c\<rparr>)) (put_item item (th_connection t)))"

text \<open>The warmup and the measured loop; \<open>n\<close> iterations are left, and the draws are numbered over both.\<close>

fun warmup ::
  "BenchOptions \<Rightarrow> UserSignal \<Rightarrow> Item list \<Rightarrow> KeyDistribution \<Rightarrow> (nat \<Rightarrow> bench_draw) \<Rightarrow> nat \<Rightarrow> nat \<Rightarrow> bench_thread
     \<Rightarrow> bench_thread option" where
  "warmup opts signal items d draws i 0 t = Some t"
| "warmup opts signal items d draws i (Suc n) t =
     (case choose_and_run opts signal (draws i) (items ! distribution_next d (draws i)) t of
        None \<Rightarrow> None
      | Some (status, t) \<Rightarrow> warmup opts signal items d draws (Suc i) n t)"

definition count_answer :: "CallStatus \<Rightarrow> Item \<Rightarrow> bench_thread \<Rightarrow> bench_thread" where
  "count_answer status item t =
     (if status = CallNotFound then t\<lparr>th_misses := th_misses t + 1\<rparr>
      else if status = CallOk \<and> item_id (th_item t) \<noteq> 0 \<and> item_id (th_item t) \<noteq> item_id item
      then t\<lparr>th_mismatches := th_mismatches t + 1\<rparr>
      else t)"

definition count_error :: "CallStatus \<Rightarrow> bench_thread \<Rightarrow> bench_thread" where
  "count_error status t =
     (if status \<noteq> CallOk \<and> status \<noteq> CallNotFound then t\<lparr>th_errors := th_errors t + 1\<rparr> else t)"

text \<open>The distance between two arrivals in nanoseconds, zero in the closed loop.\<close>

definition arrival_interval :: "BenchOptions \<Rightarrow> 64 word" where
  "arrival_interval opts =
     (if 0 < bo_target_rate opts then
        let q = dval (dlit 1000000000 / bo_target_rate opts)
        in word_of_int (if 0 \<le> q then \<lfloor>q\<rfloor> else \<lceil>q\<rceil>)
      else 0)"

text \<open>One iteration: the clock is read before the request and after it.\<close>

definition measure_one ::
  "BenchOptions \<Rightarrow> UserSignal \<Rightarrow> bench_draw \<Rightarrow> Item \<Rightarrow> 64 word \<Rightarrow> nat \<Rightarrow> 64 word \<times> 64 word \<Rightarrow> bench_thread
     \<Rightarrow> (CallStatus \<times> bench_thread) option" where
  "measure_one opts signal draw item run_start i readings t =
     (let interval = arrival_interval opts;
          (issued, answered) = readings;
          measure_from = (if 0 <s interval then run_start + interval * word_of_nat i else issued)
      in map_option (\<lambda>(status, t).
           let t = count_answer status item t;
               t = t\<lparr>th_samples := samples_add (answered - measure_from) (th_samples t)\<rparr>
           in (status, count_error status t))
         (choose_and_run opts signal draw item t))"

fun measured_loop ::
  "BenchOptions \<Rightarrow> UserSignal \<Rightarrow> Item list \<Rightarrow> KeyDistribution \<Rightarrow> (nat \<Rightarrow> bench_draw) \<Rightarrow> 64 word
     \<Rightarrow> (nat \<Rightarrow> 64 word \<times> 64 word) \<Rightarrow> nat \<Rightarrow> nat \<Rightarrow> bench_thread \<Rightarrow> bench_thread option" where
  "measured_loop opts signal items d draws run_start clock i 0 t = Some t"
| "measured_loop opts signal items d draws run_start clock i (Suc n) t =
     (case measure_one opts signal (draws i) (items ! distribution_next d (draws i)) run_start i (clock i) t of
        None \<Rightarrow> None
      | Some (status, t) \<Rightarrow>
          if status = CallConnectionLost then Some t
          else measured_loop opts signal items d draws run_start clock (Suc i) n t)"

text \<open>What surrounds a client thread: its kernel and its stream, its generator by seed, and its clock.\<close>

record client_env =
  env_kernel :: kernel
  env_stream :: socket
  env_draws :: "u64 \<Rightarrow> nat \<Rightarrow> bench_draw"
  env_start :: "64 word"
  env_clock :: "nat \<Rightarrow> 64 word \<times> 64 word"

definition rng_seed :: "nat \<Rightarrow> u64" where
  "rng_seed thread_index = 0x9E3779B97F4A7C15 + word_of_nat thread_index"

definition thread_make :: "Connection \<Rightarrow> bench_thread" where
  "thread_make c = \<lparr>th_connection = c, th_item = default_item, th_ranked = [], th_samples = [], th_errors = 0,
     th_mismatches = 0, th_misses = 0\<rparr>"

text \<open>The thread's samples and counters at its end; an exception counts as an error (\<open>run_once\<close>'s handler).
  The wait for the common start between the two loops changes no state of the thread and is not modelled.\<close>

definition run_thread ::
  "pb_runtime option \<Rightarrow> libm \<Rightarrow> BenchOptions \<Rightarrow> Item list \<Rightarrow> UserSignal \<Rightarrow> nat \<Rightarrow> client_env
     \<Rightarrow> (u64 list \<times> u64 \<times> u64 \<times> u64) option" where
  "run_thread build m opts items signal thread_index env =
     (case connection_connect build (env_stream env) (bo_socket_path opts) (bo_codec_name opts) (env_kernel env) of
        None \<Rightarrow> None
      | Some (Inl e, k) \<Rightarrow> Some ([], 1, 0, 0)
      | Some (Inr c, k) \<Rightarrow>
          let d = distribution_make m (unat (bo_key_count opts)) (bo_zipf_theta opts);
              draws = env_draws env (rng_seed thread_index);
              warm = unat (bo_warmup_per_thread opts)
          in case warmup opts signal items d draws 0 warm (thread_make c) of
               None \<Rightarrow> None
             | Some t \<Rightarrow>
                 map_option (\<lambda>t. (th_samples t, th_errors t, th_mismatches t, th_misses t))
                   (measured_loop opts signal items d (\<lambda>i. draws (warm + i)) (env_start env) (env_clock env) 0
                      (unat (bo_requests_per_thread opts)) t))"

subsection \<open>Runs and the exit code\<close>

record RunResult =
  rr_latency :: LatencySummary
  rr_ops_per_sec :: double
  rr_errors :: u64
  rr_mismatches :: u64
  rr_misses :: u64

record run_env =
  run_now :: Timestamp
  run_seconds :: double
  run_client :: "nat \<Rightarrow> client_env"

definition run_once ::
  "pb_runtime option \<Rightarrow> libm \<Rightarrow> (u64 list \<Rightarrow> double) \<Rightarrow> BenchOptions \<Rightarrow> run_env \<Rightarrow> nat \<Rightarrow> RunResult option" where
  "run_once build m mean opts env threads =
     (let items = make_items (unat (bo_key_count opts)) (run_now env)
      in map_option (\<lambda>rs.
           let latency = summarize mean (map fst rs) in
           \<lparr>rr_latency = latency,
            rr_ops_per_sec = (if 0 < run_seconds env then double_of_nat (ls_count latency) / run_seconds env else 0),
            rr_errors = sum_list (map (\<lambda>(s, e, mm, ms). e) rs),
            rr_mismatches = sum_list (map (\<lambda>(s, e, mm, ms). mm) rs),
            rr_misses = sum_list (map (\<lambda>(s, e, mm, ms). ms) rs)\<rparr>)
         (those (map (\<lambda>t. run_thread build m opts items make_signal t (run_client env t)) [0..<threads])))"

definition kSweepThreads :: "nat list" where
  "kSweepThreads = [1, 2, 4, 8, 16]"

definition bench_main ::
  "pb_runtime option \<Rightarrow> libm \<Rightarrow> (u64 list \<Rightarrow> double) \<Rightarrow> strtod_fn \<Rightarrow> (nat \<Rightarrow> nat \<Rightarrow> run_env) \<Rightarrow> cstring list \<Rightarrow> nat option" where
  "bench_main build m mean strtod env argv =
     (case bench_parse_args strtod argv bench_defaults of
        None \<Rightarrow> Some 2
      | Some opts \<Rightarrow>
          if bo_show_help opts then Some 0
          else let points = (if bo_sweep opts then kSweepThreads else [unat (bo_threads opts)]) in
            map_option (\<lambda>runs. if 0 < sum_list (map rr_mismatches runs) then 1 else 0)
              (those (concat (map (\<lambda>threads. map (\<lambda>trial. run_once build m mean opts (env threads trial) threads)
                 [0..<unat (bo_trials opts)]) points))))"

subsection \<open>Keys\<close>

text \<open>On a list that is partitioned by the value, the search returns how many elements are below it.\<close>

lemma lower_bound_partition:
  assumes "first \<le> k" "k \<le> first + len" "first + len \<le> length xs"
    and "\<forall>i < length xs. xs ! i < v \<longleftrightarrow> i < k"
  shows "lower_bound xs v first len = k"
  using assms
proof (induction xs v first len rule: lower_bound.induct)
  case (1 xs v first len)
  show ?case
  proof (cases "len = 0")
    case False
    let ?middle = "first + len div 2"
    have m: "?middle < length xs" using 1(5) False by (metis add_less_mono1 div_less_dividend le_trans less_le_trans nat_add_left_cancel_less neq0_conv one_less_numeral_iff semiring_norm(76))
    show ?thesis
    proof (cases "xs ! ?middle < v")
      case True
      then have "?middle < k" using 1(6) m by blast
      then have "lower_bound xs v (?middle + 1) (len - len div 2 - 1) = k"
        using 1(1) [OF False refl refl True] 1(4,5,6) by simp
      then show ?thesis using False True by (subst lower_bound.simps) (simp add: Let_def)
    next
      case n: False
      then have "k \<le> ?middle" using 1(6) m by (metis not_le)
      then have "lower_bound xs v first (len div 2) = k"
        using 1(2) [OF False refl refl n] 1(3,5,6) by simp
      then show ?thesis using False n by (subst lower_bound.simps) (simp add: Let_def)
    qed
  qed (use 1 in \<open>simp add: lower_bound.simps\<close>)
qed

lemma distribution_next_in_range:
  assumes "0 < kd_count d" "kd_theta d \<le> 0 \<longrightarrow> dr_uniform draw \<le> kd_count d - 1"
  shows "distribution_next d draw < kd_count d"
  using assms by (auto simp: distribution_next_def)

lemma bench_keys_valid:
  assumes "i < n" "n < 2 ^ 64"
  shows "item_id (make_items n now ! i) = word_of_nat (i + 1)" "item_id (make_items n now ! i) \<noteq> 0"
proof -
  show e: "item_id (make_items n now ! i) = word_of_nat (i + 1)" using assms by (simp add: make_items_def key_at_def)
  have "unat (word_of_nat (i + 1) :: u64) = i + 1" by (subst unat_of_nat) (use assms in simp)
  then show "item_id (make_items n now ! i) \<noteq> 0" unfolding e by (metis add_is_0 unat_0 one_neq_zero)
qed

subsection \<open>Percentiles\<close>

lemma dval_dceil:
  assumes "is_finite x" "0 \<le> dval x" "dval x \<le> of_nat n" "n < 2 ^ 53"
  shows "dval (dceil x) = of_int \<lceil>dval x\<rceil>"
proof -
  have up: "\<lceil>dval x\<rceil> \<le> int n" using assms(3) by (simp add: ceiling_le_iff)
  have c: "0 \<le> \<lceil>dval x\<rceil>" using assms(2) by (simp add: le_ceiling_iff)
  let ?k = "nat \<lceil>dval x\<rceil>"
  have k: "?k < 2 ^ 53" using up c assms(4) by linarith
  have e: "rat_of_int \<lceil>dval x\<rceil> = dval (double_of_nat ?k)"
    using c by (simp add: dval_double_of_nat [OF k])
  have "is_finite (double_of_nat ?k)" using k by (intro double_of_nat_finite) simp
  then show ?thesis using assms(1) unfolding dceil_def e by (simp add: rnd_dval)
qed

text \<open>The product of a fraction and a count stays between zero and the count, and grows with the fraction.\<close>

lemma fraction_of_count:
  assumes "is_finite p" "0 \<le> dval p" "dval p \<le> 1" "n < 2 ^ 53"
  shows "is_finite (p * double_of_nat n)" "0 \<le> dval (p * double_of_nat n)" "dval (p * double_of_nat n) \<le> of_nat n"
proof -
  have f: "is_finite (double_of_nat n)" using assms(4) by (intro double_of_nat_finite) simp
  have v: "dval (double_of_nat n) = of_nat n" using assms(4) by (rule dval_double_of_nat)
  have t: "p * double_of_nat n = rnd (dsign p \<noteq> dsign (double_of_nat n)) (dval p * of_nat n)"
    using times_finite [OF assms(1) f] v by simp
  have q: "dval 0 \<le> dval p * of_nat n" "dval p * of_nat n \<le> dval (double_of_nat n)"
    using assms(2,3) by (simp_all add: v mult_left_le_one_le)
  from rnd_between [OF zero_double_facts(1) f q]
  show "is_finite (p * double_of_nat n)" "0 \<le> dval (p * double_of_nat n)" "dval (p * double_of_nat n) \<le> of_nat n"
    unfolding t by (simp_all add: v)
qed

lemma percentile_index_rank:
  assumes "is_finite p" "0 \<le> dval p" "dval p \<le> 1" "0 < n" "n < 2 ^ 53"
  shows "percentile_index n p < n"
    and "int (percentile_index n p) + 1 = max 1 \<lceil>dval (p * double_of_nat n)\<rceil>"
proof -
  note fr = fraction_of_count [OF assms(1-3,5)]
  have s: "size_of_double (dceil (p * double_of_nat n)) = nat \<lceil>dval (p * double_of_nat n)\<rceil>"
    by (simp add: size_of_double_def dval_dceil [OF fr assms(5)])
  have "\<lceil>dval (p * double_of_nat n)\<rceil> \<le> int n" using fr(3) by (simp add: ceiling_le_iff)
  then show "int (percentile_index n p) + 1 = max 1 \<lceil>dval (p * double_of_nat n)\<rceil>" "percentile_index n p < n"
    using assms(4) by (auto simp: percentile_index_def s Let_def)
qed

lemma rnd_mono:
  assumes "q \<le> r" "is_finite (rnd s q)" "is_finite (rnd s' r)"
  shows "dval (rnd s q) \<le> dval (rnd s' r)"
  using assms rkey_mono [OF assms(1)] by (intro dval_mono) (simp_all add: dkey_rnd)

lemma percentile_index_mono:
  assumes "is_finite p" "0 \<le> dval p" "dval p \<le> dval q" "is_finite q" "dval q \<le> 1" "0 < n" "n < 2 ^ 53"
  shows "percentile_index n p \<le> percentile_index n q"
proof -
  have b: "dval p \<le> 1" "0 \<le> dval q" using assms(2,3,5) by simp_all
  have f: "is_finite (double_of_nat n)" using assms(7) by (intro double_of_nat_finite) simp
  have "dval p * dval (double_of_nat n) \<le> dval q * dval (double_of_nat n)"
    using assms(3) by (simp add: dval_double_of_nat [OF assms(7)] mult_right_mono)
  then have "dval (p * double_of_nat n) \<le> dval (q * double_of_nat n)"
    using fraction_of_count(1) [OF assms(1,2) b(1) assms(7)] fraction_of_count(1) [OF assms(4) b(2) assms(5,7)]
    unfolding times_finite [OF assms(1) f] times_finite [OF assms(4) f] by (rule rnd_mono)
  then have "\<lceil>dval (p * double_of_nat n)\<rceil> \<le> \<lceil>dval (q * double_of_nat n)\<rceil>" by (rule ceiling_mono)
  then have "int (percentile_index n p) + 1 \<le> int (percentile_index n q) + 1"
    unfolding percentile_index_rank(2) [OF assms(1,2) b(1) assms(6,7)]
      percentile_index_rank(2) [OF assms(4) b(2) assms(5-7)] by simp
  then show ?thesis by simp
qed

lemma fraction_literal:
  assumes "0 \<le> q" "q \<le> 1"
  shows "is_finite (dlit q)" "0 \<le> dval (dlit q)" "dval (dlit q) \<le> 1"
  using rnd_between [of 0 1 q False] assms by (simp_all add: dlit_def)

lemma fraction_literal_mono: "0 \<le> q \<Longrightarrow> q \<le> r \<Longrightarrow> r \<le> 1 \<Longrightarrow> dval (dlit q) \<le> dval (dlit r)"
  using fraction_literal(1) [of q] fraction_literal(1) [of r] unfolding dlit_def by (intro rnd_mono) simp_all

text \<open>Nanoseconds as the microseconds that are reported, a growing function.\<close>

definition micros :: "u64 \<Rightarrow> double" where
  "micros x = u64_double x / dlit 1000"

lemma micros_finite: "is_finite (micros x)" "micros x = rnd False (dval (u64_double x) / 1000)"
proof -
  have k: "dlit 1000 = double_of_nat 1000" by (simp add: dlit_def double_of_nat_def)
  have v: "dval (dlit 1000) = 1000" unfolding k using dval_double_of_nat [of 1000] by simp
  have fk: "is_finite (dlit 1000)" unfolding k by (intro double_of_nat_finite) simp
  have fx: "is_finite (u64_double x)"
    unfolding u64_double_def by (intro double_of_nat_finite) (use unsigned_less [of x] in simp)
  have sgn: "\<not> dsign (u64_double x)" "\<not> dsign (dlit 1000)" by (simp_all add: u64_double_def k)
  show e: "micros x = rnd False (dval (u64_double x) / 1000)"
    unfolding micros_def using divide_finite [OF fx fk] v sgn by simp
  have "0 \<le> dval (u64_double x)" using sgn by (simp add: dval_def mag_val_def)
  then have "dval 0 \<le> dval (u64_double x) / 1000" "dval (u64_double x) / 1000 \<le> dval (u64_double x)"
    by simp_all
  then show "is_finite (micros x)" unfolding e using rnd_between(1) [OF zero_double_facts(1) fx] by blast
qed

lemma micros_mono:
  assumes "x \<le> y"
  shows "micros x \<le> micros y"
proof -
  have "unat x \<le> unat y" using assms by (simp add: word_le_nat_alt)
  then have "dval (u64_double x) \<le> dval (u64_double y)"
    unfolding u64_double_def using unsigned_less [of y] by (intro double_of_nat_mono) simp_all
  then have "dval (u64_double x) / 1000 \<le> dval (u64_double y) / 1000" by (simp add: divide_right_mono)
  then have "dval (micros x) \<le> dval (micros y)"
    using micros_finite(1) [of x] micros_finite(1) [of y] unfolding micros_finite(2) by (rule rnd_mono)
  then show ?thesis by (simp add: less_eq_double_finite micros_finite(1))
qed

text \<open>Order statistics: in a sorted list \<open>k + 1\<close> elements are at or below the one at \<open>k\<close>, and at most \<open>k\<close> are below it.\<close>

lemma order_statistics:
  fixes xs :: "'a :: linorder list"
  assumes "k < length xs"
  shows "Suc k \<le> length (filter (\<lambda>x. x \<le> sort xs ! k) xs)" "length (filter (\<lambda>x. x < sort xs ! k) xs) \<le> k"
proof -
  let ?s = "sort xs" and ?v = "sort xs ! k"
  have len: "length (filter P xs) = length (filter P ?s)" for P
    by (metis mset_filter mset_sort size_mset)
  have split: "filter P ?s = filter P (take (Suc k) ?s) @ filter P (drop (Suc k) ?s)" for P
    by (metis append_take_drop_id filter_append)
  have "filter (\<lambda>x. x \<le> ?v) (take (Suc k) ?s) = take (Suc k) ?s"
    using assms sorted_sort [of xs] by (auto simp: filter_id_conv in_set_conv_nth sorted_iff_nth_mono)
  then show "Suc k \<le> length (filter (\<lambda>x. x \<le> ?v) xs)" unfolding len split using assms by simp
  have "filter (\<lambda>x. x < ?v) (drop k ?s) = []"
    using assms sorted_sort [of xs] by (auto simp: filter_empty_conv in_set_conv_nth sorted_iff_nth_mono not_less)
  then have "filter (\<lambda>x. x < ?v) ?s = filter (\<lambda>x. x < ?v) (take k ?s)"
    by (metis append_Nil2 append_take_drop_id filter_append)
  then have "length (filter (\<lambda>x. x < ?v) ?s) \<le> length (take k ?s)" by (metis length_filter_le)
  then show "length (filter (\<lambda>x. x < ?v) xs) \<le> k" unfolding len by simp
qed

subsection \<open>The mismatch counter\<close>

text \<open>
  The counter is meant for a get whose answer carries another id, but the item compared is the last one fetched,
  whatever the request was. So with correct answers throughout a write that follows a read of another key is
  counted, and the run ends with the exit code of a failed one.
\<close>

lemma read_answered:
  assumes "dr_roll draw < bo_read_ratio opts" "get_item (item_id a) (th_item t) (th_connection t) = Some (CallOk, a, c)"
  shows "\<exists>t'. measure_one opts signal draw a start i rd t = Some (CallOk, t') \<and> th_item t' = a \<and> th_connection t' = c
    \<and> th_mismatches t' = th_mismatches t \<and> th_errors t' = th_errors t"
  using assms by (auto simp: measure_one_def choose_and_run_def count_answer_def count_error_def Let_def split: prod.splits)

lemma write_counted_as_mismatch:
  assumes "\<not> dr_roll draw < bo_read_ratio opts" "\<not> dr_roll draw < bo_read_ratio opts + bo_recommend_ratio opts"
    and "put_item b (th_connection t) = Some (CallOk, c)"
    and "item_id (th_item t) \<noteq> 0" "item_id (th_item t) \<noteq> item_id b"
  shows "\<exists>t'. measure_one opts signal draw b start i rd t = Some (CallOk, t') \<and> th_connection t' = c
    \<and> th_mismatches t' = th_mismatches t + 1 \<and> th_errors t' = th_errors t"
  using assms by (auto simp: measure_one_def choose_and_run_def count_answer_def count_error_def Let_def split: prod.splits)

lemma correct_answers_counted_as_mismatch:
  assumes "dr_roll r < bo_read_ratio opts"
    and "\<not> dr_roll w < bo_read_ratio opts" "\<not> dr_roll w < bo_read_ratio opts + bo_recommend_ratio opts"
    and "get_item (item_id a) (th_item t) (th_connection t) = Some (CallOk, a, c)"
    and "put_item b c = Some (CallOk, c')" "item_id a \<noteq> 0" "item_id a \<noteq> item_id b"
  shows "\<exists>t1 t2. measure_one opts signal r a start i rd t = Some (CallOk, t1)
    \<and> measure_one opts signal w b start (Suc i) rd' t1 = Some (CallOk, t2)
    \<and> th_errors t2 = th_errors t \<and> th_mismatches t2 = th_mismatches t + 1"
proof -
  obtain t1 where t1: "measure_one opts signal r a start i rd t = Some (CallOk, t1)" "th_item t1 = a"
    "th_connection t1 = c" "th_mismatches t1 = th_mismatches t" "th_errors t1 = th_errors t"
    using read_answered [OF assms(1,4)] by blast
  have p: "put_item b (th_connection t1) = Some (CallOk, c')" "item_id (th_item t1) \<noteq> 0" "item_id (th_item t1) \<noteq> item_id b"
    using t1 assms(5-7) by simp_all
  show ?thesis using write_counted_as_mismatch [OF assms(2,3) p, of signal start "Suc i" rd'] t1 by fastforce
qed

subsection \<open>Properties\<close>

lemma sort_Nil_iff [simp]: "sort xs = [] \<longleftrightarrow> xs = []"
  by (metis set_empty set_sort)

lemma percentile_sample:
  assumes "xs \<noteq> []" "length xs < 2 ^ 53" "0 \<le> q" "q \<le> 1"
  shows "\<exists>x \<in> set xs. percentile_us (sort xs) (dlit q) = micros x
    \<and> \<lceil>dval (dlit q * double_of_nat (length xs))\<rceil> \<le> int (length (filter (\<lambda>y. y \<le> x) xs))
    \<and> int (length (filter (\<lambda>y. y < x) xs)) < max 1 \<lceil>dval (dlit q * double_of_nat (length xs))\<rceil>"
proof -
  let ?k = "percentile_index (length xs) (dlit q)"
  have k: "?k < length xs" "int ?k + 1 = max 1 \<lceil>dval (dlit q * double_of_nat (length xs))\<rceil>"
    using percentile_index_rank [OF fraction_literal [OF assms(3,4)] _ assms(2)] assms(1) by simp_all
  have "percentile_us (sort xs) (dlit q) = micros (sort xs ! ?k)" using assms(1) by (simp add: percentile_us_def micros_def)
  moreover have "sort xs ! ?k \<in> set xs" using k(1) by (metis length_sort nth_mem set_sort)
  ultimately show ?thesis using order_statistics [OF k(1)] k(2) by (intro bexI [of _ "sort xs ! ?k"]) auto
qed

lemma percentile_le:
  assumes "xs \<noteq> []" "length xs < 2 ^ 53" "0 \<le> q" "q \<le> r" "r \<le> 1"
  shows "percentile_us (sort xs) (dlit q) \<le> percentile_us (sort xs) (dlit r)"
proof -
  have "q \<le> 1" "0 \<le> r" using assms(3-5) by simp_all
  note l = fraction_literal [OF assms(3) this(1)] fraction_literal [OF this(2) assms(5)]
  have i: "percentile_index (length xs) (dlit q) \<le> percentile_index (length xs) (dlit r)"
    by (rule percentile_index_mono) (use l assms fraction_literal_mono [OF assms(3-5)] in simp_all)
  have "percentile_index (length xs) (dlit r) < length xs"
    by (rule percentile_index_rank(1)) (use l assms in simp_all)
  then have "sort xs ! percentile_index (length xs) (dlit q) \<le> sort xs ! percentile_index (length xs) (dlit r)"
    using i sorted_sort [of xs] by (simp add: sorted_iff_nth_mono)
  then show ?thesis using assms(1) micros_mono by (simp add: percentile_us_def flip: micros_def)
qed

lemma percentile_within:
  assumes "xs \<noteq> []" "length xs < 2 ^ 53" "0 \<le> q" "q \<le> 1"
  shows "micros (hd (sort xs)) \<le> percentile_us (sort xs) (dlit q)" "percentile_us (sort xs) (dlit q) \<le> micros (last (sort xs))"
proof -
  obtain x where x: "x \<in> set (sort xs)" "percentile_us (sort xs) (dlit q) = micros x"
    using percentile_sample [OF assms] by auto
  obtain j where j: "j < length (sort xs)" "x = sort xs ! j" using x(1) by (metis in_set_conv_nth)
  have "hd (sort xs) \<le> x" "x \<le> last (sort xs)"
    using j assms(1) sorted_sort [of xs] by (auto simp: hd_conv_nth last_conv_nth sorted_iff_nth_mono)
  then show "micros (hd (sort xs)) \<le> percentile_us (sort xs) (dlit q)"
    "percentile_us (sort xs) (dlit q) \<le> micros (last (sort xs))"
    unfolding x(2) by (simp_all add: micros_mono)
qed



end
