(* ===== verification/Spec2Isabelle.thy ===== *)
theory Spec2Isabelle
  imports Codec Framing Handler Protobuf_Codec Thread_Pool Connection_Registry Unix_Socket Serve Server
    Client_Connection Sdk_Client Daemon_Main Cli_Main Bench
begin

text \<open>
  \<^bold>\<open>lrd, a local recommendation daemon: a verification development.\<close>

  \<^bold>\<open>The program.\<close> The daemon \<open>lrdd\<close> holds items in a sharded LRU cache and answers requests over a UNIX
  stream socket: put, get and delete an item, recommend a slate for a user signal, and report statistics. A
  recommendation scores every cached item, keeps the best candidates in a bounded heap, re-ranks them for
  diversity, and asks a policy store before it takes each one, so that no item is shown more often than its cap
  and its rolling frequency limit allow. The exported statistics can carry noise. One acceptor thread hands
  accepted connections to a pool of workers, and a worker serves a connection until it ends. Clients use one
  \<open>Connection\<close>, the pooled and retrying SDK \<open>Client\<close>, the program \<open>lrd_cli\<close> or the load generator \<open>lrd_bench\<close>.

  \<^bold>\<open>Theories and sources.\<close> Definitions keep the names of the code, with a prefix where several classes
  share a method name (\<open>lru_get\<close>, \<open>sharded_get\<close>). Classes are records and methods state-passing functions.

  \<^item> Prelude, Ieee_Double, Std_List, Std_Heap, Text_Numbers: the parts of the language and its library the
    sources use: machine words, unordered maps, binary64 arithmetic with its rounding, \<open>std::list\<close> with stable
    iterators, \<open>push_heap\<close> and \<open>pop_heap\<close>, \<open>strtoul\<close> and \<open>from_chars\<close>.
  \<^item> Lru_Cache, Shard_Router, Sharded_Cache (include/lrd/cache, common/hash_mix.hpp): the caches.
  \<^item> Rank_Types, Scorer (include/lrd/rank, src/rank): items, signals, and the candidate selection.
  \<^item> Exposure_Store (include/lrd/policy, src/policy): exposure and frequency counters.
  \<^item> Noise (include/lrd/privacy, src/privacy): the mechanism on exported counters.
  \<^item> Wire, Message, Codec, Protobuf_Codec, Framing (include/lrd/proto, src/proto, proto/lrd.proto): the messages,
    the two codecs and the frames.
  \<^item> Io, Unix_Socket (include/lrd/net, src/net, common/fd, common/errors): transfers, descriptors, sockets.
  \<^item> Handler (daemon/handler): every request on the parts above; one call is one step.
  \<^item> Thread_Pool, Connection_Registry, Serve, Server (concurrency/thread_pool, daemon/connection_registry,
    daemon/server): the pool, the registry, the loop of one connection, and the daemon they make up.
  \<^item> Client_Connection, Sdk_Client (client/connection, sdk): one connection and the shared client.
  \<^item> Daemon_Main, Cli_Main, Bench (daemon/main.cpp, client/main.cpp, bench): the programs.

  \<^bold>\<open>Concurrency.\<close> What the code does under one mutex is one step. The pool, the registry, the daemon and the
  SDK are transition systems in which the steps of all threads interleave freely; a notification of a condition
  variable sent outside the lock is a step of its own. Invariants are shown by induction over runs, and
  liveness as a measure that every step of the program decreases, with a step possible until the goal is
  reached. Relaxed counters are words that are added to atomically.

  \<^bold>\<open>What is shown.\<close>

  \<^item> Policy: C1 to C4 lift the cap and the frequency limit from one store call to the handler and then to all
    connections of the daemon together. C15 and C16: \<open>check\<close> and \<open>reserve\<close> agree, and the store is bounded.
  \<^item> Shutdown, pool and accounting: C5 and C28 to C31, C34.
  \<^item> End to end: C6 for the daemon's side, C7, C9 and C24 for a client joined to it: under every fragmentation of
    the stream the client gets exactly what the handler computes.
  \<^item> SDK: C8 (a recording request is not repeated), C32 and C33.
  \<^item> Caches: C10 refines the LRU cache to the list of entries in recency order; C14 lifts it to shards.
  \<^item> Protocol: C11 to C13, C20 to C22, C35 and C36: round trips, exact decoding, frames and limits.
  \<^item> Ranking: C17 to C19: the heap keeps the best, the scan order does not matter, a slate is legal.
  \<^item> Handler: C23, C25, C26. Noise: C27. Binding the socket: C37.
  \<^item> Programs: C38 and C39 read back what can be written on a command line; C40 is about the summary of a run.

  Behaviour that departs from a comment is stated where it is found: \<open>nan_score_passes\<close>,
  \<open>own_name_not_accepted\<close>, \<open>deadline_never_reported\<close>, \<open>negative_size_accepted\<close>, \<open>frequency_limit_truncated\<close> and
  \<open>correct_answers_counted_as_mismatch\<close>.

  \<^bold>\<open>Interfaces.\<close> \<open>shard_array\<close> (containers split into shards) is interpreted by the cache and by the exposure
  store; \<open>heap_algorithms\<close> (the contract of the heap functions) by the library's algorithms; \<open>faithful_codec\<close> and
  \<open>message_codec\<close> by the codecs; \<open>served_codec\<close> and \<open>called_codec\<close> (what a server and a client rely on) by both
  codecs. C6, C7 and C24 are stated for the binary one; the interpretations \<open>pb\<close> and \<open>pb_call\<close> give the lemmas they
  rest on for the protobuf codec on a runtime that carries its messages.

  \<^bold>\<open>Parameters.\<close> Code that is not part of the repository and values the language leaves open are arguments: the
  protobuf runtime with its documented round trip (\<open>carries\<close>), \<open>exp\<close>, \<open>pow\<close> and \<open>log\<close>, \<open>strtod\<close>, the random
  generators, the hash functor, the clock, and the kernel, whose answers to system calls are a script that every
  theorem is quantified over.

  \<^bold>\<open>Bounds.\<close> There is no fuel. Loops over a socket end with their script: a call with no outcome left blocks for
  ever, which is the value None, and the theorems that promise a result state a Some. The remaining loops have a
  measure. Integers keep their width; where a theorem needs a counter not to have wrapped, or a count
  below \<open>2 ^ 53\<close> to be exact as a double, that is among its hypotheses. Signed overflow, undefined in C++, wraps.

  \<^bold>\<open>Not modelled.\<close>

  \<^item> Logging, the printing of the programs and their usage texts: output only, nothing depends on it.
  \<^item> common/version: strings of the build. concurrency/task.hpp: type erasure of a callable.
  \<^item> bench/cache_bench.cpp, bench/codec_bench.cpp and the baselines measure time around operations that are
    modelled in their own theories. Of bench/main.cpp the table and the choice of the median run are left out.
  \<^item> examples/recommender_app.cpp: a sample that calls the SDK and prints.
  \<^item> Failing allocations, and the reordering of relaxed loads that only feed statistics.
\<close>

end
